(* ===== verification/Prelude.thy ===== *)
theory Prelude
  imports Main "HOL-Library.Word" "HOL-Library.Multiset"
begin

text \<open>
  Shared vocabulary of the development: the Go integer widths and the wrap-around of Go's signed
  \<open>int64\<close>, the parts of Go's standard library the sources call (\<open>copy\<close> on slices,
  \<open>sort.Search\<close>, \<open>net.IP.To4\<close>, \<open>net.IP.Equal\<close>, \<open>time.Duration\<close> arithmetic), the view of
  an \<open>enode.Node\<close> through its getters, and two generic interfaces used by several components:
  \<open>inv_system\<close> (a transition system with an invariant) and \<open>marker\<close> (a set that reports whether
  an element is new, the contract of every "seen"/"asked" map of the sources).
\<close>

section \<open>Types\<close>

type_synonym u8 = "8 word"
type_synonym u16 = "16 word"
type_synonym u32 = "32 word"
type_synonym u64 = "64 word"

text \<open>\<open>enode.ID\<close> is \<open>[32]byte\<close>; \<open>net.IP\<close> is a byte slice of length 0, 4 or 16.\<close>

type_synonym node_id = "256 word"
type_synonym ip = "u8 list"

text \<open>A Go \<open>error\<close> value: \<open>None\<close> is \<open>nil\<close>.\<close>

type_synonym err = "string option"

text \<open>
  What the sources read of an \<open>*enode.Node\<close> (package \<open>p2p/enode\<close>, outside this repository): the
  getters \<open>ID()\<close>, \<open>IP()\<close>, \<open>UDP()\<close>, \<open>TCP()\<close>, \<open>Seq()\<close> and the keys of \<open>Record()\<close>.
\<close>

record enode =
  e_ID :: node_id
  e_IP :: ip
  e_UDP :: int
  e_TCP :: int
  e_Seq :: u64
  e_Keys :: "string list"

section \<open>Go standard library\<close>

text \<open>\<open>copy(dst, src)\<close>: overwrites the first \<open>min (len dst) (len src)\<close> elements, like memmove.\<close>

definition go_copy :: "'a list \<Rightarrow> 'a list \<Rightarrow> 'a list" where
  "go_copy dst src = take (length dst) src @ drop (length src) dst"

text \<open>\<open>copy(xs[i:], src)\<close>, written as an update of \<open>xs\<close>.\<close>

definition go_copy_from :: "nat \<Rightarrow> 'a list \<Rightarrow> 'a list \<Rightarrow> 'a list" where
  "go_copy_from i xs src = take i xs @ go_copy (drop i xs) src"

text \<open>\<open>sort.Search(n, f)\<close>: binary search for the smallest index in \<open>[0, n)\<close> with \<open>f\<close> true.\<close>

function go_search_loop :: "(nat \<Rightarrow> bool) \<Rightarrow> nat \<Rightarrow> nat \<Rightarrow> nat" where
  "go_search_loop f i j =
     (if i < j
      then let h = (i + j) div 2 in
           if \<not> f h then go_search_loop f (Suc h) j else go_search_loop f i h
      else i)"
  by pat_completeness auto
termination
  by (relation "measure (\<lambda>(f, i, j). j - i)") auto

declare go_search_loop.simps [simp del]

definition go_search :: "nat \<Rightarrow> (nat \<Rightarrow> bool) \<Rightarrow> nat" where
  "go_search n f = go_search_loop f 0 n"

text \<open>The states of a channel that is only closed, and \<open>close\<close>: \<open>None\<close> is the panic on a nil or closed channel.\<close>

datatype channel = Nil_chan | Open_chan | Closed_chan

definition go_close :: "channel \<Rightarrow> channel option" where
  "go_close c = (case c of Open_chan \<Rightarrow> Some Closed_chan | _ \<Rightarrow> None)"

text \<open>\<open>net.IP.To4\<close> and \<open>net.IP.Equal\<close>: an IPv4 address equals its 16-byte IPv6-mapped form.\<close>

definition To4 :: "ip \<Rightarrow> ip option" where
  "To4 a =
     (if length a = 4 then Some a
      else if length a = 16 \<and> take 10 a = replicate 10 0 \<and> a ! 10 = 255 \<and> a ! 11 = 255
      then Some (drop 12 a) else None)"

definition ip_Equal :: "ip \<Rightarrow> ip \<Rightarrow> bool" where
  "ip_Equal a b =
     (if length a = length b then a = b
      else if length a = 4 \<and> length b = 16 then take 12 b = replicate 10 0 @ [255, 255] \<and> a = drop 12 b
      else if length a = 16 \<and> length b = 4 then take 12 a = replicate 10 0 @ [255, 255] \<and> drop 12 a = b
      else False)"

text \<open>
  Times are nanoseconds since the epoch and durations nanoseconds, both as \<open>int\<close>. \<open>int64\<close>
  arithmetic that can overflow is written with \<open>wrap64\<close>; Go divides integers towards zero.
\<close>

definition wrap64 :: "int \<Rightarrow> int" where
  "wrap64 x = (x + 2 ^ 63) mod 2 ^ 64 - 2 ^ 63"

definition go_quot :: "int \<Rightarrow> int \<Rightarrow> int" where
  "go_quot a b = sgn a * sgn b * (\<bar>a\<bar> div \<bar>b\<bar>)"

definition Millisecond :: int where "Millisecond = 1000000"
definition Second :: int where "Second = 1000 * Millisecond"
definition Minute :: int where "Minute = 60 * Second"
definition Hour :: int where "Hour = 60 * Minute"

text \<open>\<open>time.Unix(s, 0)\<close>, \<open>time.UnixMilli(ms)\<close>, \<open>t.Unix()\<close> and \<open>t.UnixMilli()\<close>.\<close>

definition unix :: "int \<Rightarrow> int" where "unix s = s * Second"
definition unixMilli :: "int \<Rightarrow> int" where "unixMilli ms = ms * Millisecond"
definition toUnix :: "int \<Rightarrow> int" where "toUnix t = t div Second"
definition toUnixMilli :: "int \<Rightarrow> int" where "toUnixMilli t = t div Millisecond"

lemmas time_defs = Millisecond_def Second_def Minute_def Hour_def
  unix_def unixMilli_def toUnix_def toUnixMilli_def

section \<open>Lemmas on slices and search\<close>

named_theorems go_list \<open>rewrite rules of the slice operations\<close>

lemma length_go_copy [simp]: "length (go_copy dst src) = length dst"
  by (simp add: go_copy_def)

lemma length_go_copy_from [simp]: "length (go_copy_from i xs src) = length xs"
  by (simp add: go_copy_from_def)

lemma go_copy_from_shift:
  assumes "i < length xs"
  shows "go_copy_from (Suc i) xs (drop i xs) = take (Suc i) xs @ take (length xs - Suc i) (drop i xs)"
  using assms by (simp add: go_copy_from_def go_copy_def)

lemma go_copy_from_shift_update [go_list]:
  assumes "i < length xs"
  shows "(go_copy_from (Suc i) xs (drop i xs))[i := x] = take i xs @ x # butlast (drop i xs)"
proof -
  have "take (length xs - Suc i) (drop i xs) = butlast (drop i xs)"
    using assms by (simp add: butlast_conv_take)
  moreover have "take (Suc i) xs = take i xs @ [xs ! i]"
    using assms by (simp add: take_Suc_conv_app_nth)
  ultimately show ?thesis
    using assms by (simp add: go_copy_from_shift list_update_append)
qed

lemma go_copy_from_prefix [go_list]:
  assumes "i < length xs"
  shows "(go_copy_from 1 xs (take i xs))[0 := x] = x # take i xs @ drop (Suc i) xs"
proof -
  obtain y ys where xs: "xs = y # ys" using assms by (cases xs) auto
  show ?thesis using assms by (simp add: xs go_copy_from_def go_copy_def)
qed

lemma go_search_loop_spec:
  assumes "i \<le> j" and "\<And>a b. a \<le> b \<Longrightarrow> b < n \<Longrightarrow> f a \<Longrightarrow> f b" and "j \<le> n"
    and "\<And>k. k < i \<Longrightarrow> \<not> f k" and "\<And>k. j \<le> k \<Longrightarrow> k < n \<Longrightarrow> f k"
  shows "i \<le> go_search_loop f i j \<and> go_search_loop f i j \<le> j
    \<and> (\<forall>k < go_search_loop f i j. \<not> f k) \<and> (\<forall>k. go_search_loop f i j \<le> k \<and> k < n \<longrightarrow> f k)"
  using assms
proof (induction f i j rule: go_search_loop.induct)
  case (1 f i j)
  let ?h = "(i + j) div 2"
  show ?case
  proof (cases "i < j")
    case lt: True
    then have h: "i \<le> ?h" "?h < j" by simp_all
    show ?thesis
    proof (cases "f ?h")
      case True
      have "\<And>k. ?h \<le> k \<Longrightarrow> k < n \<Longrightarrow> f k" using True "1.prems"(2) by blast
      with "1.IH"(2)[OF lt refl] True h "1.prems"
      have "i \<le> go_search_loop f i ?h \<and> go_search_loop f i ?h \<le> ?h
        \<and> (\<forall>k < go_search_loop f i ?h. \<not> f k) \<and> (\<forall>k. go_search_loop f i ?h \<le> k \<and> k < n \<longrightarrow> f k)"
        by simp
      with True lt h show ?thesis by (simp add: go_search_loop.simps[of f i j] Let_def)
    next
      case False
      have "\<And>k. k < Suc ?h \<Longrightarrow> \<not> f k"
        using False "1.prems"(2,3) h by (metis less_Suc_eq_le order_less_le_trans)
      with "1.IH"(1)[OF lt refl] False h "1.prems"
      have "Suc ?h \<le> go_search_loop f (Suc ?h) j \<and> go_search_loop f (Suc ?h) j \<le> j
        \<and> (\<forall>k < go_search_loop f (Suc ?h) j. \<not> f k)
        \<and> (\<forall>k. go_search_loop f (Suc ?h) j \<le> k \<and> k < n \<longrightarrow> f k)"
        by simp
      with False lt h show ?thesis by (simp add: go_search_loop.simps[of f i j] Let_def)
    qed
  next
    case False
    with "1.prems" have "i = j" by simp
    with "1.prems" show ?thesis by (simp add: go_search_loop.simps[of f j j])
  qed
qed

lemma go_search_least:
  assumes "\<forall>a b. a \<le> b \<and> b < n \<and> f a \<longrightarrow> f b"
  shows "go_search n f \<le> n" and "k < go_search n f \<Longrightarrow> \<not> f k"
    and "go_search n f \<le> k \<Longrightarrow> k < n \<Longrightarrow> f k"
  using go_search_loop_spec[of 0 n n f] assms by (simp_all add: go_search_def)

lemma disjoint_shrink: "C \<inter> B = {} \<Longrightarrow> A \<subseteq> B \<Longrightarrow> x \<in> B \<Longrightarrow> C \<inter> insert x A = {}"
  by blast

lemma ip_Equal_refl [simp]: "ip_Equal a a"
  by (simp add: ip_Equal_def)

lemma ip_Equal_sym: "ip_Equal a b \<Longrightarrow> ip_Equal b a"
  by (auto simp: ip_Equal_def split: if_splits)

lemma ip_Equal_length: "ip_Equal a b \<Longrightarrow> a \<noteq> [] \<longleftrightarrow> b \<noteq> []"
  by (auto simp: ip_Equal_def split: if_splits)

lemma wrap64_small: "- (2 ^ 63) \<le> x \<Longrightarrow> x < 2 ^ 63 \<Longrightarrow> wrap64 x = x"
  by (simp add: wrap64_def)

lemma wrap64_range: "- (2 ^ 63) \<le> wrap64 x \<and> wrap64 x < 2 ^ 63"
proof -
  have "0 \<le> (x + 2 ^ 63) mod 2 ^ 64" "(x + 2 ^ 63) mod 2 ^ 64 < 2 ^ 64"
    by simp_all
  then show ?thesis by (simp add: wrap64_def)
qed

lemma sum_list_map_update:
  fixes f :: "'a \<Rightarrow> int"
  shows "i < length xs \<Longrightarrow> sum_list (map f (xs[i := x])) = sum_list (map f xs) - f (xs ! i) + f x"
proof (induction xs arbitrary: i)
  case (Cons y ys)
  then show ?case by (cases i) auto
qed simp

lemma of_nat_unat_id [simp]: "of_nat (unat w) = (w :: 'a::len word)"
  by simp

lemma unat_plus_one: "x < y \<Longrightarrow> unat (x + 1) = Suc (unat x)" for x y :: "'a::len word"
proof -
  assume "x < y"
  then have "unat x < unat y" by (simp add: word_less_nat_alt)
  moreover have "unat y < 2 ^ LENGTH('a)" by (rule unsigned_less)
  ultimately have "unat x + unat (1 :: 'a word) < 2 ^ LENGTH('a)" by (metis Suc_eq_plus1 Suc_leI order_le_less_trans unat_1)
  then show ?thesis using unat_add_lem[of x 1] by simp
qed

section \<open>Transition systems\<close>

text \<open>
  The contract shared by the concurrent components: a step relation between states and an
  invariant that the initial states have and that every step keeps.
\<close>

inductive reach :: "('s \<Rightarrow> bool) \<Rightarrow> ('s \<Rightarrow> 's \<Rightarrow> bool) \<Rightarrow> 's \<Rightarrow> bool"
  for init :: "'s \<Rightarrow> bool" and step :: "'s \<Rightarrow> 's \<Rightarrow> bool" where
  reach_init: "init s \<Longrightarrow> reach init step s"
| reach_step: "reach init step s \<Longrightarrow> step s t \<Longrightarrow> reach init step t"

text \<open>A run continued is a run.\<close>

lemma reach_trans: "reach (\<lambda>u. u = s) step t \<Longrightarrow> reach init step s \<Longrightarrow> reach init step t"
  by (induction rule: reach.induct) (auto intro: reach_step)

lemma reach_from: "reach (\<lambda>u. u = s) step t \<Longrightarrow> init s \<Longrightarrow> reach init step t"
  by (blast intro: reach_trans reach_init)

locale inv_system =
  fixes init :: "'s \<Rightarrow> bool" and step :: "'s \<Rightarrow> 's \<Rightarrow> bool" and inv :: "'s \<Rightarrow> bool"
  assumes inv_init: "init s \<Longrightarrow> inv s"
    and inv_step: "inv s \<Longrightarrow> step s t \<Longrightarrow> inv t"
begin

lemma reach_inv: "reach init step s \<Longrightarrow> inv s"
  by (induction rule: reach.induct) (auto intro: inv_init inv_step)

lemma inv_steps: "step\<^sup>*\<^sup>* s t \<Longrightarrow> inv s \<Longrightarrow> inv t"
  by (induction rule: rtranclp_induct) (auto intro: inv_step)

end

section \<open>Marking an element as seen\<close>

text \<open>
  Several components keep a map of the identifiers they have met and act on the first meeting only:
  \<open>lookup.canAsk\<close>, the seeker's \<open>seen\<close> map, \<open>Peer.MarkPeerNode\<close>, the Redis scan cache. The
  contract: \<open>mark\<close> reports whether the key is new and makes it known.
\<close>

locale marker =
  fixes mark :: "'s \<Rightarrow> 'k \<Rightarrow> bool \<times> 's" and known :: "'s \<Rightarrow> 'k set"
  assumes mark_fresh: "fst (mark s k) \<longleftrightarrow> k \<notin> known s"
    and mark_known: "known (snd (mark s k)) = insert k (known s)"
begin

text \<open>The keys reported as new while a list of keys is marked from left to right.\<close>

primrec fresh_of :: "'s \<Rightarrow> 'k list \<Rightarrow> 'k list" where
  "fresh_of s [] = []"
| "fresh_of s (k # ks) =
     (if fst (mark s k) then k # fresh_of (snd (mark s k)) ks else fresh_of (snd (mark s k)) ks)"

primrec mark_all :: "'s \<Rightarrow> 'k list \<Rightarrow> 's" where
  "mark_all s [] = s"
| "mark_all s (k # ks) = mark_all (snd (mark s k)) ks"

lemma known_mark_all: "known (mark_all s ks) = known s \<union> set ks"
  by (induction ks arbitrary: s) (auto simp: mark_known)

lemma set_fresh_of: "set (fresh_of s ks) = set ks - known s"
  by (induction ks arbitrary: s) (auto simp: mark_fresh mark_known)

lemma distinct_fresh_of: "distinct (fresh_of s ks)"
  by (induction ks arbitrary: s) (auto simp: set_fresh_of mark_known)

lemma mark_again: "\<not> fst (mark (snd (mark s k)) k)"
  by (simp add: mark_fresh mark_known)

end

end
