(* ===== verification/Nodes.thy ===== *)
theory Nodes
  imports Prelude
begin

text \<open>
  \<open>crawler/net/discovery/common/node.go\<close>: the \<open>Node\<close> wrapper around an \<open>enode.Node\<close> (Go
  embedding is record extension) and \<open>NodesByDistance\<close>, the bounded list of the nodes closest to a
  target. \<open>enode.DistCmp\<close> is outside the repository: it is the argument \<open>D\<close> of \<open>Push\<close>, and the
  locale \<open>dist_order\<close> states what its documentation promises. Inside that locale a sequence of
  pushes is shown to compute the prefix of a stable sort by distance.
\<close>

unbundle bit_operations_syntax

section \<open>Definitions\<close>

record Node = enode +
  addedAt :: u64
  livenessChecks :: u64

definition SetTimestamp :: "Node \<Rightarrow> int \<Rightarrow> Node" where
  "SetTimestamp n ts = n\<lparr>addedAt := word_of_int (toUnix ts)\<rparr>"

definition Bump :: "Node \<Rightarrow> Node" where
  "Bump n = n\<lparr>livenessChecks := livenessChecks n + 1\<rparr>"

definition BumpX :: "Node \<Rightarrow> int \<Rightarrow> Node" where
  "BumpX n i = n\<lparr>livenessChecks := livenessChecks n + word_of_int i\<rparr>"

definition Unwrap :: "Node \<Rightarrow> enode" where
  "Unwrap n = enode.truncate n"

definition Wrap :: "Node \<Rightarrow> enode \<Rightarrow> Node" where
  "Wrap n e = enode.extend e (enode.more n)"

definition WrapNode :: "enode \<Rightarrow> Node" where
  "WrapNode e = enode.extend e \<lparr>addedAt = 0, livenessChecks = 0\<rparr>"

fun WrapNodes :: "enode list \<Rightarrow> Node list" where
  "WrapNodes [] = []"
| "WrapNodes (e # es) = Wrap (WrapNode \<lparr>e_ID = 0, e_IP = [], e_UDP = 0, e_TCP = 0, e_Seq = 0, e_Keys = []\<rparr>) e # WrapNodes es"

fun UnwrapNodes :: "Node list \<Rightarrow> enode list" where
  "UnwrapNodes [] = []"
| "UnwrapNodes (n # ns) = Unwrap n # UnwrapNodes ns"

definition Addr :: "Node \<Rightarrow> ip \<times> int" where
  "Addr n = (e_IP n, e_UDP n)"

definition GetAddedAt :: "Node \<Rightarrow> int" where
  "GetAddedAt n = unix (sint (addedAt n))"

definition GetCount :: "Node \<Rightarrow> int" where
  "GetCount n = sint (livenessChecks n)"

record NodesByDistance =
  nbd_entries :: "Node list"
  Target :: node_id

definition Enodes :: "NodesByDistance \<Rightarrow> enode list" where
  "Enodes h = UnwrapNodes (nbd_entries h)"

definition Push :: "(node_id \<Rightarrow> node_id \<Rightarrow> node_id \<Rightarrow> int) \<Rightarrow> NodesByDistance \<Rightarrow> Node \<Rightarrow> int \<Rightarrow> NodesByDistance" where
  "Push D h n maxElems =
     (let es = nbd_entries h;
          ix = go_search (length es) (\<lambda>i. 0 < D (Target h) (e_ID (es ! i)) (e_ID n));
          end0 = length es;
          es' = (if int (length es) < maxElems then es @ [n] else es)
      in if ix < end0
         then h\<lparr>nbd_entries := (go_copy_from (Suc ix) es' (drop ix es'))[ix := n]\<rparr>
         else h\<lparr>nbd_entries := es'\<rparr>)"

text \<open>The loop \<open>for _, n := range ns { h.Push(n, maxElems) }\<close> of the callers.\<close>

fun PushAll :: "(node_id \<Rightarrow> node_id \<Rightarrow> node_id \<Rightarrow> int) \<Rightarrow> NodesByDistance \<Rightarrow> Node list \<Rightarrow> int \<Rightarrow> NodesByDistance" where
  "PushAll D h [] m = h"
| "PushAll D h (n # ns) m = PushAll D (Push D h n m) ns m"

text \<open>
  Reference: insertion behind the elements that are not farther. The XOR metric on 256-bit
  identifiers is the instance of \<open>DistCmp\<close> that the Kademlia protocol prescribes.
\<close>

definition ins_after :: "('a \<Rightarrow> nat) \<Rightarrow> 'a \<Rightarrow> 'a list \<Rightarrow> 'a list" where
  "ins_after f x ys = takeWhile (\<lambda>y. f y \<le> f x) ys @ x # dropWhile (\<lambda>y. f y \<le> f x) ys"

definition xor_dist :: "node_id \<Rightarrow> node_id \<Rightarrow> nat" where
  "xor_dist t a = unat (a XOR t)"

definition xor_cmp :: "node_id \<Rightarrow> node_id \<Rightarrow> node_id \<Rightarrow> int" where
  "xor_cmp t a b = sgn (int (xor_dist t a) - int (xor_dist t b))"

section \<open>The wrapper\<close>

named_theorems node_simps \<open>getters of wrapped nodes\<close>

lemma SetTimestamp_sel [simp]:
  "e_ID (SetTimestamp n ts) = e_ID n" "e_IP (SetTimestamp n ts) = e_IP n"
  "livenessChecks (SetTimestamp n ts) = livenessChecks n"
  by (simp_all add: SetTimestamp_def)

lemma Bump_sel [simp]: "e_ID (Bump n) = e_ID n" "e_IP (Bump n) = e_IP n" "addedAt (Bump n) = addedAt n"
  by (simp_all add: Bump_def)

lemma BumpX_sel [simp]: "e_ID (BumpX n i) = e_ID n" "e_IP (BumpX n i) = e_IP n"
  by (simp_all add: BumpX_def)

lemma WrapNode_sel [simp]:
  "e_ID (WrapNode e) = e_ID e" "e_IP (WrapNode e) = e_IP e" "e_Seq (WrapNode e) = e_Seq e"
  "livenessChecks (WrapNode e) = 0"
  by (simp_all add: WrapNode_def enode.defs)

lemma Unwrap_sel [simp]: "e_ID (Unwrap n) = e_ID n" "e_IP (Unwrap n) = e_IP n"
  by (simp_all add: Unwrap_def enode.defs)

lemma Wrap_eq_WrapNode: "Wrap (WrapNode e0) e = WrapNode e"
  by (simp add: Wrap_def WrapNode_def enode.defs)

lemma WrapNodes_map: "WrapNodes es = map WrapNode es"
  by (induction es) (simp_all add: Wrap_eq_WrapNode)

lemma UnwrapNodes_map: "UnwrapNodes ns = map Unwrap ns"
  by (induction ns) simp_all

lemma Unwrap_WrapNode: "Unwrap (WrapNode e) = e"
  by (simp add: Unwrap_def WrapNode_def enode.defs)

section \<open>Insertion by distance\<close>

lemma Push_Target [simp]: "Target (Push D h n m) = Target h"
  by (simp add: Push_def Let_def)

lemma PushAll_Target [simp]: "Target (PushAll D h ns m) = Target h"
  by (induction ns arbitrary: h) simp_all

lemma PushAll_append: "PushAll D h (xs @ ys) m = PushAll D (PushAll D h xs m) ys m"
  by (induction xs arbitrary: h) simp_all

lemma length_takeWhile_dropWhile: "length (takeWhile P ys) + length (dropWhile P ys) = length ys"
  by (metis length_append takeWhile_dropWhile_id)

lemma length_ins_after [simp]: "length (ins_after f x ys) = Suc (length ys)"
  by (simp add: ins_after_def length_takeWhile_dropWhile)

lemma mset_ins_after [simp]: "mset (ins_after f x ys) = add_mset x (mset ys)"
  by (simp add: ins_after_def) (metis mset_append takeWhile_dropWhile_id)

lemma set_ins_after [simp]: "set (ins_after f x ys) = insert x (set ys)"
  by (metis mset_ins_after set_mset_add_mset_insert set_mset_mset)

lemma sorted_ins_after:
  assumes "sorted (map f ys)"
  shows "sorted (map f (ins_after f x ys))"
proof -
  let ?P = "\<lambda>y. f y \<le> f x"
  have "sorted (map f (takeWhile ?P ys @ dropWhile ?P ys))" using assms by simp
  then have s: "sorted (map f (takeWhile ?P ys))" "sorted (map f (dropWhile ?P ys))"
    "\<forall>a \<in> set (takeWhile ?P ys). \<forall>b \<in> set (dropWhile ?P ys). f a \<le> f b"
    unfolding map_append sorted_append set_map by blast+
  have hd: "f x \<le> f b" if "b \<in> set (dropWhile ?P ys)" for b
  proof (cases "dropWhile ?P ys")
    case Nil
    with that show ?thesis by simp
  next
    case (Cons c cs)
    then have "\<not> ?P c" by (metis dropWhile_eq_Cons_conv)
    moreover have "f c \<le> f b" using s(2) that Cons by auto
    ultimately show ?thesis by simp
  qed
  show ?thesis
    using s hd by (auto simp: ins_after_def sorted_append dest: set_takeWhileD)
qed

lemma ins_after_Nil [simp]: "ins_after f x [] = [x]"
  by (simp add: ins_after_def)

lemma ins_after_filter:
  assumes "sorted (map f ys)"
  shows "[y \<leftarrow> ins_after f x ys. f y = k] = [y \<leftarrow> ys @ [x]. f y = k]"
proof -
  let ?P = "\<lambda>y. f y \<le> f x"
  have "[y \<leftarrow> dropWhile ?P ys. f y = f x] = []"
  proof (cases "dropWhile ?P ys")
    case (Cons c cs)
    then have c: "f x < f c" by (metis dropWhile_eq_Cons_conv not_le)
    have "sorted (map f (dropWhile ?P ys))"
      using assms by (metis map_append sorted_append takeWhile_dropWhile_id)
    with c Cons show ?thesis by (auto simp: filter_empty_conv)
  next
    case Nil
    then show ?thesis by (simp only: filter.simps)
  qed
  moreover have "[y \<leftarrow> ys. f y = k] = [y \<leftarrow> takeWhile ?P ys. f y = k] @ [y \<leftarrow> dropWhile ?P ys. f y = k]"
    by (metis filter_append takeWhile_dropWhile_id)
  ultimately show ?thesis by (auto simp: ins_after_def)
qed

lemma sort_key_snoc: "sort_key f (xs @ [x]) = ins_after f x (sort_key f xs)"
proof (rule properties_for_sort_key)
  show "mset (ins_after f x (sort_key f xs)) = mset (xs @ [x])" by simp
  show "[y \<leftarrow> ins_after f x (sort_key f xs). f k = f y] = [y \<leftarrow> xs @ [x]. f k = f y]" for k
    using ins_after_filter[of f "sort_key f xs" "f k" x]
    by (simp add: eq_commute[of "f k"] sort_key_stable)
  show "sorted (map f (ins_after f x (sort_key f xs)))" by (simp add: sorted_ins_after)
qed

lemma take_ins_after_take:
  assumes "sorted (map f ys)"
  shows "take m (ins_after f x (take m ys)) = take m (ins_after f x ys)"
proof -
  let ?P = "\<lambda>y. f y \<le> f x"
  define a where "a = takeWhile ?P ys"
  define b where "b = dropWhile ?P ys"
  have ys: "ys = a @ b" and a: "\<forall>y \<in> set a. ?P y" and b: "b \<noteq> [] \<Longrightarrow> \<not> ?P (hd b)"
    unfolding a_def b_def by (simp, meson set_takeWhileD, rule hd_dropWhile)
  have ins: "ins_after f x (take m ys) = take m a @ x # take (m - length a) b"
  proof -
    have "takeWhile ?P (take m a @ take (m - length a) b) = take m a"
      and "dropWhile ?P (take m a @ take (m - length a) b) = take (m - length a) b"
      using a b by (cases b; cases "m - length a"; force dest: in_set_takeD simp: takeWhile_append2 dropWhile_append2)+
    then show ?thesis by (simp add: ins_after_def ys)
  qed
  show ?thesis
    unfolding ins using a_def b_def by (auto simp: ins_after_def take_Cons' min_def)
qed

text \<open>The slice surgery of \<open>Push\<close> is an insertion at the index found, cut at the bound.\<close>

lemma slide_in:
  assumes "int (length es) \<le> m" and "ix \<le> length es"
  shows "(if ix < length es
          then (go_copy_from (Suc ix) (if int (length es) < m then es @ [n] else es)
                  (drop ix (if int (length es) < m then es @ [n] else es)))[ix := n]
          else if int (length es) < m then es @ [n] else es)
         = take (nat m) (take ix es @ n # drop ix es)"
proof (cases "int (length es) < m")
  case True
  then have "Suc (length es) \<le> nat m" by linarith
  moreover have "(go_copy_from (Suc ix) (es @ [n]) (drop ix (es @ [n])))[ix := n]
      = take ix es @ n # drop ix es" if "ix < length es"
    using that by (subst go_copy_from_shift_update) (simp_all add: butlast_append)
  ultimately show ?thesis using True assms(2) by auto
next
  case False
  with assms(1) have m: "nat m = length es" by simp
  have "butlast (drop ix es) = take (length es - Suc ix) (drop ix es)"
    by (simp add: butlast_conv_take)
  with False m assms(2) show ?thesis
    by (auto simp: go_copy_from_shift_update take_Cons' not_less simp del: drop_butlast)
qed

section \<open>The contract of the distance comparison\<close>

locale dist_order =
  fixes D :: "node_id \<Rightarrow> node_id \<Rightarrow> node_id \<Rightarrow> int" and dist :: "node_id \<Rightarrow> node_id \<Rightarrow> nat"
  assumes DistCmp_pos: "0 < D t a b \<longleftrightarrow> dist t b < dist t a"
begin

abbreviation key :: "node_id \<Rightarrow> Node \<Rightarrow> nat" where
  "key t n \<equiv> dist t (e_ID n)"

lemma search_ix:
  assumes "sorted (map (key t) es)"
  shows "go_search (length es) (\<lambda>i. 0 < D t (e_ID (es ! i)) (e_ID n))
         = length (takeWhile (\<lambda>e. key t e \<le> key t n) es)"
proof -
  let ?f = "\<lambda>i. 0 < D t (e_ID (es ! i)) (e_ID n)"
  let ?g = "go_search (length es) ?f"
  let ?l = "length (takeWhile (\<lambda>e. key t e \<le> key t n) es)"
  have mono: "?f b" if "a \<le> b" "b < length es" "?f a" for a b
    using that assms sorted_nth_mono[of "map (key t) es" a b] by (auto simp: DistCmp_pos)
  then have "\<forall>a b. a \<le> b \<and> b < length es \<and> ?f a \<longrightarrow> ?f b" by blast
  note gs = go_search_least[OF this]
  have below: "\<not> ?f i" if "i < ?l" for i
    using that by (simp add: DistCmp_pos not_less)
      (metis (mono_tags, lifting) nth_mem set_takeWhileD takeWhile_nth)
  have at: "?f ?l" if "?l < length es"
    using nth_length_takeWhile[OF that] by (simp add: DistCmp_pos)
  have "?l \<le> length es" by (simp add: length_takeWhile_le)
  have "\<not> ?g < ?l" using gs(3) below \<open>?l \<le> length es\<close> by (meson le_refl order_less_le_trans)
  moreover have "\<not> ?l < ?g" using gs(1,2) at by (meson order_less_le_trans)
  ultimately show ?thesis by simp
qed

text \<open>\<open>Push\<close> inserts behind the nodes that are not farther and drops the farthest beyond the bound.\<close>

lemma Push_entries:
  assumes "sorted (map (key (Target h)) (nbd_entries h))" and "int (length (nbd_entries h)) \<le> m"
  shows "nbd_entries (Push D h n m) = take (nat m) (ins_after (key (Target h)) n (nbd_entries h))"
proof -
  let ?es = "nbd_entries h"
  let ?P = "\<lambda>e. key (Target h) e \<le> key (Target h) n"
  have "take (length (takeWhile ?P ?es)) ?es = takeWhile ?P ?es"
    and "drop (length (takeWhile ?P ?es)) ?es = dropWhile ?P ?es"
    by (simp_all add: takeWhile_eq_take[symmetric] dropWhile_eq_drop[symmetric])
  with slide_in[OF assms(2) length_takeWhile_le, of ?P n] show ?thesis
    unfolding Push_def Let_def search_ix[OF assms(1)] ins_after_def by (simp split: if_splits)
qed

lemma PushAll_sort_key:
  assumes "nbd_entries h = []" and "0 \<le> m"
  shows "nbd_entries (PushAll D h ns m) = take (nat m) (sort_key (key (Target h)) ns)"
proof (induction ns rule: rev_induct)
  case Nil
  with assms show ?case by simp
next
  case (snoc n ns)
  let ?k = "key (Target h)"
  let ?h = "PushAll D h ns m"
  have s: "sorted (map ?k (nbd_entries ?h))"
    unfolding snoc.IH by (simp add: sorted_wrt_take take_map[symmetric])
  have l: "int (length (nbd_entries ?h)) \<le> m" unfolding snoc.IH using assms(2) by auto
  have "nbd_entries (PushAll D h (ns @ [n]) m) = take (nat m) (ins_after ?k n (take (nat m) (sort_key ?k ns)))"
    using Push_entries[of ?h m n] s l by (simp add: PushAll_append snoc.IH)
  also have "\<dots> = take (nat m) (ins_after ?k n (sort_key ?k ns))"
    by (rule take_ins_after_take) simp
  finally show ?case by (simp add: sort_key_snoc)
qed

end

lemma xor_cmp_pos: "0 < xor_cmp t a b \<longleftrightarrow> xor_dist t b < xor_dist t a"
  by (simp add: xor_cmp_def)

interpretation xor_metric: dist_order xor_cmp xor_dist
  by unfold_locales (rule xor_cmp_pos)

end
