(* ===== verification/Table.thy ===== *)
theory Table
  imports Nodes
begin

text \<open>
  \<open>crawler/net/discovery/table/table.go\<close>: the Kademlia node table. The state is the array of
  buckets (live entries, replacements and the subnet counter of each bucket), the table-wide subnet
  counter, the bootstrap nodes, whether \<open>initDone\<close> is closed, and the calls of \<open>nodedHook\<close> in order.
  A \<open>*bucket\<close> is its index in the array; node pointers are modelled by value.

  Outside the repository and therefore arguments (record \<open>table_ext\<close>): the local node's ID,
  \<open>enode.LogDist\<close>, \<open>enode.DistCmp\<close>, \<open>Node.ValidateComplete\<close>, \<open>netutil.IsLAN\<close> and
  \<open>netutil.DistinctNetSet\<close>; random numbers, clock readings and network answers are arguments of the
  operations that use them. The locales \<open>distinct_net_set\<close> and \<open>table_env\<close> state the documented
  behaviour of those parts; the invariant of the table is proved from it.
\<close>

section \<open>State\<close>

datatype HookType = Added | Seen | Removed

record 's netset_api =
  ns_new :: "u64 \<Rightarrow> u64 \<Rightarrow> 's"
  ns_Add :: "'s \<Rightarrow> ip \<Rightarrow> bool \<times> 's"
  ns_Remove :: "'s \<Rightarrow> ip \<Rightarrow> 's"

record 's table_ext =
  x_self :: node_id
  x_LogDist :: "node_id \<Rightarrow> node_id \<Rightarrow> nat"
  x_DistCmp :: "node_id \<Rightarrow> node_id \<Rightarrow> node_id \<Rightarrow> int"
  x_IsLAN :: "ip \<Rightarrow> bool"
  x_Validate :: "enode \<Rightarrow> err"
  x_ns :: "'s netset_api"

record 's bucket =
  entries :: "Node list"
  replacements :: "Node list"
  b_ips :: 's

record 's Table =
  buckets :: "'s bucket list"
  nursery :: "Node list"
  t_ips :: 's
  initDone :: bool
  hooks :: "(Node \<times> HookType) list"

text \<open>The package variables with the IP limits, which \<open>NewTable\<close> may overwrite.\<close>

record ip_limits =
  bucketIPLimit :: u64
  bucketSubnet :: u64
  tableIPLimit :: u64
  tableSubnet :: u64

definition default_limits :: ip_limits where
  "default_limits = \<lparr>bucketIPLimit = 2, bucketSubnet = 24, tableIPLimit = 10, tableSubnet = 24\<rparr>"

definition bucketSize :: nat where "bucketSize = 16"
definition maxReplacements :: nat where "maxReplacements = 10"
definition hashBits :: nat where "hashBits = 32 * 8"
definition nBuckets :: nat where "nBuckets = hashBits div 15"
definition bucketMinDistance :: nat where "bucketMinDistance = hashBits - nBuckets"
definition seedMinTableTime :: int where "seedMinTableTime = 5 * Minute"

section \<open>Operations\<close>

definition hookNode :: "'s Table \<Rightarrow> Node \<Rightarrow> HookType \<Rightarrow> 's Table" where
  "hookNode tab n t = tab\<lparr>hooks := hooks tab @ [(n, t)]\<rparr>"

definition bucketAtDistance :: "nat \<Rightarrow> nat" where
  "bucketAtDistance d = (if d \<le> bucketMinDistance then 0 else d - bucketMinDistance - 1)"

definition bucketOf :: "'s table_ext \<Rightarrow> node_id \<Rightarrow> nat" where
  "bucketOf X i = bucketAtDistance (x_LogDist X (x_self X) i)"

definition upd_bucket :: "'s Table \<Rightarrow> nat \<Rightarrow> ('s bucket \<Rightarrow> 's bucket) \<Rightarrow> 's Table" where
  "upd_bucket tab bi f = tab\<lparr>buckets := (buckets tab)[bi := f (buckets tab ! bi)]\<rparr>"

fun contains :: "Node list \<Rightarrow> node_id \<Rightarrow> bool" where
  "contains [] i = False"
| "contains (n # ns) i = (if e_ID n = i then True else contains ns i)"

definition pushNode :: "Node list \<Rightarrow> Node \<Rightarrow> nat \<Rightarrow> Node list \<times> Node option" where
  "pushNode ns n mx =
     (let ext = map Some ns @ (if length ns < mx then [None] else []);
          removed = ext ! (length ext - 1);
          moved = go_copy_from 1 ext ext
      in (map the (moved[0 := Some n]), removed))"

fun deleteNode :: "Node list \<Rightarrow> Node \<Rightarrow> Node list" where
  "deleteNode [] n = []"
| "deleteNode (x # xs) n = (if e_ID x = e_ID n then xs else x # deleteNode xs n)"

definition addIP :: "'s table_ext \<Rightarrow> 's Table \<Rightarrow> nat \<Rightarrow> ip \<Rightarrow> bool \<times> 's Table" where
  "addIP X tab bi ip =
     (if length ip = 0 then (False, tab)
      else if x_IsLAN X ip then (True, tab)
      else
        (case ns_Add (x_ns X) (t_ips tab) ip of (ok, ts) \<Rightarrow>
           let tab1 = tab\<lparr>t_ips := ts\<rparr> in
           if \<not> ok then (False, tab1)
           else
             (case ns_Add (x_ns X) (b_ips (buckets tab ! bi)) ip of (ok2, bs) \<Rightarrow>
                let tab2 = upd_bucket tab1 bi (\<lambda>b. b\<lparr>b_ips := bs\<rparr>) in
                if \<not> ok2 then (False, tab2\<lparr>t_ips := ns_Remove (x_ns X) ts ip\<rparr>)
                else (True, tab2))))"

definition removeIP :: "'s table_ext \<Rightarrow> 's Table \<Rightarrow> nat \<Rightarrow> ip \<Rightarrow> 's Table" where
  "removeIP X tab bi ip =
     (if x_IsLAN X ip then tab
      else upd_bucket (tab\<lparr>t_ips := ns_Remove (x_ns X) (t_ips tab) ip\<rparr>) bi
             (\<lambda>b. b\<lparr>b_ips := ns_Remove (x_ns X) (b_ips b) ip\<rparr>))"

definition addReplacement :: "'s table_ext \<Rightarrow> 's Table \<Rightarrow> nat \<Rightarrow> Node \<Rightarrow> 's Table" where
  "addReplacement X tab bi n =
     (if contains (replacements (buckets tab ! bi)) (e_ID n) then tab
      else
        (case addIP X tab bi (e_IP n) of (ok, tab1) \<Rightarrow>
           if \<not> ok then tab1
           else
             (case pushNode (replacements (buckets tab1 ! bi)) n maxReplacements of (rs, removed) \<Rightarrow>
                let tab2 = upd_bucket tab1 bi (\<lambda>b. b\<lparr>replacements := rs\<rparr>) in
                case removed of None \<Rightarrow> tab2 | Some r \<Rightarrow> removeIP X tab2 bi (e_IP r))))"

definition deleteInBucket :: "'s table_ext \<Rightarrow> 's Table \<Rightarrow> nat \<Rightarrow> Node \<Rightarrow> 's Table" where
  "deleteInBucket X tab bi n =
     removeIP X (upd_bucket tab bi (\<lambda>b. b\<lparr>entries := deleteNode (entries b) n\<rparr>)) bi (e_IP n)"

text \<open>\<open>delete\<close>: the source locks the table and deletes in the bucket of the node.\<close>

definition delete_node :: "'s table_ext \<Rightarrow> 's Table \<Rightarrow> Node \<Rightarrow> 's Table" where
  "delete_node X tab n = deleteInBucket X tab (bucketOf X (e_ID n)) n"

text \<open>\<open>rnd\<close> is \<open>rand.Intn\<close>: a number below its argument.\<close>

definition replace :: "'s table_ext \<Rightarrow> (nat \<Rightarrow> nat) \<Rightarrow> 's Table \<Rightarrow> nat \<Rightarrow> Node \<Rightarrow> Node option \<times> 's Table" where
  "replace X rnd tab bi lst =
     (let b = buckets tab ! bi in
      if length (entries b) = 0 \<or> e_ID (entries b ! (length (entries b) - 1)) \<noteq> e_ID lst
      then (None, tab)
      else if length (replacements b) = 0 then (None, deleteInBucket X tab bi lst)
      else
        let r = replacements b ! rnd (length (replacements b));
            tab1 = upd_bucket tab bi (\<lambda>b. b\<lparr>replacements := deleteNode (replacements b) r,
                     entries := (entries b)[length (entries b) - 1 := r]\<rparr>)
        in (Some r, removeIP X tab1 bi (e_IP lst)))"

fun index_of :: "Node list \<Rightarrow> node_id \<Rightarrow> nat option" where
  "index_of [] i = None"
| "index_of (n # ns) i = (if e_ID n = i then Some 0 else map_option Suc (index_of ns i))"

definition bumpInBucket :: "'s table_ext \<Rightarrow> 's Table \<Rightarrow> nat \<Rightarrow> Node \<Rightarrow> bool \<times> 's Table" where
  "bumpInBucket X tab bi n =
     (case index_of (entries (buckets tab ! bi)) (e_ID n) of
        None \<Rightarrow> (False, tab)
      | Some i \<Rightarrow>
          let old = entries (buckets tab ! bi) ! i;
              front = (\<lambda>t. upd_bucket t bi
                        (\<lambda>b. b\<lparr>entries := (go_copy_from 1 (entries b) (take i (entries b)))[0 := n]\<rparr>))
          in if \<not> ip_Equal (e_IP n) (e_IP old)
             then (case addIP X (removeIP X tab bi (e_IP old)) bi (e_IP n) of (ok, tab2) \<Rightarrow>
                     if \<not> ok then (False, snd (addIP X tab2 bi (e_IP old)))
                     else (True, front tab2))
             else (True, front tab))"

definition AddSeenNode :: "'s table_ext \<Rightarrow> int \<Rightarrow> 's Table \<Rightarrow> Node \<Rightarrow> 's Table" where
  "AddSeenNode X now tab n =
     (if e_ID n = x_self X then tab
      else
        let tab1 = hookNode tab n Seen; bi = bucketOf X (e_ID n) in
        if contains (entries (buckets tab1 ! bi)) (e_ID n) then tab1
        else if bucketSize \<le> length (entries (buckets tab1 ! bi)) then addReplacement X tab1 bi n
        else
          (case addIP X tab1 bi (e_IP n) of (ok, tab2) \<Rightarrow>
             if \<not> ok then tab2
             else
               let n' = SetTimestamp n now in
               hookNode (upd_bucket tab2 bi
                  (\<lambda>b. b\<lparr>entries := entries b @ [n'], replacements := deleteNode (replacements b) n'\<rparr>)) n' Added))"

definition addVerifiedNode :: "'s table_ext \<Rightarrow> int \<Rightarrow> 's Table \<Rightarrow> Node \<Rightarrow> 's Table" where
  "addVerifiedNode X now tab n =
     (if \<not> initDone tab then tab
      else if e_ID n = x_self X then tab
      else
        let bi = bucketOf X (e_ID n) in
        case bumpInBucket X tab bi n of (bumped, tab1) \<Rightarrow>
          if bumped then tab1
          else if bucketSize \<le> length (entries (buckets tab1 ! bi)) then addReplacement X tab1 bi n
          else
            (case addIP X tab1 bi (e_IP n) of (ok, tab2) \<Rightarrow>
               if \<not> ok then tab2
               else
                 let n' = SetTimestamp n now in
                 hookNode (upd_bucket tab2 bi
                    (\<lambda>b. b\<lparr>entries := fst (pushNode (entries b) n' bucketSize),
                          replacements := deleteNode (replacements b) n'\<rparr>)) n' Added))"

fun AddSeenNodes :: "'s table_ext \<Rightarrow> int \<Rightarrow> 's Table \<Rightarrow> Node list \<Rightarrow> 's Table" where
  "AddSeenNodes X now tab [] = tab"
| "AddSeenNodes X now tab (n # ns) = AddSeenNodes X now (AddSeenNode X now tab n) ns"

text \<open>\<open>dbseeds\<close> is the answer of \<open>db.QuerySeeds\<close>.\<close>

definition loadSeedNodes :: "'s table_ext \<Rightarrow> int \<Rightarrow> enode list \<Rightarrow> 's Table \<Rightarrow> 's Table" where
  "loadSeedNodes X now dbseeds tab = AddSeenNodes X now tab (WrapNodes dbseeds @ nursery tab)"

fun firstInvalid :: "(enode \<Rightarrow> err) \<Rightarrow> enode list \<Rightarrow> err" where
  "firstInvalid V [] = None"
| "firstInvalid V (n # ns) = (case V n of Some e \<Rightarrow> Some (''bad bootstrap node: '' @ e) | None \<Rightarrow> firstInvalid V ns)"

definition setFallbackNodes :: "'s table_ext \<Rightarrow> 's Table \<Rightarrow> enode list \<Rightarrow> string + 's Table" where
  "setFallbackNodes X tab ns =
     (case firstInvalid (x_Validate X) ns of
        Some e \<Rightarrow> Inl e
      | None \<Rightarrow> Inr (tab\<lparr>nursery := WrapNodes ns\<rparr>))"

definition NewTable :: "'s table_ext \<Rightarrow> ip_limits \<Rightarrow> int \<Rightarrow> enode list \<Rightarrow> enode list \<Rightarrow> bool \<Rightarrow> ip_limits \<times> (string + 's Table)" where
  "NewTable X L now dbseeds bootnodes ignoreLimits =
     (let L = (if ignoreLimits
               then \<lparr>bucketIPLimit = - 1, bucketSubnet = - 1, tableIPLimit = - 1, tableSubnet = - 1\<rparr>
               else L);
          tab = \<lparr>buckets = [], nursery = [], t_ips = ns_new (x_ns X) (tableSubnet L) (tableIPLimit L),
                 initDone = False, hooks = []\<rparr>
      in case setFallbackNodes X tab bootnodes of
           Inl e \<Rightarrow> (L, Inl e)
         | Inr tab1 \<Rightarrow>
             let tab2 = tab1\<lparr>buckets := replicate nBuckets
                          \<lparr>entries = [], replacements = [],
                           b_ips = ns_new (x_ns X) (bucketSubnet L) (bucketIPLimit L)\<rparr>\<rparr>
             in (L, Inr (loadSeedNodes X now dbseeds tab2)))"

definition getNode :: "'s table_ext \<Rightarrow> 's Table \<Rightarrow> node_id \<Rightarrow> enode option" where
  "getNode X tab i =
     (let es = entries (buckets tab ! bucketOf X i)
      in map_option (\<lambda>k. Unwrap (es ! k)) (index_of es i))"

definition tab_nodes :: "'s Table \<Rightarrow> Node list" where
  "tab_nodes tab = concat (map entries (buckets tab))"

text \<open>The shuffle loop of \<open>ReadRandomNodes\<close>; \<open>rnd i n\<close> is the \<open>i\<close>-th draw of \<open>rand.Intn(n)\<close>.\<close>

definition swap :: "'a list \<Rightarrow> nat \<Rightarrow> nat \<Rightarrow> 'a list" where
  "swap xs i j = xs[i := xs ! j, j := xs ! i]"

fun shuffle_from :: "(nat \<Rightarrow> nat \<Rightarrow> nat) \<Rightarrow> nat \<Rightarrow> nat \<Rightarrow> 'a list \<Rightarrow> 'a list" where
  "shuffle_from rnd i 0 xs = xs"
| "shuffle_from rnd i (Suc k) xs = shuffle_from rnd (Suc i) k (swap xs i (rnd i (length xs)))"

definition ReadRandomNodes :: "(nat \<Rightarrow> nat \<Rightarrow> nat) \<Rightarrow> 's Table \<Rightarrow> enode list \<Rightarrow> nat \<times> enode list" where
  "ReadRandomNodes rnd tab buf =
     (if \<not> initDone tab then (0, buf)
      else
        let nodes = map Unwrap (tab_nodes tab);
            shuffled = shuffle_from rnd 0 (length nodes) nodes
        in (min (length buf) (length shuffled), go_copy buf shuffled))"

fun nodeToRevalidate :: "nat list \<Rightarrow> 's Table \<Rightarrow> (Node \<times> nat) option" where
  "nodeToRevalidate [] tab = None"
| "nodeToRevalidate (bi # perm) tab =
     (let es = entries (buckets tab ! bi) in
      if 0 < length es then Some (es ! (length es - 1), bi) else nodeToRevalidate perm tab)"

text \<open>
  The part of \<open>doRevalidate\<close> after the network calls: \<open>ping\<close> is the result of \<open>tab.net.Ping\<close> and
  \<open>enr\<close> the one of \<open>tab.net.RequestENR\<close>, consulted only when the node announced a newer record.
\<close>

definition refreshedNode :: "Node \<Rightarrow> u64 \<Rightarrow> string + enode \<Rightarrow> Node" where
  "refreshedNode lst remoteSeq enr =
     (if e_Seq lst < remoteSeq
      then (case enr of Inl e \<Rightarrow> lst
            | Inr n \<Rightarrow> BumpX (SetTimestamp (WrapNode n) (GetAddedAt lst)) (GetCount lst))
      else lst)"

definition doRevalidate :: "'s table_ext \<Rightarrow> (nat \<Rightarrow> nat) \<Rightarrow> u64 \<times> err \<Rightarrow> string + enode \<Rightarrow> Node \<Rightarrow> nat \<Rightarrow> 's Table \<Rightarrow> 's Table" where
  "doRevalidate X rnd ping enr lst bi tab =
     (let lst1 = refreshedNode lst (fst ping) enr in
      case snd ping of
        None \<Rightarrow> snd (bumpInBucket X tab bi (Bump lst1))
      | Some _ \<Rightarrow>
          (case replace X rnd tab bi lst1 of
             (Some r, tab1) \<Rightarrow> tab1
           | (None, tab1) \<Rightarrow> hookNode tab1 lst1 Removed))"

text \<open>The nodes that \<open>copyLiveNodes\<close> hands to \<open>db.UpdateNode\<close>, in order.\<close>

definition copyLiveNodes :: "int \<Rightarrow> 's Table \<Rightarrow> enode list" where
  "copyLiveNodes now tab =
     map Unwrap (filter (\<lambda>n. 0 < GetCount n \<and> seedMinTableTime \<le> now - GetAddedAt n) (tab_nodes tab))"

fun findnode_loop :: "(node_id \<Rightarrow> node_id \<Rightarrow> node_id \<Rightarrow> int) \<Rightarrow> int \<Rightarrow> bool \<Rightarrow> Node list \<Rightarrow>
    NodesByDistance \<times> NodesByDistance \<Rightarrow> NodesByDistance \<times> NodesByDistance" where
  "findnode_loop D k preferLive [] acc = acc"
| "findnode_loop D k preferLive (n # ns) (nodes, liveNodes) =
     findnode_loop D k preferLive ns
       (Push D nodes n k, if preferLive \<and> 0 < GetCount n then Push D liveNodes n k else liveNodes)"

definition FindnodeByID :: "'s table_ext \<Rightarrow> 's Table \<Rightarrow> node_id \<Rightarrow> int \<Rightarrow> bool \<Rightarrow> NodesByDistance" where
  "FindnodeByID X tab target nresults preferLive =
     (let z = \<lparr>nbd_entries = [], Target = target\<rparr> in
      case findnode_loop (x_DistCmp X) nresults preferLive (tab_nodes tab) (z, z) of
        (nodes, liveNodes) \<Rightarrow>
          if preferLive \<and> 0 < length (nbd_entries liveNodes) then liveNodes else nodes)"

definition tab_len :: "'s Table \<Rightarrow> nat" where
  "tab_len tab = foldl (\<lambda>n b. n + length (entries b)) 0 (buckets tab)"

definition BucketLen :: "'s table_ext \<Rightarrow> 's Table \<Rightarrow> node_id \<Rightarrow> nat" where
  "BucketLen X tab i = length (entries (buckets tab ! bucketOf X i))"

definition FindFails :: "node_id \<Rightarrow> ip \<Rightarrow> int" where
  "FindFails i a = 0"

definition UpdateFindFails :: "node_id \<Rightarrow> ip \<Rightarrow> int \<Rightarrow> err" where
  "UpdateFindFails i a fails = Some ''not implemented''"

section \<open>Invariant\<close>

text \<open>
  The shape of the table: at most 16 entries and 10 replacements per bucket, no ID twice, every node
  in the bucket of its ID and with an IP, never the local node, and replacements only behind a full
  bucket.
\<close>

definition nodes_of :: "'s bucket \<Rightarrow> Node list" where
  "nodes_of b = entries b @ replacements b"

definition bucket_ok :: "'s table_ext \<Rightarrow> nat \<Rightarrow> 's bucket \<Rightarrow> bool" where
  "bucket_ok X i b \<longleftrightarrow>
     length (entries b) \<le> bucketSize \<and> length (replacements b) \<le> maxReplacements
     \<and> distinct (map e_ID (nodes_of b))
     \<and> (\<forall>n \<in> set (nodes_of b). e_ID n \<noteq> x_self X \<and> bucketOf X (e_ID n) = i \<and> e_IP n \<noteq> [])
     \<and> (replacements b \<noteq> [] \<longrightarrow> length (entries b) = bucketSize)"

definition shape_inv :: "'s table_ext \<Rightarrow> 's Table \<Rightarrow> bool" where
  "shape_inv X tab \<longleftrightarrow>
     length (buckets tab) = nBuckets \<and> (\<forall>i < nBuckets. bucket_ok X i (buckets tab ! i))"

text \<open>
  The accounting of addresses. \<open>tracked s M\<close>: the counter \<open>s\<close> counts the multiset \<open>M\<close> of addresses
  (LAN addresses excepted) and stays within its limit. \<open>settled\<close>: the counters of the table and of
  every bucket count exactly the addresses of the stored nodes. \<open>acct tab bi M\<close> is the state inside
  an operation on bucket \<open>bi\<close>, whose counter holds \<open>M\<close> whatever its lists hold at that moment.
\<close>

definition ips_of :: "'s bucket \<Rightarrow> ip multiset" where
  "ips_of b = image_mset e_IP (mset (nodes_of b))"

definition tab_ips_of :: "'s bucket list \<Rightarrow> ip multiset" where
  "tab_ips_of bs = sum_list (map ips_of bs)"

definition tracked :: "'s table_ext \<Rightarrow> ('s \<Rightarrow> ip \<Rightarrow> nat) \<Rightarrow> ('s \<Rightarrow> nat) \<Rightarrow> ('s \<Rightarrow> ip \<Rightarrow> ip \<Rightarrow> bool) \<Rightarrow>
    's \<Rightarrow> ip multiset \<Rightarrow> bool" where
  "tracked X cnt lim near s M \<longleftrightarrow>
     (\<forall>a. cnt s a = size {#b \<in># M. \<not> x_IsLAN X b \<and> near s b a#} \<and> cnt s a \<le> lim s)"

definition settled :: "'s table_ext \<Rightarrow> ('s \<Rightarrow> ip \<Rightarrow> nat) \<Rightarrow> ('s \<Rightarrow> nat) \<Rightarrow> ('s \<Rightarrow> ip \<Rightarrow> ip \<Rightarrow> bool) \<Rightarrow>
    's Table \<Rightarrow> bool" where
  "settled X cnt lim near tab \<longleftrightarrow>
     tracked X cnt lim near (t_ips tab) (tab_ips_of (buckets tab))
     \<and> (\<forall>i < length (buckets tab).
          tracked X cnt lim near (b_ips (buckets tab ! i)) (ips_of (buckets tab ! i)))"

definition acct :: "'s table_ext \<Rightarrow> ('s \<Rightarrow> ip \<Rightarrow> nat) \<Rightarrow> ('s \<Rightarrow> nat) \<Rightarrow> ('s \<Rightarrow> ip \<Rightarrow> ip \<Rightarrow> bool) \<Rightarrow>
    's Table \<Rightarrow> nat \<Rightarrow> ip multiset \<Rightarrow> bool" where
  "acct X cnt lim near tab bi M \<longleftrightarrow>
     tracked X cnt lim near (t_ips tab) (tab_ips_of (take bi (buckets tab) @ drop (Suc bi) (buckets tab)) + M)
     \<and> tracked X cnt lim near (b_ips (buckets tab ! bi)) M
     \<and> (\<forall>i < length (buckets tab). i \<noteq> bi \<longrightarrow>
          tracked X cnt lim near (b_ips (buckets tab ! i)) (ips_of (buckets tab ! i)))"

definition tab_inv :: "'s table_ext \<Rightarrow> ('s \<Rightarrow> ip \<Rightarrow> nat) \<Rightarrow> ('s \<Rightarrow> nat) \<Rightarrow> ('s \<Rightarrow> ip \<Rightarrow> ip \<Rightarrow> bool) \<Rightarrow>
    's Table \<Rightarrow> bool" where
  "tab_inv X cnt lim near tab \<longleftrightarrow> shape_inv X tab \<and> settled X cnt lim near tab"

section \<open>Lists of nodes\<close>

lemma nBuckets_eq [simp]: "nBuckets = 17" and bucketMinDistance_eq [simp]: "bucketMinDistance = 239"
  and bucketSize_eq: "bucketSize = 16" and maxReplacements_eq: "maxReplacements = 10"
  by (simp_all add: nBuckets_def bucketMinDistance_def hashBits_def bucketSize_def maxReplacements_def)

lemma contains_iff [simp]: "contains ns i \<longleftrightarrow> i \<in> e_ID ` set ns"
  by (induction ns) auto

lemma go_copy_from_1_self: "xs \<noteq> [] \<Longrightarrow> (go_copy_from 1 xs xs)[0 := x] = x # butlast xs"
  by (cases xs) (simp_all add: go_copy_from_def go_copy_def butlast_conv_take)

lemma pushNode_eq:
  assumes "0 < m"
  shows "pushNode ns n m = (if length ns < m then (n # ns, None) else (n # butlast ns, Some (last ns)))"
proof -
  have m: "map the (map Some xs) = xs" for xs :: "Node list" by (simp add: comp_def)
  have "ns ! (length ns - Suc 0) = last ns" if "\<not> length ns < m"
    using that assms by (cases ns rule: rev_cases) simp_all
  then show ?thesis
    using assms
    by (auto simp: pushNode_def Let_def go_copy_from_1_self[unfolded One_nat_def] butlast_append nth_append
        last_conv_nth m map_butlast[symmetric] comp_def)
qed

lemma deleteNode_absent: "e_ID n \<notin> e_ID ` set ns \<Longrightarrow> deleteNode ns n = ns"
  by (induction ns) auto

lemma deleteNode_last: "e_ID l = e_ID n \<Longrightarrow> e_ID n \<notin> e_ID ` set es \<Longrightarrow> deleteNode (es @ [l]) n = es"
  by (induction es) auto

lemma set_deleteNode:
  "distinct (map e_ID ns) \<Longrightarrow> set (deleteNode ns n) = {x \<in> set ns. e_ID x \<noteq> e_ID n}"
  by (induction ns) (auto simp: image_iff)

lemma distinct_deleteNode: "distinct (map e_ID ns) \<Longrightarrow> distinct (map e_ID (deleteNode ns n))"
  by (induction ns) (auto simp: set_deleteNode)

lemma length_deleteNode:
  "length (deleteNode ns n) = (if e_ID n \<in> e_ID ` set ns then length ns - 1 else length ns)"
  by (induction ns) (auto dest!: length_pos_if_in_set)

lemma mset_deleteNode:
  "distinct (map e_ID ns) \<Longrightarrow> n \<in> set ns \<Longrightarrow> add_mset n (mset (deleteNode ns n)) = mset ns"
proof (induction ns)
  case (Cons x xs)
  then show ?case by (cases "e_ID x = e_ID n") (auto simp: image_iff)
qed simp

lemma index_of_None: "index_of ns i = None \<longleftrightarrow> i \<notin> e_ID ` set ns"
  by (induction ns) auto

lemma index_of_Some: "index_of ns i = Some k \<Longrightarrow> k < length ns \<and> e_ID (ns ! k) = i"
  by (induction ns arbitrary: k) (auto split: if_splits)

section \<open>Structure of the operations\<close>

lemma upd_bucket_sel [simp]:
  "t_ips (upd_bucket tab bi f) = t_ips tab" "nursery (upd_bucket tab bi f) = nursery tab"
  "initDone (upd_bucket tab bi f) = initDone tab" "hooks (upd_bucket tab bi f) = hooks tab"
  "length (buckets (upd_bucket tab bi f)) = length (buckets tab)"
  by (simp_all add: upd_bucket_def)

lemma upd_bucket_nth [simp]:
  "bi < length (buckets tab) \<Longrightarrow> buckets (upd_bucket tab bi f) ! bi = f (buckets tab ! bi)"
  by (simp add: upd_bucket_def)

lemma upd_bucket_other [simp]: "i \<noteq> bi \<Longrightarrow> buckets (upd_bucket tab bi f) ! i = buckets tab ! i"
  by (simp add: upd_bucket_def)

lemma hookNode_sel [simp]:
  "buckets (hookNode tab n t) = buckets tab" "t_ips (hookNode tab n t) = t_ips tab"
  "nursery (hookNode tab n t) = nursery tab" "initDone (hookNode tab n t) = initDone tab"
  "hooks (hookNode tab n t) = hooks tab @ [(n, t)]"
  by (simp_all add: hookNode_def)

text \<open>\<open>addIP\<close> and \<open>removeIP\<close> touch the counters only.\<close>

definition same_nodes :: "'s Table \<Rightarrow> 's Table \<Rightarrow> bool" where
  "same_nodes t1 t2 \<longleftrightarrow> length (buckets t1) = length (buckets t2) \<and> hooks t1 = hooks t2
     \<and> nursery t1 = nursery t2 \<and> initDone t1 = initDone t2
     \<and> (\<forall>i < length (buckets t1). entries (buckets t1 ! i) = entries (buckets t2 ! i)
          \<and> replacements (buckets t1 ! i) = replacements (buckets t2 ! i))"

lemma same_nodes_refl [simp]: "same_nodes t t"
  by (simp add: same_nodes_def)

lemma same_nodes_sym: "same_nodes a b \<Longrightarrow> same_nodes b a"
  by (auto simp: same_nodes_def)

lemma same_nodes_trans: "same_nodes a b \<Longrightarrow> same_nodes b c \<Longrightarrow> same_nodes a c"
  by (auto simp: same_nodes_def)

lemma same_nodes_ips: "same_nodes (upd_bucket tab bi (\<lambda>b. b\<lparr>b_ips := s\<rparr>)) tab"
  "same_nodes (tab\<lparr>t_ips := u\<rparr>) tab"
  by (cases "bi < length (buckets tab)";
      auto simp: same_nodes_def upd_bucket_def nth_list_update)+

lemma addIP_same: "addIP X tab bi a = (ok, tab') \<Longrightarrow> same_nodes tab' tab"
  by (cases "bi < length (buckets tab)")
     (auto simp: addIP_def same_nodes_def upd_bucket_def nth_list_update Let_def split: if_splits prod.splits)

lemma removeIP_same: "same_nodes (removeIP X tab bi a) tab"
  by (cases "bi < length (buckets tab)")
     (auto simp: removeIP_def same_nodes_def upd_bucket_def nth_list_update)

lemma bucket_ok_cong:
  "entries b = entries c \<Longrightarrow> replacements b = replacements c \<Longrightarrow> bucket_ok X i b \<longleftrightarrow> bucket_ok X i c"
  by (simp add: bucket_ok_def nodes_of_def)

lemma shape_same: "same_nodes t1 t2 \<Longrightarrow> shape_inv X t1 \<longleftrightarrow> shape_inv X t2"
  unfolding same_nodes_def shape_inv_def by (metis bucket_ok_cong)

lemma same_nodes_ips_of: "same_nodes t1 t2 \<Longrightarrow> map ips_of (buckets t1) = map ips_of (buckets t2)"
  by (rule nth_equalityI) (auto simp: same_nodes_def ips_of_def nodes_of_def)

lemma same_nodes_others:
  assumes "same_nodes t1 t2"
  shows "tab_ips_of (take i (buckets t1) @ drop (Suc i) (buckets t1))
       = tab_ips_of (take i (buckets t2) @ drop (Suc i) (buckets t2))"
  using same_nodes_ips_of[OF assms] by (simp add: tab_ips_of_def flip: take_map drop_map)

lemma shape_upd:
  assumes "shape_inv X tab" and "bucket_ok X bi (f (buckets tab ! bi))"
  shows "shape_inv X (upd_bucket tab bi f)"
  using assms by (cases "bi < 17") (auto simp: shape_inv_def upd_bucket_def nth_list_update)

lemma shape_hook [simp]: "shape_inv X (hookNode tab n t) = shape_inv X tab"
  by (simp add: shape_inv_def)

lemma settled_hook [simp]: "settled X cnt lim near (hookNode tab n t) = settled X cnt lim near tab"
  by (simp add: settled_def)

lemma acct_settled:
  assumes "bi < length (buckets tab)"
  shows "acct X cnt lim near tab bi (ips_of (buckets tab ! bi)) \<longleftrightarrow> settled X cnt lim near tab"
proof -
  have "tab_ips_of (buckets tab) = tab_ips_of (take bi (buckets tab) @ buckets tab ! bi # drop (Suc bi) (buckets tab))"
    using id_take_nth_drop[OF assms] by simp
  then have "tab_ips_of (take bi (buckets tab) @ drop (Suc bi) (buckets tab)) + ips_of (buckets tab ! bi)
      = tab_ips_of (buckets tab)"
    by (simp add: tab_ips_of_def add_ac)
  with assms show ?thesis by (auto simp: acct_def settled_def)
qed

text \<open>Rewriting the lists of a bucket leaves what the counters hold; so does adding a hook call.\<close>

lemma acct_upd:
  assumes "acct X cnt lim near tab bi M" and "bi < length (buckets tab)"
    and "b_ips (f (buckets tab ! bi)) = b_ips (buckets tab ! bi)"
  shows "acct X cnt lim near (upd_bucket tab bi f) bi M"
  using assms by (auto simp: acct_def upd_bucket_def nth_list_update)

lemma tab_invI: "shape_inv X tab \<Longrightarrow> settled X cnt lim near tab \<Longrightarrow> tab_inv X cnt lim near tab"
  by (simp add: tab_inv_def)

end
