(* ===== verification/Table_Inv.thy ===== *)
theory Table_Inv
  imports Table
begin

text \<open>
  The interfaces the node table relies on and the preservation of its invariant. \<open>distinct_net_set\<close>
  is the documented behaviour of \<open>netutil.DistinctNetSet\<close> ("tracks IPs, ensuring that at most N of
  them fall into the same network range") through a counting view; \<open>table_env\<close> adds what the table
  needs of \<open>enode.LogDist\<close> (at most the 256 bits of an ID) and of \<open>netutil.IsLAN\<close> (the same answer
  for equal addresses). Each operation is shown to keep the shape of the table and its address
  accounting. \<open>cnt_set\<close> is an executable instance of the interface.
\<close>

section \<open>Interfaces\<close>

locale distinct_net_set =
  fixes api :: "'s netset_api" and cnt :: "'s \<Rightarrow> ip \<Rightarrow> nat" and lim :: "'s \<Rightarrow> nat"
    and near :: "'s \<Rightarrow> ip \<Rightarrow> ip \<Rightarrow> bool"
  assumes cnt_new: "cnt (ns_new api sn l) a = 0"
    and lim_new: "lim (ns_new api sn l) = unat l"
    and near_refl: "near s a a"
    and near_sym: "near s a b \<Longrightarrow> near s b a"
    and near_trans: "near s a b \<Longrightarrow> near s b c \<Longrightarrow> near s a c"
    and near_Equal: "ip_Equal a b \<Longrightarrow> near s a b"
    and add_full: "lim s \<le> cnt s a \<Longrightarrow> ns_Add api s a = (False, s)"
    and add_room: "cnt s a < lim s \<Longrightarrow> fst (ns_Add api s a)"
    and add_cnt: "cnt s a < lim s \<Longrightarrow> cnt (snd (ns_Add api s a)) b = cnt s b + (if near s a b then 1 else 0)"
    and add_lim: "lim (snd (ns_Add api s a)) = lim s"
    and add_near: "near (snd (ns_Add api s a)) = near s"
    and remove_cnt: "cnt (ns_Remove api s a) b = cnt s b - (if near s a b then 1 else 0)"
    and remove_lim: "lim (ns_Remove api s a) = lim s"
    and remove_near: "near (ns_Remove api s a) = near s"

locale table_env = distinct_net_set "x_ns X" cnt lim near
  for X :: "'s table_ext" and cnt lim near +
  assumes LogDist_le: "x_LogDist X i j \<le> 256"
    and IsLAN_Equal: "ip_Equal a b \<Longrightarrow> x_IsLAN X a = x_IsLAN X b"
begin

abbreviation trk :: "'s \<Rightarrow> ip multiset \<Rightarrow> bool" where "trk \<equiv> tracked X cnt lim near"
abbreviation acc :: "'s Table \<Rightarrow> nat \<Rightarrow> ip multiset \<Rightarrow> bool" where "acc \<equiv> acct X cnt lim near"
abbreviation stl :: "'s Table \<Rightarrow> bool" where "stl \<equiv> settled X cnt lim near"

lemma bucketOf_lt: "bucketOf X i < 17"
  using LogDist_le[of "x_self X" i] by (auto simp: bucketOf_def bucketAtDistance_def)

section \<open>Counters\<close>

lemma trk_le: "trk s M \<Longrightarrow> cnt s a \<le> lim s"
  unfolding tracked_def by blast

lemma trk_eq: "trk s M \<Longrightarrow> cnt s a = size {#b \<in># M. \<not> x_IsLAN X b \<and> near s b a#}"
  unfolding tracked_def by blast

lemma trkI:
  "(\<And>a. cnt s a = size {#b \<in># M. \<not> x_IsLAN X b \<and> near s b a#}) \<Longrightarrow> (\<And>a. cnt s a \<le> lim s) \<Longrightarrow> trk s M"
  unfolding tracked_def by blast

lemma near_class: "near s a b \<Longrightarrow> near s c a = near s c b"
  using near_sym near_trans by blast

lemma trk_near: "trk s M \<Longrightarrow> near s a b \<Longrightarrow> cnt s a = cnt s b"
  by (simp add: trk_eq near_class)

lemma trk_add:
  assumes "trk s M" "ns_Add (x_ns X) s a = (True, s')" "\<not> x_IsLAN X a"
  shows "trk s' (add_mset a M)"
proof -
  have room: "cnt s a < lim s" using assms(2) add_full[of s a] by (cases "cnt s a < lim s") auto
  have s': "s' = snd (ns_Add (x_ns X) s a)" using assms(2) by simp
  show ?thesis
  proof (rule trkI)
    show "cnt s' b = size {#c \<in># add_mset a M. \<not> x_IsLAN X c \<and> near s' c b#}" for b
      using assms(3) by (simp add: s' add_cnt[OF room] add_near trk_eq[OF assms(1)])
    show "cnt s' b \<le> lim s'" for b
      using trk_near[OF assms(1), of a b] trk_le[OF assms(1), of b] room
      by (auto simp: s' add_cnt[OF room] add_lim)
  qed
qed

lemma trk_add_fail: "ns_Add (x_ns X) s a = (False, s') \<Longrightarrow> s' = s"
  using add_full[of s a] add_room[of s a] by (cases "cnt s a < lim s") auto

lemma trk_remove:
  assumes "trk s (add_mset a M)" "\<not> x_IsLAN X a"
  shows "trk (ns_Remove (x_ns X) s a) M"
proof (rule trkI)
  show "cnt (ns_Remove (x_ns X) s a) b
      = size {#c \<in># M. \<not> x_IsLAN X c \<and> near (ns_Remove (x_ns X) s a) c b#}" for b
    using assms(2) by (simp add: remove_cnt remove_near trk_eq[OF assms(1)])
  show "cnt (ns_Remove (x_ns X) s a) b \<le> lim (ns_Remove (x_ns X) s a)" for b
    using trk_le[OF assms(1), of b] by (simp add: remove_cnt remove_lim)
qed

lemma trk_LAN: "x_IsLAN X a \<Longrightarrow> trk s (add_mset a M) = trk s M"
  by (simp add: tracked_def)

lemma trk_Equal:
  assumes "ip_Equal a b" "trk s (add_mset a M)"
  shows "trk s (add_mset b M)"
proof -
  have "near s b c = near s a c" for c
    using near_Equal[OF assms(1), of s] near_sym near_trans by blast
  then have "size {#d \<in># add_mset b M. \<not> x_IsLAN X d \<and> near s d c#}
      = size {#d \<in># add_mset a M. \<not> x_IsLAN X d \<and> near s d c#}" for c
    by (simp add: IsLAN_Equal[OF assms(1)])
  with trk_eq[OF assms(2)] trk_le[OF assms(2)] show ?thesis by (intro trkI) metis+
qed

lemma trk_room: "trk s (add_mset a M) \<Longrightarrow> trk s' M \<Longrightarrow> near s' = near s \<Longrightarrow> lim s' = lim s \<Longrightarrow>
    \<not> x_IsLAN X a \<Longrightarrow> cnt s' a < lim s'"
  using trk_le[of s "add_mset a M" a] by (simp add: trk_eq near_refl)

section \<open>Adding and removing addresses\<close>

lemma acc_addIP:
  assumes "acc tab bi M" "bi < length (buckets tab)" "addIP X tab bi a = (ok, tab')"
  shows "acc tab' bi (if ok then add_mset a M else M)"
proof (cases "length a = 0 \<or> x_IsLAN X a")
  case True
  with assms show ?thesis
    by (auto simp: addIP_def acct_def trk_LAN split: if_splits)
next
  case False
  obtain ok1 ts where 1: "ns_Add (x_ns X) (t_ips tab) a = (ok1, ts)" by fastforce
  obtain ok2 bs where 2: "ns_Add (x_ns X) (b_ips (buckets tab ! bi)) a = (ok2, bs)" by fastforce
  let ?O = "tab_ips_of (take bi (buckets tab) @ drop (Suc bi) (buckets tab))"
  have t: "trk (t_ips tab) (?O + M)" and b: "trk (b_ips (buckets tab ! bi)) M"
    using assms(1) by (simp_all add: acct_def)
  show ?thesis
  proof (cases ok1)
    case o1: True
    have t1: "trk ts (add_mset a (?O + M))" using trk_add[OF t, of a ts] 1 o1 False by simp
    have "trk (ns_Remove (x_ns X) ts a) (?O + M)" using trk_remove[OF t1] False by simp
    moreover have "bs = b_ips (buckets tab ! bi)" if "\<not> ok2" using 2 that trk_add_fail by simp
    moreover have "trk bs (add_mset a M)" if ok2 using trk_add[OF b, of a bs] 2 that False by simp
    ultimately show ?thesis
      using assms 1 2 o1 False t1 b
      by (auto simp: addIP_def Let_def acct_def upd_bucket_def nth_list_update split: if_splits)
  next
    case o1: False
    with 1 have "ts = t_ips tab" using trk_add_fail by simp
    with assms 1 o1 False show ?thesis by (auto simp: addIP_def Let_def acct_def)
  qed
qed

lemma acc_removeIP:
  assumes "acc tab bi (add_mset a M)" "bi < length (buckets tab)"
  shows "acc (removeIP X tab bi a) bi M"
  using assms
  by (auto simp: removeIP_def acct_def trk_LAN upd_bucket_def nth_list_update intro: trk_remove)

lemma addIP_nonempty: "addIP X tab bi a = (True, tab') \<Longrightarrow> a \<noteq> []"
  by (auto simp: addIP_def)

text \<open>The limits and the subnet relation of the counters never change.\<close>

definition caps :: "'s Table \<Rightarrow> nat \<Rightarrow> nat \<times> nat \<times> (ip \<Rightarrow> ip \<Rightarrow> bool) \<times> (ip \<Rightarrow> ip \<Rightarrow> bool)" where
  "caps tab bi = (lim (t_ips tab), lim (b_ips (buckets tab ! bi)),
     near (t_ips tab), near (b_ips (buckets tab ! bi)))"

lemma caps_addIP: "bi < length (buckets tab) \<Longrightarrow> caps (snd (addIP X tab bi a)) bi = caps tab bi"
  using add_lim[of "t_ips tab" a] add_lim[of "b_ips (buckets tab ! bi)" a]
    add_near[of "t_ips tab" a] add_near[of "b_ips (buckets tab ! bi)" a]
  by (auto simp: caps_def addIP_def Let_def remove_lim remove_near split: prod.splits)

lemma caps_removeIP: "bi < length (buckets tab) \<Longrightarrow> caps (removeIP X tab bi a) bi = caps tab bi"
  by (simp add: caps_def removeIP_def remove_lim remove_near)

lemma addIP_succeeds:
  assumes "a \<noteq> []" "bi < length (buckets tab)"
    and "\<not> x_IsLAN X a \<Longrightarrow> cnt (t_ips tab) a < lim (t_ips tab)"
    and "\<not> x_IsLAN X a \<Longrightarrow> cnt (b_ips (buckets tab ! bi)) a < lim (b_ips (buckets tab ! bi))"
  shows "fst (addIP X tab bi a)"
proof (cases "x_IsLAN X a")
  case True
  with assms(1) show ?thesis by (simp add: addIP_def)
next
  case False
  with assms add_room[of "t_ips tab" a] add_room[of "b_ips (buckets tab ! bi)" a]
  show ?thesis by (auto simp: addIP_def Let_def split: prod.splits)
qed

text \<open>An address that was taken out fits in again, whatever failed attempt lies between.\<close>

lemma addIP_back:
  assumes "acc tab bi (add_mset a M)" "acc tab' bi M" "caps tab' bi = caps tab bi" "same_nodes tab' tab"
    and "a \<noteq> []" "bi < length (buckets tab')"
  shows "fst (addIP X tab' bi a)"
proof (rule addIP_succeeds[OF assms(5,6)])
  assume "\<not> x_IsLAN X a"
  with assms show "cnt (t_ips tab') a < lim (t_ips tab')"
    by (intro trk_room[of "t_ips tab" a]) (auto simp: acct_def caps_def same_nodes_others[OF assms(4)])
  from \<open>\<not> x_IsLAN X a\<close> assms
  show "cnt (b_ips (buckets tab' ! bi)) a < lim (b_ips (buckets tab' ! bi))"
    by (intro trk_room[of "b_ips (buckets tab ! bi)" a]) (auto simp: acct_def caps_def)
qed

section \<open>Replacing the lists of one bucket\<close>

definition good_node :: "nat \<Rightarrow> Node \<Rightarrow> bool" where
  "good_node bi n \<longleftrightarrow> e_ID n \<noteq> x_self X \<and> bucketOf X (e_ID n) = bi \<and> e_IP n \<noteq> []"

lemma bucket_ok_push:
  assumes "bucket_ok X bi b" "length (entries b) = bucketSize" "good_node bi n"
    and "e_ID n \<notin> e_ID ` set (nodes_of b)"
  shows "bucket_ok X bi (b\<lparr>replacements := fst (pushNode (replacements b) n maxReplacements)\<rparr>)"
proof -
  have "set (butlast (replacements b)) \<subseteq> set (replacements b)"
    by (auto dest: in_set_butlastD)
  moreover have "distinct (map e_ID (butlast (replacements b)))"
    using assms(1) by (simp add: bucket_ok_def nodes_of_def map_butlast distinct_butlast)
  ultimately show ?thesis
    using assms by (auto simp: bucket_ok_def nodes_of_def good_node_def pushNode_eq maxReplacements_eq bucketSize_eq
        image_iff)
qed

lemma bucket_ok_entry:
  assumes "bucket_ok X bi b" "length (entries b) < bucketSize" "good_node bi n"
    and "e_ID n \<notin> e_ID ` set (entries b)"
  shows "bucket_ok X bi (b\<lparr>entries := entries b @ [n], replacements := deleteNode (replacements b) n\<rparr>)"
    and "bucket_ok X bi (b\<lparr>entries := fst (pushNode (entries b) n bucketSize),
          replacements := deleteNode (replacements b) n\<rparr>)"
    and "replacements b = []"
proof -
  show r: "replacements b = []" using assms(1,2) by (auto simp: bucket_ok_def)
  show "bucket_ok X bi (b\<lparr>entries := entries b @ [n], replacements := deleteNode (replacements b) n\<rparr>)"
    and "bucket_ok X bi (b\<lparr>entries := fst (pushNode (entries b) n bucketSize),
          replacements := deleteNode (replacements b) n\<rparr>)"
    using assms r by (auto simp: bucket_ok_def nodes_of_def good_node_def pushNode_eq bucketSize_eq)
qed

lemma bucket_ok_front:
  assumes "bucket_ok X bi b" "i < length (entries b)" "e_ID n = e_ID (entries b ! i)" "e_IP n \<noteq> []"
  shows "bucket_ok X bi (b\<lparr>entries := n # take i (entries b) @ drop (Suc i) (entries b)\<rparr>)"
proof -
  let ?es = "entries b"
  have es: "?es = take i ?es @ ?es ! i # drop (Suc i) ?es" using assms(2) by (rule id_take_nth_drop)
  have s: "set ?es = insert (?es ! i) (set (take i ?es) \<union> set (drop (Suc i) ?es))"
    by (subst es) auto
  have d: "distinct (map e_ID (take i ?es @ ?es ! i # drop (Suc i) ?es @ replacements b))"
    using assms(1) es by (metis append.assoc append_Cons bucket_ok_def nodes_of_def)
  have "length (n # take i ?es @ drop (Suc i) ?es) = length ?es" using assms(2) by simp
  with assms d s show ?thesis
    by (auto simp: bucket_ok_def nodes_of_def image_Un)
qed

lemma bucket_ok_replace:
  assumes "bucket_ok X bi b" "entries b = es @ [l]" "r \<in> set (replacements b)"
  shows "bucket_ok X bi (b\<lparr>replacements := deleteNode (replacements b) r, entries := es @ [r]\<rparr>)"
proof -
  let ?rs = "replacements b"
  have dr: "distinct (map e_ID ?rs)" using assms(1) by (simp add: bucket_ok_def nodes_of_def)
  note del = set_deleteNode[OF dr, of r] distinct_deleteNode[OF dr, of r] length_deleteNode[of ?rs r]
  have d: "distinct (map e_ID es)" "e_ID ` set es \<inter> e_ID ` set ?rs = {}"
    using assms(1,2) by (auto simp: bucket_ok_def nodes_of_def)
  have "e_ID ` set (deleteNode ?rs r) \<subseteq> e_ID ` set ?rs" "e_ID r \<in> e_ID ` set ?rs"
    and r: "e_ID r \<notin> e_ID ` set (deleteNode ?rs r)"
    unfolding del(1) using assms(3) by auto
  from disjoint_shrink[OF d(2) this(1,2)] r d(1) del(2)
  have "distinct (map e_ID (es @ r # deleteNode ?rs r))" by simp
  then have "distinct (map e_ID (es @ [r] @ deleteNode ?rs r))" by simp
  moreover have "\<forall>n \<in> set (es @ [r] @ deleteNode ?rs r). e_ID n \<noteq> x_self X \<and> bucketOf X (e_ID n) = bi \<and> e_IP n \<noteq> []"
  proof -
    have "set (es @ [r] @ deleteNode ?rs r) \<subseteq> set (nodes_of b)"
      using assms(2,3) by (auto simp: nodes_of_def del(1))
    with assms(1) show ?thesis unfolding bucket_ok_def by blast
  qed
  moreover have "length (deleteNode ?rs r) \<le> maxReplacements" "?rs \<noteq> []"
    using assms(1,3) by (auto simp: bucket_ok_def del(3))
  ultimately show ?thesis using assms(1,2) by (simp add: bucket_ok_def nodes_of_def)
qed

lemma same_bucket:
  "same_nodes t1 t2 \<Longrightarrow> bi < length (buckets t1) \<Longrightarrow> entries (buckets t1 ! bi) = entries (buckets t2 ! bi)
   \<and> replacements (buckets t1 ! bi) = replacements (buckets t2 ! bi)
   \<and> ips_of (buckets t1 ! bi) = ips_of (buckets t2 ! bi)"
  by (auto simp: same_nodes_def ips_of_def nodes_of_def)

lemma shape_len: "shape_inv X tab \<Longrightarrow> length (buckets tab) = 17"
  by (simp add: shape_inv_def)

lemma shape_bucket: "shape_inv X tab \<Longrightarrow> bi < 17 \<Longrightarrow> bucket_ok X bi (buckets tab ! bi)"
  by (simp add: shape_inv_def)

text \<open>The final step of every operation: the bucket is rewritten so that its nodes are what its
  counter holds.\<close>

lemma settle_upd:
  assumes "shape_inv X tab" "acc tab bi M" "bi < 17"
    and "bucket_ok X bi (f (buckets tab ! bi))" "b_ips (f (buckets tab ! bi)) = b_ips (buckets tab ! bi)"
    and "ips_of (f (buckets tab ! bi)) = M"
  shows "shape_inv X (upd_bucket tab bi f) \<and> stl (upd_bucket tab bi f)"
proof -
  have len: "bi < length (buckets tab)" using assms(1,3) shape_len by simp
  have "acc (upd_bucket tab bi f) bi M" using acct_upd[where f = f] assms(2,5) len by blast
  then have "stl (upd_bucket tab bi f)"
    using acct_settled[of bi "upd_bucket tab bi f" X cnt lim near] len assms(6) by simp
  with shape_upd[of X tab bi f] assms(1,4) show ?thesis by simp
qed

lemma settle_same:
  assumes "shape_inv X tab" "same_nodes tab' tab" "acc tab' bi (ips_of (buckets tab ! bi))" "bi < 17"
  shows "shape_inv X tab' \<and> stl tab'"
proof -
  have len: "bi < length (buckets tab')" using assms(1,2,4) shape_len by (simp add: same_nodes_def)
  then have "ips_of (buckets tab' ! bi) = ips_of (buckets tab ! bi)" using same_bucket[OF assms(2)] by simp
  with assms acct_settled[OF len, of X cnt lim near] shape_same[OF assms(2)] show ?thesis by simp
qed

lemma acc_start: "shape_inv X tab \<Longrightarrow> stl tab \<Longrightarrow> bi < 17 \<Longrightarrow> acc tab bi (ips_of (buckets tab ! bi))"
  by (simp add: acct_settled shape_len)

section \<open>The operations keep the invariant\<close>

abbreviation inv :: "'s Table \<Rightarrow> bool" where "inv \<equiv> tab_inv X cnt lim near"

lemma inv_iff: "inv tab \<longleftrightarrow> shape_inv X tab \<and> stl tab"
  by (rule tab_inv_def)

lemma inv_hook [simp]: "inv (hookNode tab n t) = inv tab"
  by (simp add: inv_iff)

text \<open>The outcome of \<open>addIP\<close> inside an operation on a settled table.\<close>

lemma addIP_case:
  assumes "inv tab" "bi < 17" "addIP X tab bi a = (ok, tab')"
  shows "same_nodes tab' tab" "shape_inv X tab'" "\<not> ok \<Longrightarrow> inv tab'"
    and "ok \<Longrightarrow> acc tab' bi (add_mset a (ips_of (buckets tab' ! bi)))" "ok \<Longrightarrow> a \<noteq> []"
    and "entries (buckets tab' ! bi) = entries (buckets tab ! bi)"
    and "replacements (buckets tab' ! bi) = replacements (buckets tab ! bi)"
proof -
  have sh: "shape_inv X tab" and st: "stl tab" using assms(1) by (simp_all add: inv_iff)
  show same: "same_nodes tab' tab" using assms(3) by (rule addIP_same)
  have len: "bi < length (buckets tab)" "bi < length (buckets tab')"
    using sh same assms(2) shape_len by (simp_all add: same_nodes_def)
  have acc: "acc tab' bi (if ok then add_mset a (ips_of (buckets tab ! bi)) else ips_of (buckets tab ! bi))"
    using acc_addIP[OF acc_start[OF sh st assms(2)] len(1) assms(3)] .
  show "shape_inv X tab'" using shape_same[OF same] sh by simp
  show "\<not> ok \<Longrightarrow> inv tab'" using settle_same[OF sh same _ assms(2)] acc by (simp add: inv_iff)
  show "ok \<Longrightarrow> acc tab' bi (add_mset a (ips_of (buckets tab' ! bi)))"
    using acc same_bucket[OF same len(2)] by simp
  show "ok \<Longrightarrow> a \<noteq> []" using assms(3) addIP_nonempty by simp
  show "entries (buckets tab' ! bi) = entries (buckets tab ! bi)"
    and "replacements (buckets tab' ! bi) = replacements (buckets tab ! bi)"
    using same_bucket[OF same len(2)] by simp_all
qed

lemma ips_of_push:
  assumes "pushNode (replacements b) n maxReplacements = (rs, removed)"
  shows "ips_of (b\<lparr>replacements := rs\<rparr>) + (case removed of None \<Rightarrow> {#} | Some r \<Rightarrow> {#e_IP r#})
       = add_mset (e_IP n) (ips_of b)"
proof (cases "length (replacements b) < maxReplacements")
  case True
  with assms show ?thesis by (auto simp: pushNode_eq maxReplacements_eq ips_of_def nodes_of_def)
next
  case False
  then have "replacements b \<noteq> []" by (auto simp: maxReplacements_eq)
  then obtain xs x where "replacements b = xs @ [x]" by (cases "replacements b" rule: rev_cases) auto
  with assms False show ?thesis by (auto simp: pushNode_eq maxReplacements_eq ips_of_def nodes_of_def)
qed

lemma addReplacement_inv:
  assumes "inv tab" "bi = bucketOf X (e_ID n)" "e_ID n \<noteq> x_self X"
    and "e_ID n \<notin> e_ID ` set (entries (buckets tab ! bi))"
    and "length (entries (buckets tab ! bi)) = bucketSize"
  shows "inv (addReplacement X tab bi n)"
proof (cases "contains (replacements (buckets tab ! bi)) (e_ID n)")
  case True
  with assms(1) show ?thesis by (simp add: addReplacement_def)
next
  case new: False
  have bi: "bi < 17" using assms(2) bucketOf_lt by simp
  obtain ok tab1 where add: "addIP X tab bi (e_IP n) = (ok, tab1)" by fastforce
  note ac = addIP_case[OF assms(1) bi add]
  show ?thesis
  proof (cases ok)
    case False
    with ac(3) new add show ?thesis by (simp add: addReplacement_def)
  next
    case True
    obtain rs removed where push: "pushNode (replacements (buckets tab1 ! bi)) n maxReplacements = (rs, removed)"
      by fastforce
    let ?f = "\<lambda>b. b\<lparr>replacements := rs\<rparr>"
    let ?b = "buckets tab1 ! bi"
    let ?t2 = "upd_bucket tab1 bi ?f"
    have len: "bi < length (buckets tab1)" using shape_len[OF ac(2)] bi by simp
    have "good_node bi n" using assms(2,3) ac(5)[OF True] by (simp add: good_node_def)
    then have ok': "bucket_ok X bi (?f ?b)"
      using bucket_ok_push[OF shape_bucket[OF ac(2) bi], of n] assms(4,5) ac(6,7) new push
      by (simp add: nodes_of_def image_Un)
    have ips: "ips_of (?f ?b) + (case removed of None \<Rightarrow> {#} | Some r \<Rightarrow> {#e_IP r#}) = add_mset (e_IP n) (ips_of ?b)"
      by (rule ips_of_push[OF push])
    have a2: "acc ?t2 bi (add_mset (e_IP n) (ips_of ?b))"
      using acct_upd[where f = ?f] ac(4)[OF True] len by fastforce
    have s2: "shape_inv X ?t2" by (rule shape_upd) (use ac(2) ok' in simp_all)
    have "inv (case removed of None \<Rightarrow> ?t2 | Some r \<Rightarrow> removeIP X ?t2 bi (e_IP r))"
    proof (cases removed)
      case None
      with settle_upd[where f = ?f, OF ac(2) ac(4)[OF True] bi ok'] ips show ?thesis by (simp add: inv_iff)
    next
      case (Some r)
      have "acc (removeIP X ?t2 bi (e_IP r)) bi (ips_of (buckets ?t2 ! bi))"
        by (rule acc_removeIP) (use a2 ips Some len in auto)
      with settle_same[OF s2 removeIP_same _ bi] Some show ?thesis by (simp add: inv_iff)
    qed
    with new add True push show ?thesis by (simp add: addReplacement_def Let_def)
  qed
qed

lemma AddSeenNode_inv:
  assumes "inv tab"
  shows "inv (AddSeenNode X now tab n)"
proof (cases "e_ID n = x_self X")
  case True
  with assms show ?thesis by (simp add: AddSeenNode_def)
next
  case self: False
  let ?bi = "bucketOf X (e_ID n)"
  let ?t1 = "hookNode tab n Seen"
  have inv1: "inv ?t1" using assms by simp
  show ?thesis
  proof (cases "contains (entries (buckets tab ! ?bi)) (e_ID n)")
    case True
    with self inv1 show ?thesis by (simp add: AddSeenNode_def Let_def)
  next
    case new: False
    show ?thesis
    proof (cases "bucketSize \<le> length (entries (buckets tab ! ?bi))")
      case True
      then have "length (entries (buckets tab ! ?bi)) = bucketSize"
        using assms shape_bucket[OF _ bucketOf_lt, of tab "e_ID n"] by (simp add: inv_iff bucket_ok_def)
      then have "inv (addReplacement X ?t1 ?bi n)"
        using addReplacement_inv[OF inv1 refl self] new by simp
      with self new True show ?thesis by (simp add: AddSeenNode_def Let_def)
    next
      case room: False
      obtain ok tab2 where add: "addIP X ?t1 ?bi (e_IP n) = (ok, tab2)" by fastforce
      note ac = addIP_case[OF inv1 bucketOf_lt add]
      show ?thesis
      proof (cases ok)
        case False
        with ac(3) self new room add show ?thesis by (simp add: AddSeenNode_def Let_def)
      next
        case True
        let ?n = "SetTimestamp n now"
        let ?f = "\<lambda>b. b\<lparr>entries := entries b @ [?n], replacements := deleteNode (replacements b) ?n\<rparr>"
        let ?b = "buckets tab2 ! ?bi"
        have "good_node ?bi ?n" using self ac(5)[OF True] by (simp add: good_node_def)
        note be = bucket_ok_entry[OF shape_bucket[OF ac(2) bucketOf_lt] _ this]
        have "length (entries ?b) < bucketSize" "e_ID ?n \<notin> e_ID ` set (entries ?b)"
          using ac(6) room new by simp_all
        note be = be[OF this]
        have "ips_of (?f ?b) = add_mset (e_IP n) (ips_of ?b)"
          using be(3) by (simp add: ips_of_def nodes_of_def)
        then have "inv (upd_bucket tab2 ?bi ?f)"
          using settle_upd[where f = ?f, OF ac(2) ac(4)[OF True] bucketOf_lt be(1)] by (simp add: inv_iff)
        with self new room add True show ?thesis by (simp add: AddSeenNode_def Let_def)
      qed
    qed
  qed
qed

lemma AddSeenNodes_inv: "inv tab \<Longrightarrow> inv (AddSeenNodes X now tab ns)"
  by (induction ns arbitrary: tab) (simp_all add: AddSeenNode_inv)

lemma loadSeedNodes_inv: "inv tab \<Longrightarrow> inv (loadSeedNodes X now seeds tab)"
  by (simp add: loadSeedNodes_def AddSeenNodes_inv)

text \<open>Taking a node out of a bucket and its address out of the counters.\<close>

lemma take_out:
  assumes "inv tab" "bi < 17" "bucket_ok X bi (f (buckets tab ! bi))"
    and "b_ips (f (buckets tab ! bi)) = b_ips (buckets tab ! bi)"
    and "ips_of (buckets tab ! bi) = add_mset a (ips_of (f (buckets tab ! bi)))"
  shows "inv (removeIP X (upd_bucket tab bi f) bi a)"
proof -
  have sh: "shape_inv X tab" and st: "stl tab" using assms(1) by (simp_all add: inv_iff)
  have len: "bi < length (buckets tab)" using shape_len[OF sh] assms(2) by simp
  let ?t = "upd_bucket tab bi f"
  have "acc ?t bi (add_mset a (ips_of (f (buckets tab ! bi))))"
    using acct_upd[where f = f] acc_start[OF sh st assms(2)] len assms(4,5) by metis
  then have "acc (removeIP X ?t bi a) bi (ips_of (buckets ?t ! bi))"
    using len by (intro acc_removeIP) simp_all
  moreover have "shape_inv X ?t" using shape_upd[OF sh] assms(3) by simp
  ultimately show ?thesis using settle_same[OF _ removeIP_same _ assms(2)] by (simp add: inv_iff)
qed

lemma replace_inv:
  assumes "inv tab" "bi < 17" "\<And>k. 0 < k \<Longrightarrow> rnd k < k"
    and same: "entries (buckets tab ! bi) \<noteq> [] \<Longrightarrow> e_ID (last (entries (buckets tab ! bi))) = e_ID lst
      \<Longrightarrow> e_IP lst = e_IP (last (entries (buckets tab ! bi)))"
  shows "inv (snd (replace X rnd tab bi lst))"
proof (cases "length (entries (buckets tab ! bi)) = 0
    \<or> e_ID (entries (buckets tab ! bi) ! (length (entries (buckets tab ! bi)) - 1)) \<noteq> e_ID lst")
  case True
  with assms(1) show ?thesis by (auto simp: replace_def Let_def)
next
  case False
  let ?b = "buckets tab ! bi"
  from False obtain es l where es: "entries ?b = es @ [l]" and l: "e_ID l = e_ID lst"
    by (cases "entries ?b" rule: rev_cases) auto
  have ip: "e_IP lst = e_IP l" using same es l by simp
  have ok: "bucket_ok X bi ?b" using assms(1,2) shape_bucket by (simp add: inv_iff)
  then have d: "distinct (map e_ID (es @ l # replacements ?b))" by (simp add: bucket_ok_def nodes_of_def es)
  show ?thesis
  proof (cases "replacements ?b = []")
    case True
    have del: "deleteNode (es @ [l]) lst = es"
      using d l by (intro deleteNode_last) auto
    have "inv (deleteInBucket X tab bi lst)"
      unfolding deleteInBucket_def
      by (rule take_out[OF assms(1,2)])
         (use ok True in \<open>auto simp: es del ip bucket_ok_def nodes_of_def ips_of_def\<close>)
    with False True show ?thesis by (auto simp: replace_def Let_def)
  next
    case rs: False
    let ?r = "replacements ?b ! rnd (length (replacements ?b))"
    have r: "?r \<in> set (replacements ?b)" using assms(3) rs by simp
    let ?f = "\<lambda>b. b\<lparr>replacements := deleteNode (replacements b) ?r,
                  entries := (entries b)[length (entries b) - 1 := ?r]\<rparr>"
    have dr: "distinct (map e_ID (replacements ?b))" using d by simp
    have m: "mset (replacements ?b) = add_mset ?r (mset (deleteNode (replacements ?b) ?r))"
      using mset_deleteNode[OF dr r] by simp
    have "inv (removeIP X (upd_bucket tab bi ?f) bi (e_IP lst))"
    proof (rule take_out[OF assms(1,2)])
      show "bucket_ok X bi (?f ?b)"
        using bucket_ok_replace[OF ok es r] by (simp add: es)
      show "ips_of ?b = add_mset (e_IP lst) (ips_of (?f ?b))"
        by (simp add: ips_of_def nodes_of_def es ip m)
    qed simp
    with False rs show ?thesis by (auto simp: replace_def Let_def)
  qed
qed

text \<open>
  Moving a node to the front. When the node comes with another address that the counters refuse, the
  old address is put back and the table is as before.
\<close>

lemma front_eq:
  "i < length (entries b) \<Longrightarrow>
   b\<lparr>entries := (go_copy_from 1 (entries b) (take i (entries b)))[0 := n]\<rparr>
   = b\<lparr>entries := n # take i (entries b) @ drop (Suc i) (entries b)\<rparr>"
  by (simp add: go_copy_from_prefix del: One_nat_def)

lemma ips_of_Cons: "ips_of (b\<lparr>entries := n # ns\<rparr>) = add_mset (e_IP n) (ips_of (b\<lparr>entries := ns\<rparr>))"
  by (simp add: ips_of_def nodes_of_def)

lemma ips_of_at:
  assumes "i < length (entries b)"
  shows "ips_of b = add_mset (e_IP (entries b ! i)) (ips_of (b\<lparr>entries := take i (entries b) @ drop (Suc i) (entries b)\<rparr>))"
proof -
  have "mset (entries b) = mset (take i (entries b) @ entries b ! i # drop (Suc i) (entries b))"
    using id_take_nth_drop[OF assms] by simp
  then show ?thesis by (simp add: ips_of_def nodes_of_def)
qed

lemma acc_Equal: "ip_Equal a b \<Longrightarrow> acc tab bi (add_mset a M) \<Longrightarrow> acc tab bi (add_mset b M)"
  by (auto simp: acct_def intro: trk_Equal)

lemma front_inv:
  assumes "shape_inv X tab" "bi < 17" "i < length (entries (buckets tab ! bi))"
    and "e_ID n = e_ID (entries (buckets tab ! bi) ! i)" "e_IP n \<noteq> []"
    and "acc tab bi (ips_of ((buckets tab ! bi)\<lparr>entries := n # take i (entries (buckets tab ! bi))
            @ drop (Suc i) (entries (buckets tab ! bi))\<rparr>))"
  shows "inv (upd_bucket tab bi (\<lambda>b. b\<lparr>entries := (go_copy_from 1 (entries b) (take i (entries b)))[0 := n]\<rparr>))"
proof -
  let ?f = "\<lambda>b. b\<lparr>entries := (go_copy_from 1 (entries b) (take i (entries b)))[0 := n]\<rparr>"
  have "bucket_ok X bi (?f (buckets tab ! bi))"
    using bucket_ok_front[OF shape_bucket[OF assms(1,2)] assms(3-5)] front_eq[OF assms(3), of n] by simp
  then show ?thesis
    using settle_upd[where f = ?f, OF assms(1,6,2)] front_eq[OF assms(3), of n] by (simp add: inv_iff)
qed

lemma addIP_fails_more:
  assumes "\<not> fst (addIP X t2 bi a)" "acc t2 bi M" "acc t3 bi (add_mset c M)" "caps t3 bi = caps t2 bi"
    and "same_nodes t3 t2" "bi < length (buckets t2)"
  shows "\<not> fst (addIP X t3 bi a)"
proof (cases "a = [] \<or> x_IsLAN X a")
  case True
  then have "fst (addIP X t3 bi a) = fst (addIP X t2 bi a)" by (auto simp: addIP_def)
  with assms(1) show ?thesis by simp
next
  case False
  have mono: "cnt s a \<le> cnt s' a" if "trk s K" "trk s' (add_mset c K)" "near s' = near s" for s s' K
    using that by (simp add: trk_eq)
  have t: "cnt (t_ips t2) a \<le> cnt (t_ips t3) a"
    using assms(2-5) by (intro mono) (auto simp: acct_def caps_def same_nodes_others[OF assms(5)])
  have b: "cnt (b_ips (buckets t2 ! bi)) a \<le> cnt (b_ips (buckets t3 ! bi)) a"
    using assms(2-4) by (intro mono) (auto simp: acct_def caps_def)
  have "lim (t_ips t2) \<le> cnt (t_ips t2) a \<or> lim (b_ips (buckets t2 ! bi)) \<le> cnt (b_ips (buckets t2 ! bi)) a"
    using addIP_succeeds[of a bi t2] assms(1,6) False by (metis not_less)
  then have "lim (t_ips t3) \<le> cnt (t_ips t3) a \<or> lim (b_ips (buckets t3 ! bi)) \<le> cnt (b_ips (buckets t3 ! bi)) a"
    using t b assms(4) by (auto simp: caps_def)
  with False show ?thesis
    using add_full[of "t_ips t3" a] add_full[of "b_ips (buckets t3 ! bi)" a]
    by (auto simp: addIP_def Let_def split: prod.splits)
qed

lemma bump_changed:
  assumes "inv tab" "bi < 17" "i < length (entries (buckets tab ! bi))"
    and "e_ID n = e_ID (entries (buckets tab ! bi) ! i)"
    and "addIP X (removeIP X tab bi (e_IP (entries (buckets tab ! bi) ! i))) bi (e_IP n) = (ok, t2)"
  shows "ok \<Longrightarrow> inv (upd_bucket t2 bi (\<lambda>b. b\<lparr>entries := (go_copy_from 1 (entries b) (take i (entries b)))[0 := n]\<rparr>))"
    and "\<not> ok \<Longrightarrow> inv (snd (addIP X t2 bi (e_IP (entries (buckets tab ! bi) ! i))))"
    and "\<not> ok \<Longrightarrow> \<not> fst (addIP X (snd (addIP X t2 bi (e_IP (entries (buckets tab ! bi) ! i)))) bi (e_IP n))"
proof -
  let ?b = "buckets tab ! bi"
  let ?old = "e_IP (entries ?b ! i)"
  let ?R = "ips_of (?b\<lparr>entries := take i (entries ?b) @ drop (Suc i) (entries ?b)\<rparr>)"
  let ?t1 = "removeIP X tab bi ?old"
  let ?t3 = "snd (addIP X t2 bi ?old)"
  have sh: "shape_inv X tab" and st: "stl tab" using assms(1) by (simp_all add: inv_iff)
  have old: "?old \<noteq> []" using shape_bucket[OF sh assms(2)] assms(3) by (auto simp: bucket_ok_def nodes_of_def)
  have a0: "acc tab bi (add_mset ?old ?R)"
    using acc_start[OF sh st assms(2)] ips_of_at[OF assms(3)] by simp
  have same: "same_nodes ?t1 tab" "same_nodes t2 tab"
    using removeIP_same addIP_same[OF assms(5)] same_nodes_trans by blast+
  have len: "bi < length (buckets tab)" "bi < length (buckets ?t1)" "bi < length (buckets t2)"
    using shape_len[OF sh] assms(2) same by (simp_all add: same_nodes_def)
  have a1: "acc ?t1 bi ?R" by (rule acc_removeIP[OF a0 len(1)])
  have a2: "acc t2 bi (if ok then add_mset (e_IP n) ?R else ?R)" by (rule acc_addIP[OF a1 len(2) assms(5)])
  have caps1: "caps ?t1 bi = caps tab bi" "caps t2 bi = caps ?t1 bi"
    using caps_removeIP[OF len(1)] caps_addIP[OF len(2), of "e_IP n"] assms(5) by simp_all
  note sb = same_bucket[OF same(2) len(3)]
  {
    assume ok
    have "inv (upd_bucket t2 bi (\<lambda>b. b\<lparr>entries := (go_copy_from 1 (entries b) (take i (entries b)))[0 := n]\<rparr>))"
    proof (rule front_inv)
      show "shape_inv X t2" using shape_same[OF same(2)] sh by simp
      show "e_IP n \<noteq> []" using addIP_nonempty assms(5) \<open>ok\<close> by simp
      have "ips_of ((buckets t2 ! bi)\<lparr>entries := take i (entries ?b) @ drop (Suc i) (entries ?b)\<rparr>) = ?R"
        using sb by (simp add: ips_of_def nodes_of_def)
      then show "acc t2 bi (ips_of ((buckets t2 ! bi)\<lparr>entries := n # take i (entries (buckets t2 ! bi))
            @ drop (Suc i) (entries (buckets t2 ! bi))\<rparr>))"
        using a2 \<open>ok\<close> sb by (simp add: ips_of_Cons)
    qed (use assms sb in simp_all)
  }
  then show "ok \<Longrightarrow> inv (upd_bucket t2 bi (\<lambda>b. b\<lparr>entries := (go_copy_from 1 (entries b) (take i (entries b)))[0 := n]\<rparr>))" .
  {
    assume "\<not> ok"
    then have a2': "acc t2 bi ?R" using a2 by simp
    have "fst (addIP X t2 bi ?old)"
      using addIP_back[OF a0 a2' _ same(2) old len(3)] caps1 by simp
    then have again: "addIP X t2 bi ?old = (True, ?t3)" by (cases "addIP X t2 bi ?old") simp
    have a3: "acc ?t3 bi (add_mset ?old ?R)" using acc_addIP[OF a2' len(3) again] by simp
    have same3: "same_nodes ?t3 tab" "same_nodes ?t3 ?t1"
      using addIP_same[OF again] same same_nodes_trans same_nodes_sym by blast+
    have "inv ?t3"
      using settle_same[OF sh same3(1) _ assms(2)] a3 ips_of_at[OF assms(3)] by (simp add: inv_iff)
    moreover have "\<not> fst (addIP X ?t3 bi (e_IP n))"
      by (rule addIP_fails_more[OF _ a1 a3 _ same3(2) len(2)])
         (use assms(5) \<open>\<not> ok\<close> caps1 caps_addIP[OF len(3)] in simp_all)
    ultimately have "inv ?t3 \<and> \<not> fst (addIP X ?t3 bi (e_IP n))" by blast
  }
  then show "\<not> ok \<Longrightarrow> inv ?t3" "\<not> ok \<Longrightarrow> \<not> fst (addIP X ?t3 bi (e_IP n))" by blast+
qed

lemma bumpInBucket_inv:
  assumes "inv tab" "bi < 17"
  shows "inv (snd (bumpInBucket X tab bi n))"
proof (cases "index_of (entries (buckets tab ! bi)) (e_ID n)")
  case None
  with assms show ?thesis by (simp add: bumpInBucket_def)
next
  case (Some i)
  let ?b = "buckets tab ! bi"
  have i: "i < length (entries ?b)" "e_ID n = e_ID (entries ?b ! i)" using index_of_Some[OF Some] by simp_all
  have sh: "shape_inv X tab" and st: "stl tab" using assms(1) by (simp_all add: inv_iff)
  show ?thesis
  proof (cases "ip_Equal (e_IP n) (e_IP (entries ?b ! i))")
    case True
    have "e_IP (entries ?b ! i) \<noteq> []"
      using shape_bucket[OF sh assms(2)] i(1) by (auto simp: bucket_ok_def nodes_of_def)
    then have "e_IP n \<noteq> []" using ip_Equal_length[OF True] by simp
    moreover have "acc tab bi (ips_of (?b\<lparr>entries := n # take i (entries ?b) @ drop (Suc i) (entries ?b)\<rparr>))"
      using acc_Equal[OF ip_Equal_sym[OF True]] acc_start[OF sh st assms(2)] ips_of_at[OF i(1)]
      by (simp add: ips_of_Cons)
    ultimately show ?thesis
      using front_inv[OF sh assms(2) i] Some True by (simp add: bumpInBucket_def Let_def)
  next
    case False
    obtain ok t2 where "addIP X (removeIP X tab bi (e_IP (entries ?b ! i))) bi (e_IP n) = (ok, t2)" by fastforce
    with bump_changed[OF assms i this] Some False show ?thesis by (simp add: bumpInBucket_def Let_def)
  qed
qed

text \<open>A refused bump of a known node leaves no room for its new address either.\<close>

lemma bumpInBucket_refused:
  assumes "inv tab" "bi < 17" "bumpInBucket X tab bi n = (False, tab')"
  shows "same_nodes tab' tab"
    and "e_ID n \<in> e_ID ` set (entries (buckets tab ! bi)) \<Longrightarrow> \<not> fst (addIP X tab' bi (e_IP n))"
proof -
  have "same_nodes tab' tab \<and> (e_ID n \<in> e_ID ` set (entries (buckets tab ! bi)) \<longrightarrow> \<not> fst (addIP X tab' bi (e_IP n)))"
  proof (cases "index_of (entries (buckets tab ! bi)) (e_ID n)")
    case None
    with assms show ?thesis by (auto simp: bumpInBucket_def index_of_None)
  next
    case (Some i)
    let ?b = "buckets tab ! bi"
    have i: "i < length (entries ?b)" "e_ID n = e_ID (entries ?b ! i)" using index_of_Some[OF Some] by simp_all
    obtain ok t2 where add: "addIP X (removeIP X tab bi (e_IP (entries ?b ! i))) bi (e_IP n) = (ok, t2)" by fastforce
    have ok: "\<not> ok" "tab' = snd (addIP X t2 bi (e_IP (entries ?b ! i)))"
      using assms(3) Some add by (auto simp: bumpInBucket_def Let_def split: if_splits)
    have "same_nodes tab' t2" unfolding ok(2) by (rule addIP_same) (rule prod.collapse[symmetric])
    with addIP_same[OF add] removeIP_same have "same_nodes tab' tab" by (meson same_nodes_trans)
    with bump_changed(3)[OF assms(1,2) i add ok(1)] ok(2) show ?thesis by simp
  qed
  then show "same_nodes tab' tab"
    "e_ID n \<in> e_ID ` set (entries (buckets tab ! bi)) \<Longrightarrow> \<not> fst (addIP X tab' bi (e_IP n))" by blast+
qed

lemma full_bucket: "inv tab \<Longrightarrow> bi < 17 \<Longrightarrow> bucketSize \<le> length (entries (buckets tab ! bi))
    \<Longrightarrow> length (entries (buckets tab ! bi)) = bucketSize"
  using shape_bucket[of tab bi] by (simp add: inv_iff bucket_ok_def)

text \<open>An operation that finds no room for the address of its node changes no list.\<close>

lemma addReplacement_refused:
  "inv tab \<Longrightarrow> bi < 17 \<Longrightarrow> \<not> fst (addIP X tab bi (e_IP n)) \<Longrightarrow> inv (addReplacement X tab bi n)"
  using addIP_case(3)[of tab bi "e_IP n"]
  by (cases "addIP X tab bi (e_IP n)") (simp add: addReplacement_def)

lemma addVerifiedNode_inv:
  assumes "inv tab"
  shows "inv (addVerifiedNode X now tab n)"
proof (cases "initDone tab \<and> e_ID n \<noteq> x_self X")
  case False
  with assms show ?thesis by (auto simp: addVerifiedNode_def)
next
  case pre: True
  let ?bi = "bucketOf X (e_ID n)"
  obtain bumped t1 where bump: "bumpInBucket X tab ?bi n = (bumped, t1)" by fastforce
  have inv1: "inv t1" using bumpInBucket_inv[OF assms bucketOf_lt, of "e_ID n" n] bump by simp
  let ?es = "entries (buckets t1 ! ?bi)"
  obtain ok t2 where add: "addIP X t1 ?bi (e_IP n) = (ok, t2)" by fastforce
  note ac = addIP_case[OF inv1 bucketOf_lt add]
  let ?n = "SetTimestamp n now"
  let ?f = "\<lambda>b. b\<lparr>entries := fst (pushNode (entries b) ?n bucketSize),
                 replacements := deleteNode (replacements b) ?n\<rparr>"
  show ?thesis
  proof (cases "bumped \<or> (\<not> bucketSize \<le> length ?es \<and> \<not> ok)")
    case True
    with pre bump inv1 add ac(3) show ?thesis by (auto simp: addVerifiedNode_def Let_def)
  next
    case go_on: False
    have refused: "\<not> ok" if "e_ID n \<in> e_ID ` set ?es"
    proof -
      have "same_nodes t1 tab" using bumpInBucket_refused(1)[OF assms bucketOf_lt, of "e_ID n"] bump go_on by simp
      then have "?es = entries (buckets tab ! ?bi)"
        using same_bucket[of t1 tab ?bi] shape_len[of t1] inv1 bucketOf_lt by (simp add: inv_iff)
      then show ?thesis
        using bumpInBucket_refused(2)[OF assms bucketOf_lt, of "e_ID n" n t1] bump go_on that add by simp
    qed
    show ?thesis
    proof (cases "bucketSize \<le> length ?es")
      case True
      have "inv (addReplacement X t1 ?bi n)"
        using addReplacement_refused[OF inv1 bucketOf_lt] addReplacement_inv[OF inv1 refl] pre refused add
          full_bucket[OF inv1 bucketOf_lt True] by (cases "e_ID n \<in> e_ID ` set ?es") simp_all
      with pre bump go_on True show ?thesis by (simp add: addVerifiedNode_def Let_def)
    next
      case room: False
      with go_on have ok by simp
      have "good_node ?bi ?n" using pre ac(5)[OF \<open>ok\<close>] by (simp add: good_node_def)
      note be = bucket_ok_entry[OF shape_bucket[OF ac(2) bucketOf_lt] _ this]
      have "length (entries (buckets t2 ! ?bi)) < bucketSize" "e_ID ?n \<notin> e_ID ` set (entries (buckets t2 ! ?bi))"
        using ac(6) room refused \<open>ok\<close> by auto
      note be = be[OF this]
      have "ips_of (?f (buckets t2 ! ?bi)) = add_mset (e_IP n) (ips_of (buckets t2 ! ?bi))"
        using be(3) room ac(6) by (simp add: ips_of_def nodes_of_def pushNode_eq bucketSize_eq)
      then have "inv (upd_bucket t2 ?bi ?f)"
        using settle_upd[where f = ?f, OF ac(2) ac(4)[OF \<open>ok\<close>] bucketOf_lt be(2)] by (simp add: inv_iff)
      with pre bump go_on room add \<open>ok\<close> show ?thesis by (simp add: addVerifiedNode_def Let_def)
    qed
  qed
qed

text \<open>
  Revalidation: the pinged node is still an entry of its bucket, and a failed ping reports the
  sequence number 0 (\<open>makePingRequest\<close> returns \<open>0, err\<close>).
\<close>

lemma doRevalidate_inv:
  assumes "inv tab" "bi < 17" "\<And>k. 0 < k \<Longrightarrow> rnd k < k"
    and "lst \<in> set (entries (buckets tab ! bi))" "snd ping \<noteq> None \<Longrightarrow> fst ping = 0"
  shows "inv (doRevalidate X rnd ping enr lst bi tab)"
proof (cases "snd ping")
  case None
  then show ?thesis using bumpInBucket_inv[OF assms(1,2)] by (simp add: doRevalidate_def)
next
  case (Some e)
  let ?es = "entries (buckets tab ! bi)"
  have r: "refreshedNode lst (fst ping) enr = lst" using assms(5) Some by (simp add: refreshedNode_def)
  have "distinct (map e_ID ?es)"
    using assms(1,2) shape_bucket[of tab bi] by (simp add: inv_iff bucket_ok_def nodes_of_def)
  then have "e_IP lst = e_IP (last ?es)" if "?es \<noteq> []" "e_ID (last ?es) = e_ID lst"
    using that assms(4) by (metis distinct_map inj_on_eq_iff last_in_set)
  then have "inv (snd (replace X rnd tab bi lst))" by (intro replace_inv assms(1-3))
  with Some r show ?thesis by (auto simp: doRevalidate_def Let_def split: prod.splits option.splits)
qed

text \<open>A new table.\<close>

lemma fresh_inv:
  "inv \<lparr>buckets = replicate nBuckets \<lparr>entries = [], replacements = [], b_ips = ns_new (x_ns X) sb lb\<rparr>,
       nursery = ns, t_ips = ns_new (x_ns X) st lt, initDone = False, hooks = hs\<rparr>"
proof -
  have z: "trk (ns_new (x_ns X) a l) {#}" for a l by (rule trkI) (simp_all add: cnt_new)
  have "sum_list (replicate k {#}) = ({#} :: ip multiset)" for k by (induction k) simp_all
  then show ?thesis
    by (simp add: inv_iff shape_inv_def bucket_ok_def nodes_of_def bucketSize_eq maxReplacements_eq
        settled_def tab_ips_of_def ips_of_def z)
qed

lemma NewTable_inv: "snd (NewTable X L now seeds boot ign) = Inr tab \<Longrightarrow> inv tab"
  by (auto simp: NewTable_def Let_def setFallbackNodes_def loadSeedNodes_inv[OF fresh_inv, simplified]
      intro!: loadSeedNodes_inv fresh_inv[simplified] split: option.splits)

end

text \<open>\<open>AddSeenNode\<close> only ever appends to the entries of a bucket.\<close>

lemma same_nodes_entries:
  "same_nodes t1 t2 \<Longrightarrow> i < length (buckets t1) \<Longrightarrow> entries (buckets t1 ! i) = entries (buckets t2 ! i)"
  by (auto simp: same_nodes_def)

lemma addReplacement_entries:
  assumes "i < length (buckets tab)"
  shows "entries (buckets (addReplacement X tab bi n) ! i) = entries (buckets tab ! i)"
    and "length (buckets (addReplacement X tab bi n)) = length (buckets tab)"
proof -
  obtain ok t1 where add: "addIP X tab bi (e_IP n) = (ok, t1)" by fastforce
  have len: "length (buckets t1) = length (buckets tab)" using addIP_same[OF add] by (simp add: same_nodes_def)
  have e: "entries (buckets t1 ! i) = entries (buckets tab ! i)"
    using same_nodes_entries[OF addIP_same[OF add]] assms len by simp
  have u: "entries (buckets (upd_bucket t1 bi (\<lambda>b. b\<lparr>replacements := rs\<rparr>)) ! i) = entries (buckets tab ! i)" for rs
    using e assms len by (cases "i = bi") simp_all
  have r: "entries (buckets (removeIP X t bi a) ! i) = entries (buckets t ! i)"
    "length (buckets (removeIP X t bi a)) = length (buckets t)" if "i < length (buckets t)" for t a
    using removeIP_same[of X t bi a] that by (simp_all add: same_nodes_def)
  show "entries (buckets (addReplacement X tab bi n) ! i) = entries (buckets tab ! i)"
    and "length (buckets (addReplacement X tab bi n)) = length (buckets tab)"
    using add e u assms len r
    by (auto simp: addReplacement_def Let_def split: prod.splits option.splits)
qed

lemma AddSeenNode_appends:
  assumes "i < length (buckets tab)"
  shows "\<exists>ys. entries (buckets (AddSeenNode X now tab n) ! i) = entries (buckets tab ! i) @ ys"
proof -
  let ?bi = "bucketOf X (e_ID n)"
  let ?t1 = "hookNode tab n Seen"
  obtain ok t2 where add: "addIP X ?t1 ?bi (e_IP n) = (ok, t2)" by fastforce
  have len: "length (buckets t2) = length (buckets tab)" using addIP_same[OF add] by (simp add: same_nodes_def)
  have e: "entries (buckets t2 ! i) = entries (buckets tab ! i)"
    using same_nodes_entries[OF addIP_same[OF add]] assms len by simp
  have "\<exists>ys. entries (buckets (upd_bucket t2 ?bi (\<lambda>b. b\<lparr>entries := entries b @ [m], replacements := rs b\<rparr>)) ! i)
      = entries (buckets tab ! i) @ ys" for m rs
    using e assms len by (cases "i = ?bi") simp_all
  then show ?thesis
    using add e addReplacement_entries(1)[of i ?t1 X ?bi n] assms
    by (auto simp: AddSeenNode_def Let_def)
qed

section \<open>An executable instance\<close>

text \<open>
  A subnet counter that keeps the list of the network prefixes it has counted, the XOR metric and a
  LAN test on the first octet: a concrete environment in which the interfaces hold.
\<close>

type_synonym prefix_set = "nat \<times> nat \<times> bool list list"

definition canon :: "ip \<Rightarrow> ip" where
  "canon a = (case To4 a of Some v \<Rightarrow> v | None \<Rightarrow> a)"

definition ip_prefix :: "nat \<Rightarrow> ip \<Rightarrow> bool list" where
  "ip_prefix sn a = take sn (concat (map (\<lambda>w. map (bit w) (rev [0..<8])) (canon a)))"

definition ps_cnt :: "prefix_set \<Rightarrow> ip \<Rightarrow> nat" where
  "ps_cnt s a = length (filter (\<lambda>k. k = ip_prefix (fst s) a) (snd (snd s)))"

definition ps_lim :: "prefix_set \<Rightarrow> nat" where
  "ps_lim s = fst (snd s)"

definition ps_near :: "prefix_set \<Rightarrow> ip \<Rightarrow> ip \<Rightarrow> bool" where
  "ps_near s a b \<longleftrightarrow> ip_prefix (fst s) a = ip_prefix (fst s) b"

definition ps_api :: "prefix_set netset_api" where
  "ps_api = \<lparr>ns_new = (\<lambda>sn l. (unat sn, unat l, [])),
     ns_Add = (\<lambda>s a. if ps_cnt s a < ps_lim s
        then (True, (fst s, ps_lim s, ip_prefix (fst s) a # snd (snd s))) else (False, s)),
     ns_Remove = (\<lambda>s a. (fst s, ps_lim s, remove1 (ip_prefix (fst s) a) (snd (snd s))))\<rparr>"

fun bitlen :: "nat \<Rightarrow> nat" where
  "bitlen n = (if n = 0 then 0 else Suc (bitlen (n div 2)))"

declare bitlen.simps [simp del]

definition ex_env :: "node_id \<Rightarrow> prefix_set table_ext" where
  "ex_env self = \<lparr>x_self = self, x_LogDist = (\<lambda>a b. bitlen (xor_dist a b)), x_DistCmp = xor_cmp,
     x_IsLAN = (\<lambda>a. take 1 (canon a) = [10] \<or> take 1 (canon a) = [127]), x_Validate = (\<lambda>_. None),
     x_ns = ps_api\<rparr>"

lemma length_12_split: "take 12 b = replicate 10 0 @ [255, 255] \<Longrightarrow> length b = 16 \<Longrightarrow>
    take 10 b = replicate 10 0 \<and> b ! 10 = 255 \<and> b ! 11 = (255 :: u8)"
proof -
  assume a: "take 12 b = replicate 10 0 @ [255, 255]" "length b = 16"
  have "take 10 b = take 10 (take 12 b)" "b ! 10 = take 12 b ! 10" "b ! 11 = take 12 b ! 11" by simp_all
  with a(1) show ?thesis by (simp add: nth_append)
qed

lemma canon_Equal: "ip_Equal a b \<Longrightarrow> canon a = canon b"
  by (auto simp: ip_Equal_def canon_def To4_def dest: length_12_split split: if_splits)

lemma bitlen_le: "n < 2 ^ k \<Longrightarrow> bitlen n \<le> k"
proof (induction k arbitrary: n)
  case 0
  then show ?case by (simp add: bitlen.simps[of 0])
next
  case (Suc k)
  then have "n div 2 < 2 ^ k" by simp
  with Suc.IH show ?case by (subst bitlen.simps) simp
qed

lemma remove1_filter_length:
  "length (filter (\<lambda>k. k = x) (remove1 y ks)) = length (filter (\<lambda>k. k = x) ks) - (if y = x then 1 else 0)"
  by (induction ks) (auto simp: Suc_diff_le length_greater_0_conv filter_empty_conv)

interpretation cnt_set: distinct_net_set ps_api ps_cnt ps_lim ps_near
  by unfold_locales
     (auto simp: ps_api_def ps_cnt_def ps_lim_def ps_near_def fun_eq_iff ip_prefix_def canon_Equal
        remove1_filter_length)

interpretation ex_table: table_env "ex_env self" ps_cnt ps_lim ps_near
proof (unfold_locales)
  show "x_LogDist (ex_env self) i j \<le> 256" for i j
  proof -
    have "xor_dist i j < 2 ^ 256" unfolding xor_dist_def using unsigned_less[of "xor j i"] by simp
    then show ?thesis using bitlen_le by (simp add: ex_env_def)
  qed
  show "x_IsLAN (ex_env self) a = x_IsLAN (ex_env self) b" if "ip_Equal a b" for a b
    using canon_Equal[OF that] by (simp add: ex_env_def)
qed (auto simp: ex_env_def cnt_set.distinct_net_set_axioms intro: cnt_set.near_sym cnt_set.near_trans
  cnt_set.near_Equal cnt_set.near_refl simp: cnt_set.cnt_new cnt_set.lim_new cnt_set.add_full cnt_set.add_room
  cnt_set.add_cnt cnt_set.add_lim cnt_set.add_near cnt_set.remove_cnt cnt_set.remove_lim cnt_set.remove_near)

end
