(* ===== verification/V4.thy ===== *)
theory V4
  imports Table_Inv
begin

text \<open>
  \<open>crawler/net/discovery/v4\<close>: the handler of the discv4 packets, on top of the node table. A handler run
  gets its environment (\<open>v4_env\<close>: clock, peer address, what \<open>SendRequest\<close> and \<open>Match\<close> answer) and
  returns the error, the new state and the actions it performed. The wire format and key handling
  (\<open>v4wire\<close>, \<open>crypto\<close>, \<open>enode\<close>, \<open>netutil\<close>) and the node database \<open>enode.DB\<close> are outside the
  repository: record \<open>v4_ext\<close>. A failed type assertion of the source is the outcome \<open>Panic\<close>.
\<close>

section \<open>Packets, configuration, errors\<close>

type_synonym pubkey = "u8 list"

record rpc_node =
  rn_ID :: pubkey
  rn_IP :: ip
  rn_UDP :: u16
  rn_TCP :: u16

text \<open>
  The fields the source reads and writes: \<open>Ping exp From.UDP From.TCP ENRSeq\<close>, \<open>Pong ReplyTok exp ENRSeq\<close>,
  \<open>Findnode Target exp\<close>, \<open>Neighbors Nodes exp\<close>, \<open>ENRRequest exp\<close>, \<open>ENRResponse ReplyTok Record\<close>.
\<close>

datatype v4packet =
    Ping u64 u16 u16 u64
  | Pong "u8 list" u64 u64
  | Findnode pubkey u64
  | Neighbors "rpc_node list" u64
  | ENRRequest u64
  | ENRResponse "u8 list" "u8 list"
  | OtherPacket

fun packet_name :: "v4packet \<Rightarrow> string" where
  "packet_name (Ping _ _ _ _) = ''PING/v4''"
| "packet_name (Pong _ _ _) = ''PONG/v4''"
| "packet_name (Findnode _ _) = ''FINDNODE/v4''"
| "packet_name (Neighbors _ _) = ''NEIGHBORS/v4''"
| "packet_name (ENRRequest _) = ''ENRREQUEST/v4''"
| "packet_name (ENRResponse _ _) = ''ENRRESPONSE/v4''"
| "packet_name OtherPacket = ''unknown''"

definition ErrUnknownPacket :: string where "ErrUnknownPacket = ''unknown packet''"
definition ErrWrongPacket :: string where "ErrWrongPacket = ''wrong packet''"
definition ErrExpired :: string where "ErrExpired = ''expired''"
definition ErrUnsolicitedReply :: string where "ErrUnsolicitedReply = ''unsolicited reply''"
definition ErrUnknownNode :: string where "ErrUnknownNode = ''unknown node''"
definition ErrLowPort :: string where "ErrLowPort = ''low port''"
definition ErrBondFailure :: string where "ErrBondFailure = ''bond failure''"
definition ErrHandlerDisabled :: string where "ErrHandlerDisabled = ''handler disabled''"

definition IsImportant :: "err \<Rightarrow> bool" where
  "IsImportant e =
     (if e = Some ErrHandlerDisabled then False
      else if e = Some ErrWrongPacket then False
      else if e = Some ErrUnknownPacket then False
      else if e = Some ErrExpired then False
      else True)"

definition BucketSize :: int where "BucketSize = 16"
definition bondExpiration :: int where "bondExpiration = 24 * Hour"
definition expiration :: int where "expiration = 20 * Second"
definition maxFindnodeFailures :: int where "maxFindnodeFailures = 5"
definition maxGlobalFailures :: u16 where "maxGlobalFailures = 5"

record v4_config =
  NeighbourAmount :: int
  ResponseEnr :: bool
  ResponseFindNode :: bool

definition DefaultConfig :: v4_config where
  "DefaultConfig = \<lparr>NeighbourAmount = BucketSize, ResponseEnr = True, ResponseFindNode = True\<rparr>"

definition validate :: "v4_config \<Rightarrow> v4_config" where
  "validate c = (if NeighbourAmount c < 0 \<or> 16 < NeighbourAmount c then c\<lparr>NeighbourAmount := BucketSize\<rparr> else c)"

section \<open>State and environment\<close>

record 'db v4_ext =
  vx_Expired :: "int \<Rightarrow> u64 \<Rightarrow> bool"
  vx_DecodePubkey :: "pubkey \<Rightarrow> string + pubkey"
  vx_NewV4 :: "pubkey \<Rightarrow> ip \<Rightarrow> int \<Rightarrow> int \<Rightarrow> enode"
  vx_LoadKey :: "enode \<Rightarrow> pubkey option"
  vx_New :: "u8 list \<Rightarrow> string + enode"
  vx_CheckRelayIP :: "ip \<Rightarrow> ip \<Rightarrow> err"
  vx_Encode :: "v4packet \<Rightarrow> string + (u8 list \<times> u8 list)"
  vx_Keccak :: "pubkey \<Rightarrow> node_id"
  vx_MaxNeighbors :: nat
  db_LastPong :: "'db \<Rightarrow> node_id \<Rightarrow> ip \<Rightarrow> int"
  db_UpdatePong :: "'db \<Rightarrow> node_id \<Rightarrow> ip \<Rightarrow> int \<Rightarrow> 'db"
  db_LastPing :: "'db \<Rightarrow> node_id \<Rightarrow> ip \<Rightarrow> int"
  db_UpdatePing :: "'db \<Rightarrow> node_id \<Rightarrow> ip \<Rightarrow> int \<Rightarrow> 'db"
  db_FindFails :: "'db \<Rightarrow> node_id \<Rightarrow> ip \<Rightarrow> int"

record ('s, 'db) v4_handler =
  v_cfg :: v4_config
  v_tab :: "'s Table"
  v_store :: 'db
  v_faults :: "node_id \<Rightarrow> u16 option"
  v_seq :: u64
  v_udp :: u16
  v_tcp :: u16

text \<open>\<open>v_udp\<close>, \<open>v_tcp\<close> and \<open>v_seq\<close> are what the identity holder's \<open>GetUdp\<close>, \<open>GetTcp\<close> and \<open>GetSequence\<close>
  return. \<open>ev_ping\<close> is the answer to the ping that a run may await: an error, or the peer's record sequence.\<close>

record v4_env =
  ev_now :: int
  ev_ip :: ip
  ev_port :: int
  ev_ping :: "string + u64"
  ev_match :: err
  ev_send :: "v4packet \<Rightarrow> err"

record wirePacket =
  w_src :: v4packet
  w_sender :: "pubkey option"
  w_exp :: "int option"

datatype outcome = Ret err | Panic

datatype v4_action =
    Sent node_id v4packet bool
  | Match node_id ip v4packet int

section \<open>Faults and bonds\<close>

definition isFaulty :: "node_id \<Rightarrow> (node_id \<Rightarrow> u16 option) \<Rightarrow> bool" where
  "isFaulty i m = (case m i of None \<Rightarrow> False | Some f \<Rightarrow> maxGlobalFailures < f)"

definition markFault :: "node_id \<Rightarrow> (node_id \<Rightarrow> u16 option) \<Rightarrow> (node_id \<Rightarrow> u16 option)" where
  "markFault i m = m(i \<mapsto> (case m i of None \<Rightarrow> 0 | Some f \<Rightarrow> f) + 1)"

definition clearFault :: "node_id \<Rightarrow> (node_id \<Rightarrow> u16 option) \<Rightarrow> (node_id \<Rightarrow> u16 option)" where
  "clearFault i m = m(i \<mapsto> 0)"

definition checkBond :: "'db v4_ext \<Rightarrow> int \<Rightarrow> node_id \<Rightarrow> ip \<Rightarrow> 'db \<Rightarrow> bool" where
  "checkBond V now i a d \<longleftrightarrow> now - db_LastPong V d i a < bondExpiration"

definition generatePing :: "v4_env \<Rightarrow> ('s, 'db) v4_handler \<Rightarrow> v4packet" where
  "generatePing E s = Ping (word_of_int (toUnix (ev_now E + expiration))) (v_udp s) (v_tcp s) (v_seq s)"

text \<open>\<open>makePingRequest\<close>: the sequence number, the error, the state after the callback, and the actions.\<close>

definition makePingRequest :: "'db v4_ext \<Rightarrow> v4_env \<Rightarrow> node_id \<Rightarrow> (('s, 'db) v4_handler \<Rightarrow> ('s, 'db) v4_handler) \<Rightarrow>
    ('s, 'db) v4_handler \<Rightarrow> (u64 \<times> err) \<times> ('s, 'db) v4_handler \<times> v4_action list" where
  "makePingRequest V E i callback s =
     (case vx_Encode V (generatePing E s) of
        Inl e \<Rightarrow> ((0, Some e), s, [])
      | Inr _ \<Rightarrow>
          let acts = [Sent i (generatePing E s) True] in
          (case ev_ping E of
             Inl e \<Rightarrow> ((0, Some e), s, acts)
           | Inr q \<Rightarrow> ((q, None), callback s, acts)))"

text \<open>\<open>tryBond\<close>: \<open>d2\<close> and \<open>now2\<close> are the database and the clock after the two seconds of waiting.\<close>

definition tryBond :: "'db v4_ext \<Rightarrow> v4_env \<Rightarrow> node_id \<Rightarrow> ip \<Rightarrow> int \<Rightarrow> 'db \<Rightarrow> ('s, 'db) v4_handler \<Rightarrow>
    bool \<times> ('s, 'db) v4_handler \<times> v4_action list" where
  "tryBond V E i a now2 d2 s =
     (let ask = \<not> checkBond V (ev_now E) i a (v_store s) \<or> maxFindnodeFailures < db_FindFails V (v_store s) i a in
      case (if ask then makePingRequest V E i (\<lambda>s. s) s else ((0, None), s, [])) of ((_, e), s1, acts) \<Rightarrow>
        if ask \<and> e \<noteq> None then (False, s1, acts)
        else if ev_now E - db_LastPing V (v_store s1) i a < bondExpiration then (True, s1, acts)
        else (now2 - db_LastPing V d2 i a < bondExpiration, s1, acts))"

definition sendAndForget :: "'db v4_ext \<Rightarrow> v4_env \<Rightarrow> node_id \<Rightarrow> v4packet \<Rightarrow> err \<times> v4_action list" where
  "sendAndForget V E i p =
     (case vx_Encode V p of Inl e \<Rightarrow> (Some e, []) | Inr _ \<Rightarrow> (ev_send E p, [Sent i p False]))"

section \<open>Ping and pong\<close>

definition VerifyPingRequest :: "'db v4_ext \<Rightarrow> v4_env \<Rightarrow> wirePacket \<Rightarrow> node_id \<Rightarrow> pubkey \<Rightarrow> ('s, 'db) v4_handler \<Rightarrow>
    outcome \<times> wirePacket \<times> ('s, 'db) v4_handler \<times> v4_action list" where
  "VerifyPingRequest V E p fromID fromKey s =
     (case w_src p of
        Ping ex udp tcp sq \<Rightarrow>
          if vx_Expired V (ev_now E) ex then (Ret (Some ErrExpired), p, s, [])
          else (case vx_DecodePubkey V fromKey of
                  Inl e \<Rightarrow> (Ret (Some e), p, s, [])
                | Inr k \<Rightarrow> (Ret None, p\<lparr>w_sender := Some k\<rparr>,
                     s\<lparr>v_store := db_UpdatePing V (v_store s) fromID (ev_ip E) (ev_now E)\<rparr>, []))
      | _ \<Rightarrow> (Ret (Some ErrWrongPacket), p, s, []))"

definition HandlePingRequest :: "'s table_ext \<Rightarrow> 'db v4_ext \<Rightarrow> v4_env \<Rightarrow> wirePacket \<Rightarrow> node_id \<Rightarrow> u8 list \<Rightarrow>
    ('s, 'db) v4_handler \<Rightarrow> outcome \<times> ('s, 'db) v4_handler \<times> v4_action list" where
  "HandlePingRequest X V E p fromID hash s =
     (case w_src p of
        Ping ex udp tcp sq \<Rightarrow>
          let pong = Pong hash ex (v_seq s) in
          (case vx_Encode V pong of
             Inl e \<Rightarrow> (Ret (Some e), s, [])
           | Inr _ \<Rightarrow>
               (case ev_send E pong of
                  Some e \<Rightarrow> (Ret (Some e), s, [Sent fromID pong False])
                | None \<Rightarrow>
                    (case w_sender p of
                       None \<Rightarrow> (Panic, s, [Sent fromID pong False])
                     | Some k \<Rightarrow>
                         let n = WrapNode (vx_NewV4 V k (ev_ip E) (uint tcp) (ev_port E));
                             add = (\<lambda>s. s\<lparr>v_tab := AddSeenNode X (ev_now E) (v_tab s) n\<rparr>)
                         in if bondExpiration < ev_now E - db_LastPong V (v_store s) (e_ID n) (ev_ip E)
                            then (case makePingRequest V E fromID add s of ((_, e), s1, acts) \<Rightarrow>
                                    (Ret e, s1, Sent fromID pong False # acts))
                            else (Ret None, add s, [Sent fromID pong False]))))
      | _ \<Rightarrow> (Ret (Some ErrWrongPacket), s, []))"

definition VerifyPongResponse :: "'db v4_ext \<Rightarrow> v4_env \<Rightarrow> wirePacket \<Rightarrow> node_id \<Rightarrow> pubkey \<Rightarrow> ('s, 'db) v4_handler \<Rightarrow>
    outcome \<times> wirePacket \<times> ('s, 'db) v4_handler \<times> v4_action list" where
  "VerifyPongResponse V E p fromID fromKey s =
     (case w_src p of
        Pong tok ex sq \<Rightarrow>
          if vx_Expired V (ev_now E) ex then (Ret (Some ErrExpired), p, s, [])
          else (Ret None, p, s\<lparr>v_store := db_UpdatePong V (v_store s) fromID (ev_ip E) (ev_now E)\<rparr>, [])
      | _ \<Rightarrow> (Ret (Some ErrWrongPacket), p, s, []))"

definition HandlePongResponse :: "v4_env \<Rightarrow> wirePacket \<Rightarrow> node_id \<Rightarrow> ('s, 'db) v4_handler \<Rightarrow>
    outcome \<times> ('s, 'db) v4_handler \<times> v4_action list" where
  "HandlePongResponse E p fromID s =
     (case w_src p of
        Pong tok ex sq \<Rightarrow> (Ret (ev_match E), s, [Match fromID (ev_ip E) (w_src p) (sint ex)])
      | _ \<Rightarrow> (Ret (Some ErrUnsolicitedReply), s, []))"

section \<open>Findnode\<close>

definition VerifyFindNodeRequest :: "'db v4_ext \<Rightarrow> v4_env \<Rightarrow> wirePacket \<Rightarrow> node_id \<Rightarrow> pubkey \<Rightarrow> ('s, 'db) v4_handler \<Rightarrow>
    outcome \<times> wirePacket \<times> ('s, 'db) v4_handler \<times> v4_action list" where
  "VerifyFindNodeRequest V E p fromID fromKey s =
     (if \<not> ResponseFindNode (v_cfg s) then (Ret (Some ErrHandlerDisabled), p, s, [])
      else case w_src p of
        Findnode target ex \<Rightarrow>
          if vx_Expired V (ev_now E) ex then (Ret (Some ErrExpired), p, s, [])
          else if \<not> checkBond V (ev_now E) fromID (ev_ip E) (v_store s) then (Ret (Some ErrUnknownNode), p, s, [])
          else (Ret None, p\<lparr>w_exp := Some (unix (sint ex))\<rparr>, s, [])
      | _ \<Rightarrow> (Ret (Some ErrWrongPacket), p, s, []))"

definition nodeToRPC :: "'db v4_ext \<Rightarrow> Node \<Rightarrow> rpc_node" where
  "nodeToRPC V n = \<lparr>rn_ID = (case vx_LoadKey V (Unwrap n) of Some k \<Rightarrow> k | None \<Rightarrow> replicate 64 0),
     rn_IP = e_IP n, rn_UDP = word_of_int (e_UDP n), rn_TCP = word_of_int (e_TCP n)\<rparr>"

text \<open>The loop of \<open>makeFindNodesResponse\<close> over the closest nodes: \<open>acc\<close> is \<open>raw_packet.Nodes\<close>.\<close>

fun neighbors_loop :: "'db v4_ext \<Rightarrow> v4_env \<Rightarrow> node_id \<Rightarrow> u64 \<Rightarrow> Node list \<Rightarrow> rpc_node list \<Rightarrow> bool \<Rightarrow>
    v4_action list \<Rightarrow> err \<times> v4_action list" where
  "neighbors_loop V E i ex [] acc sent acts =
     (if 0 < length acc \<or> \<not> sent
      then (case sendAndForget V E i (Neighbors acc ex) of (e, a) \<Rightarrow> (e, acts @ a))
      else (None, acts))"
| "neighbors_loop V E i ex (n # ns) acc sent acts =
     (if vx_CheckRelayIP V (ev_ip E) (e_IP n) \<noteq> None then neighbors_loop V E i ex ns acc sent acts
      else
        let acc' = acc @ [nodeToRPC V n] in
        if length acc' = vx_MaxNeighbors V
        then (case sendAndForget V E i (Neighbors acc' ex) of
                (Some e, a) \<Rightarrow> (Some e, acts @ a)
              | (None, a) \<Rightarrow> neighbors_loop V E i ex ns [] True (acts @ a))
        else neighbors_loop V E i ex ns acc' sent acts)"

definition makeFindNodesResponse :: "'s table_ext \<Rightarrow> 'db v4_ext \<Rightarrow> v4_env \<Rightarrow> pubkey \<Rightarrow> u64 \<Rightarrow> node_id \<Rightarrow>
    ('s, 'db) v4_handler \<Rightarrow> err \<times> v4_action list" where
  "makeFindNodesResponse X V E target ex i s =
     neighbors_loop V E i ex
       (nbd_entries (FindnodeByID X (v_tab s) (vx_Keccak V target) (NeighbourAmount (v_cfg s)) True)) [] False []"

definition HandleFindNodeRequest :: "'s table_ext \<Rightarrow> 'db v4_ext \<Rightarrow> v4_env \<Rightarrow> wirePacket \<Rightarrow> node_id \<Rightarrow>
    ('s, 'db) v4_handler \<Rightarrow> outcome \<times> ('s, 'db) v4_handler \<times> v4_action list" where
  "HandleFindNodeRequest X V E p fromID s =
     (case w_src p of
        Findnode target ex \<Rightarrow> (case makeFindNodesResponse X V E target ex fromID s of (e, acts) \<Rightarrow> (Ret e, s, acts))
      | _ \<Rightarrow> (Panic, s, []))"

definition VerifyFindNodeResponse :: "'db v4_ext \<Rightarrow> v4_env \<Rightarrow> wirePacket \<Rightarrow> node_id \<Rightarrow> pubkey \<Rightarrow> ('s, 'db) v4_handler \<Rightarrow>
    outcome \<times> wirePacket \<times> ('s, 'db) v4_handler \<times> v4_action list" where
  "VerifyFindNodeResponse V E p fromID fromKey s =
     (case w_src p of
        Neighbors ns ex \<Rightarrow> (Ret (if vx_Expired V (ev_now E) ex then Some ErrExpired else None), p, s, [])
      | _ \<Rightarrow> (Panic, p, s, []))"

definition HandleFindNodeResponse :: "v4_env \<Rightarrow> wirePacket \<Rightarrow> node_id \<Rightarrow> ('s, 'db) v4_handler \<Rightarrow>
    outcome \<times> ('s, 'db) v4_handler \<times> v4_action list" where
  "HandleFindNodeResponse E p fromID s =
     (case w_src p of
        Neighbors ns ex \<Rightarrow>
          (Ret (if ev_match E \<noteq> None then Some ErrUnsolicitedReply else None), s, [Match fromID (ev_ip E) (w_src p) (sint ex)])
      | _ \<Rightarrow> (Panic, s, []))"

definition nodeFromRPC :: "'s table_ext \<Rightarrow> 'db v4_ext \<Rightarrow> ip \<Rightarrow> rpc_node \<Rightarrow> string + enode" where
  "nodeFromRPC X V sender rn =
     (if rn_UDP rn \<le> 1024 then Inl ErrLowPort
      else case vx_CheckRelayIP V sender (rn_IP rn) of
        Some e \<Rightarrow> Inl e
      | None \<Rightarrow>
          (case vx_DecodePubkey V (rn_ID rn) of
             Inl e \<Rightarrow> Inl e
           | Inr k \<Rightarrow>
               let n = vx_NewV4 V k (rn_IP rn) (uint (rn_TCP rn)) (uint (rn_UDP rn)) in
               (case x_Validate X n of Some e \<Rightarrow> Inl e | None \<Rightarrow> Inr n)))"

text \<open>
  The verifier of \<open>makeFindNodeRequest\<close>: its private state is \<open>(nodes, nreceived)\<close>; it accepts every
  packet and is done once 16 nodes have been received. Then the result of the request.
\<close>

fun findnode_check :: "'s table_ext \<Rightarrow> 'db v4_ext \<Rightarrow> ip \<Rightarrow> rpc_node list \<Rightarrow> enode list \<times> int \<Rightarrow> enode list \<times> int" where
  "findnode_check X V sender [] c = c"
| "findnode_check X V sender (rn # rns) (nodes, k) =
     findnode_check X V sender rns
       (case nodeFromRPC X V sender rn of Inl e \<Rightarrow> nodes | Inr n \<Rightarrow> nodes @ [n], k + 1)"

definition findnode_verify :: "'s table_ext \<Rightarrow> 'db v4_ext \<Rightarrow> ip \<Rightarrow> enode list \<times> int \<Rightarrow> rpc_node list \<Rightarrow>
    bool \<times> bool \<times> (enode list \<times> int)" where
  "findnode_verify X V sender c rns =
     (let c' = findnode_check X V sender rns c in (True, BucketSize \<le> snd c', c'))"

definition findnode_result :: "err \<Rightarrow> enode list \<times> int \<Rightarrow> enode list \<times> err" where
  "findnode_result e c = (fst c, if e \<noteq> None \<and> snd c \<noteq> 0 then None else e)"

text \<open>\<open>replies\<close> are the \<open>Neighbors\<close> packets matched to the request and \<open>e\<close> the error it was settled with.\<close>

definition makeFindNodeRequest :: "'s table_ext \<Rightarrow> 'db v4_ext \<Rightarrow> v4_env \<Rightarrow> node_id \<Rightarrow> pubkey \<Rightarrow> err \<Rightarrow> rpc_node list list \<Rightarrow>
    (enode list \<times> err) \<times> v4_action list" where
  "makeFindNodeRequest X V E i key e replies =
     (let req = Findnode key (word_of_int (toUnix (ev_now E + expiration))) in
      case vx_Encode V req of
        Inl er \<Rightarrow> (([], Some er), [])
      | Inr _ \<Rightarrow> (findnode_result e (findnode_check X V (ev_ip E) (concat replies) ([], 0)), [Sent i req True]))"

definition MakeFindNodeRequest :: "'s table_ext \<Rightarrow> 'db v4_ext \<Rightarrow> v4_env \<Rightarrow> int \<Rightarrow> 'db \<Rightarrow> node_id \<Rightarrow> pubkey \<Rightarrow> err \<Rightarrow>
    rpc_node list list \<Rightarrow> ('s, 'db) v4_handler \<Rightarrow> (enode list \<times> err) \<times> ('s, 'db) v4_handler \<times> v4_action list" where
  "MakeFindNodeRequest X V E now2 d2 i key e replies s =
     (case tryBond V E i (ev_ip E) now2 d2 s of (ok, s1, acts) \<Rightarrow>
        if \<not> ok then (([], Some ErrBondFailure), s1, acts)
        else (case makeFindNodeRequest X V E i key e replies of (r, acts2) \<Rightarrow> (r, s1, acts @ acts2)))"

section \<open>Node records\<close>

definition verifyENRRequest :: "'db v4_ext \<Rightarrow> v4_env \<Rightarrow> wirePacket \<Rightarrow> node_id \<Rightarrow> pubkey \<Rightarrow> ('s, 'db) v4_handler \<Rightarrow>
    outcome \<times> wirePacket \<times> ('s, 'db) v4_handler \<times> v4_action list" where
  "verifyENRRequest V E p fromID fromKey s =
     (if \<not> ResponseEnr (v_cfg s) then (Ret (Some ErrHandlerDisabled), p, s, [])
      else case w_src p of
        ENRRequest ex \<Rightarrow>
          if vx_Expired V (ev_now E) ex then (Ret (Some ErrExpired), p, s, [])
          else if \<not> checkBond V (ev_now E) fromID (ev_ip E) (v_store s)
          then
            let s1 = s\<lparr>v_faults := markFault fromID (v_faults s)\<rparr> in
            if \<not> isFaulty fromID (v_faults s1)
            then (case makePingRequest V E fromID (\<lambda>s. s\<lparr>v_faults := clearFault fromID (v_faults s)\<rparr>) s1 of
                    (_, s2, acts) \<Rightarrow> (Ret (Some ErrUnknownNode), p, s2, acts))
            else (Ret (Some ErrUnknownNode), p, s1, [])
          else (Ret None, p, s, [])
      | _ \<Rightarrow> (Panic, p, s, []))"

definition handleENRRequest :: "'db v4_ext \<Rightarrow> v4_env \<Rightarrow> u8 list \<Rightarrow> node_id \<Rightarrow> u8 list \<Rightarrow> ('s, 'db) v4_handler \<Rightarrow>
    outcome \<times> ('s, 'db) v4_handler \<times> v4_action list" where
  "handleENRRequest V E rec fromID mac s =
     (case sendAndForget V E fromID (ENRResponse mac rec) of (e, acts) \<Rightarrow> (Ret e, s, acts))"

definition verifyEnrResponse :: "v4_env \<Rightarrow> wirePacket \<Rightarrow> node_id \<Rightarrow> pubkey \<Rightarrow> ('s, 'db) v4_handler \<Rightarrow>
    outcome \<times> wirePacket \<times> ('s, 'db) v4_handler \<times> v4_action list" where
  "verifyEnrResponse E p fromID fromKey s =
     (Ret (if ev_match E \<noteq> None then Some ErrUnsolicitedReply else None), p, s,
      [Match fromID (ev_ip E) (w_src p) (toUnix (ev_now E + 10 * Second))])"

text \<open>The end of \<open>makeEnrRequest\<close>: the checks on the record \<open>rec\<close> of the matched response.\<close>

definition enr_result :: "'db v4_ext \<Rightarrow> ip \<Rightarrow> enode \<Rightarrow> u8 list \<Rightarrow> string + enode" where
  "enr_result V addr n rec =
     (case vx_New V rec of
        Inl e \<Rightarrow> Inl e
      | Inr r \<Rightarrow>
          if e_ID r \<noteq> e_ID n then Inl ''invalid ID in response record''
          else if e_Seq r < e_Seq n then Inr n
          else (case vx_CheckRelayIP V addr (e_IP r) of
                  Some e \<Rightarrow> Inl (''invalid IP in response record: '' @ e)
                | None \<Rightarrow> Inr r))"

text \<open>\<open>ans\<close> is the awaited answer: an error, or the record of the response with the request's hash.\<close>

definition makeEnrRequest :: "'db v4_ext \<Rightarrow> v4_env \<Rightarrow> enode \<Rightarrow> string + u8 list \<Rightarrow> (string + enode) \<times> v4_action list" where
  "makeEnrRequest V E n ans =
     (let req = ENRRequest (word_of_int (toUnix (ev_now E + expiration))) in
      case vx_Encode V req of
        Inl e \<Rightarrow> (Inl e, [])
      | Inr _ \<Rightarrow> (case ans of Inl e \<Rightarrow> Inl e | Inr rec \<Rightarrow> enr_result V (ev_ip E) n rec, [Sent (e_ID n) req True]))"

definition MakeEnrRequest :: "'db v4_ext \<Rightarrow> v4_env \<Rightarrow> int \<Rightarrow> 'db \<Rightarrow> enode \<Rightarrow> string + u8 list \<Rightarrow>
    ('s, 'db) v4_handler \<Rightarrow> (string + enode) \<times> ('s, 'db) v4_handler \<times> v4_action list" where
  "MakeEnrRequest V E now2 d2 n ans s =
     (case tryBond V E (e_ID n) (ev_ip E) now2 d2 s of (ok, s1, acts) \<Rightarrow>
        if \<not> ok then (Inl ErrBondFailure, s1, acts)
        else (case makeEnrRequest V E n ans of (r, acts2) \<Rightarrow> (r, s1, acts @ acts2)))"

section \<open>Dispatch\<close>

text \<open>\<open>HandlePacket\<close> with \<open>selectReactor\<close>: \<open>decoded\<close> is the result of \<open>v4wire.Decode\<close>, \<open>rec\<close> the local
  record. The result is the error and the method name.\<close>

definition HandlePacket :: "'s table_ext \<Rightarrow> 'db v4_ext \<Rightarrow> v4_env \<Rightarrow> u8 list \<Rightarrow>
    string + (v4packet \<times> node_id \<times> pubkey \<times> u8 list) \<Rightarrow> ('s, 'db) v4_handler \<Rightarrow>
    (outcome \<times> string) \<times> ('s, 'db) v4_handler \<times> v4_action list" where
  "HandlePacket X V E rec decoded s =
     (case decoded of
        Inl e \<Rightarrow> ((Ret (Some e), ''unknown''), s, [])
      | Inr (pkt, fromID, fromKey, hash) \<Rightarrow>
          let p = \<lparr>w_src = pkt, w_sender = None, w_exp = None\<rparr>; name = packet_name pkt;
              run = (\<lambda>pre handle. case pre p fromID fromKey s of
                 (Ret None, p', s1, acts1) \<Rightarrow>
                   (case handle p' s1 of (r, s2, acts2) \<Rightarrow> ((r, name), s2, acts1 @ acts2))
               | (r, p', s1, acts1) \<Rightarrow> ((r, name), s1, acts1))
          in case pkt of
               Ping _ _ _ _ \<Rightarrow> run (VerifyPingRequest V E) (\<lambda>p s. HandlePingRequest X V E p fromID hash s)
             | Pong _ _ _ \<Rightarrow> run (VerifyPongResponse V E) (\<lambda>p s. HandlePongResponse E p fromID s)
             | Findnode _ _ \<Rightarrow> run (VerifyFindNodeRequest V E) (\<lambda>p s. HandleFindNodeRequest X V E p fromID s)
             | Neighbors _ _ \<Rightarrow> run (VerifyFindNodeResponse V E) (\<lambda>p s. HandleFindNodeResponse E p fromID s)
             | ENRResponse _ _ \<Rightarrow> run (verifyEnrResponse E) (\<lambda>p s. (Ret None, s, []))
             | ENRRequest _ \<Rightarrow> run (verifyENRRequest V E) (\<lambda>p s. handleENRRequest V E rec fromID hash s)
             | OtherPacket \<Rightarrow> ((Ret (Some ErrUnknownPacket), ''unknown''), s, []))"

section \<open>Lemmas\<close>

lemmas handler_defs = VerifyPingRequest_def HandlePingRequest_def VerifyPongResponse_def HandlePongResponse_def
  VerifyFindNodeRequest_def HandleFindNodeRequest_def VerifyFindNodeResponse_def HandleFindNodeResponse_def
  verifyENRRequest_def handleENRRequest_def verifyEnrResponse_def makePingRequest_def

lemmas handler_splits = sum.splits option.splits if_splits prod.splits v4packet.splits outcome.splits

text \<open>Only a ping can change the table.\<close>

lemma makePing_tab:
  "(\<And>t. v_tab (cb t) = v_tab t) \<Longrightarrow> v_tab (fst (snd (makePingRequest V E i cb s))) = v_tab s"
  by (auto simp: makePingRequest_def Let_def split: sum.splits)

lemma ping_tab:
  assumes "w_src p = Ping ex udp tcp sq" "HandlePingRequest X V E p i h s = (r, s', acts)"
  shows "v_tab s' = v_tab s \<or> (\<exists>k. w_sender p = Some k
      \<and> v_tab s' = AddSeenNode X (ev_now E) (v_tab s) (WrapNode (vx_NewV4 V k (ev_ip E) (uint tcp) (ev_port E)))
      \<and> (ev_now E - db_LastPong V (v_store s) (e_ID (vx_NewV4 V k (ev_ip E) (uint tcp) (ev_port E))) (ev_ip E) \<le> bondExpiration
         \<or> (\<exists>q. ev_ping E = Inr q)))"
  using assms by (auto simp: HandlePingRequest_def makePingRequest_def Let_def split: handler_splits)

lemma verify_tab:
  "v_tab (fst (snd (snd (VerifyPingRequest V E p i k s)))) = v_tab s"
  "v_tab (fst (snd (snd (VerifyPongResponse V E p i k s)))) = v_tab s"
  "v_tab (fst (snd (snd (VerifyFindNodeRequest V E p i k s)))) = v_tab s"
  "v_tab (fst (snd (snd (VerifyFindNodeResponse V E p i k s)))) = v_tab s"
  "v_tab (fst (snd (snd (verifyEnrResponse E p i k s)))) = v_tab s"
  "v_tab (fst (snd (snd (verifyENRRequest V E p i k s)))) = v_tab s"
  by (auto simp: handler_defs Let_def split: handler_splits)

text \<open>How a packet runs through its reactor.\<close>

lemma HandlePacket_error: "HandlePacket X V E rec (Inl e) s = ((Ret (Some e), ''unknown''), s, [])"
  by (simp add: HandlePacket_def)

lemma HandlePacket_other:
  "HandlePacket X V E rec (Inr (OtherPacket, i, k, h)) s = ((Ret (Some ErrUnknownPacket), ''unknown''), s, [])"
  by (simp add: HandlePacket_def Let_def)

lemma HandlePacket_ping:
  "HandlePacket X V E rec (Inr (Ping ex udp tcp sq, i, k, h)) s =
     (if vx_Expired V (ev_now E) ex then ((Ret (Some ErrExpired), ''PING/v4''), s, [])
      else case vx_DecodePubkey V k of
        Inl e \<Rightarrow> ((Ret (Some e), ''PING/v4''), s, [])
      | Inr pk \<Rightarrow>
         (case HandlePingRequest X V E \<lparr>w_src = Ping ex udp tcp sq, w_sender = Some pk, w_exp = None\<rparr> i h
                 (s\<lparr>v_store := db_UpdatePing V (v_store s) i (ev_ip E) (ev_now E)\<rparr>) of
            (r, s', acts) \<Rightarrow> ((r, ''PING/v4''), s', acts)))"
  by (simp add: HandlePacket_def VerifyPingRequest_def Let_def split: sum.splits)

lemma HandlePacket_findnode:
  "HandlePacket X V E rec (Inr (Findnode t ex, i, k, h)) s =
     (if \<not> ResponseFindNode (v_cfg s) then ((Ret (Some ErrHandlerDisabled), ''FINDNODE/v4''), s, [])
      else if vx_Expired V (ev_now E) ex then ((Ret (Some ErrExpired), ''FINDNODE/v4''), s, [])
      else if \<not> checkBond V (ev_now E) i (ev_ip E) (v_store s) then ((Ret (Some ErrUnknownNode), ''FINDNODE/v4''), s, [])
      else (case makeFindNodesResponse X V E t ex i s of (e, acts) \<Rightarrow> ((Ret e, ''FINDNODE/v4''), s, acts)))"
  by (simp add: HandlePacket_def VerifyFindNodeRequest_def HandleFindNodeRequest_def Let_def split: prod.splits)

lemma HandlePacket_enr:
  "HandlePacket X V E rec (Inr (ENRRequest ex, i, k, h)) s =
     (case verifyENRRequest V E \<lparr>w_src = ENRRequest ex, w_sender = None, w_exp = None\<rparr> i k s of
        (Ret None, p', s1, acts1) \<Rightarrow>
          (case handleENRRequest V E rec i h s1 of (r, s2, acts2) \<Rightarrow> ((r, ''ENRREQUEST/v4''), s2, acts1 @ acts2))
      | (r, p', s1, acts1) \<Rightarrow> ((r, ''ENRREQUEST/v4''), s1, acts1))"
  by (auto simp: HandlePacket_def Let_def split: prod.splits outcome.splits option.splits)

lemma HandlePacket_pong:
  "HandlePacket X V E rec (Inr (Pong tok ex sq, i, k, h)) s =
     (if vx_Expired V (ev_now E) ex then ((Ret (Some ErrExpired), ''PONG/v4''), s, [])
      else ((Ret (ev_match E), ''PONG/v4''), s\<lparr>v_store := db_UpdatePong V (v_store s) i (ev_ip E) (ev_now E)\<rparr>,
            [Match i (ev_ip E) (Pong tok ex sq) (sint ex)]))"
  by (simp add: HandlePacket_def VerifyPongResponse_def HandlePongResponse_def Let_def)

lemma HandlePacket_neighbors:
  "HandlePacket X V E rec (Inr (Neighbors ns ex, i, k, h)) s =
     (if vx_Expired V (ev_now E) ex then ((Ret (Some ErrExpired), ''NEIGHBORS/v4''), s, [])
      else ((Ret (if ev_match E \<noteq> None then Some ErrUnsolicitedReply else None), ''NEIGHBORS/v4''), s,
            [Match i (ev_ip E) (Neighbors ns ex) (sint ex)]))"
  by (simp add: HandlePacket_def VerifyFindNodeResponse_def HandleFindNodeResponse_def Let_def)

lemma HandlePacket_enrresp:
  "HandlePacket X V E rec (Inr (ENRResponse t r, i, k, h)) s =
     ((Ret (if ev_match E \<noteq> None then Some ErrUnsolicitedReply else None), ''ENRRESPONSE/v4''), s,
      [Match i (ev_ip E) (ENRResponse t r) (toUnix (ev_now E + 10 * Second))])"
  by (simp add: HandlePacket_def verifyEnrResponse_def Let_def)

lemmas HandlePacket_simps = HandlePacket_error HandlePacket_other HandlePacket_ping HandlePacket_findnode
  HandlePacket_enr HandlePacket_pong HandlePacket_neighbors HandlePacket_enrresp

lemma decoded_cases:
  obtains e where "d = Inl e" | p i k h where "d = Inr (p, i, k, h)"
  by (metis prod_cases4 sum.exhaust_sel)

text \<open>The endpoint proof: what a change of the table requires.\<close>

definition proven :: "'db v4_ext \<Rightarrow> v4_env \<Rightarrow> enode \<Rightarrow> 'db \<Rightarrow> bool" where
  "proven V E n d \<longleftrightarrow> ev_now E - db_LastPong V d (e_ID n) (ev_ip E) \<le> bondExpiration \<or> (\<exists>q. ev_ping E = Inr q)"

lemma HandlePacket_tab:
  assumes "HandlePacket X V E rec d s = (r, s', acts)" "v_tab s' \<noteq> v_tab s"
  shows "\<exists>ex udp tcp sq i k h pk. d = Inr (Ping ex udp tcp sq, i, k, h) \<and> vx_DecodePubkey V k = Inr pk
    \<and> v_tab s' = AddSeenNode X (ev_now E) (v_tab s) (WrapNode (vx_NewV4 V pk (ev_ip E) (uint tcp) (ev_port E)))
    \<and> proven V E (vx_NewV4 V pk (ev_ip E) (uint tcp) (ev_port E)) (db_UpdatePing V (v_store s) i (ev_ip E) (ev_now E))"
proof (cases d rule: decoded_cases)
  case (2 p i k h)
  show ?thesis
  proof (cases p)
    case (Ping ex udp tcp sq)
    with assms 2 obtain pk r1 where pk: "vx_DecodePubkey V k = Inr pk"
      "HandlePingRequest X V E \<lparr>w_src = Ping ex udp tcp sq, w_sender = Some pk, w_exp = None\<rparr> i h
        (s\<lparr>v_store := db_UpdatePing V (v_store s) i (ev_ip E) (ev_now E)\<rparr>) = (r1, s', acts)"
      by (auto simp: HandlePacket_ping split: sum.splits if_splits prod.splits)
    from ping_tab[OF _ this(2)] pk(1) assms(2) 2 Ping show ?thesis by (simp add: proven_def)
  next
    case (ENRRequest ex)
    have "v_tab s' = v_tab s"
      using assms(1) 2 ENRRequest
      by (auto simp: HandlePacket_enr verifyENRRequest_def handleENRRequest_def makePingRequest_def sendAndForget_def Let_def
          split: handler_splits)
    with assms(2) show ?thesis by simp
  qed (use assms 2 in \<open>auto simp: HandlePacket_simps split: if_splits prod.splits\<close>)
qed (use assms in \<open>simp add: HandlePacket_error\<close>)

lemma HandlePacket_no_panic:
  assumes "HandlePacket X V E rec d s = ((r, name), s', acts)"
  shows "r \<noteq> Panic"
proof (cases d rule: decoded_cases)
  case (2 p i k h)
  show ?thesis
  proof (cases p)
    case (Ping ex udp tcp sq)
    with assms 2 show ?thesis
      by (auto simp: HandlePacket_ping HandlePingRequest_def Let_def split: sum.splits if_splits prod.splits option.splits)
  next
    case (ENRRequest ex)
    with assms 2 show ?thesis
      by (auto simp: HandlePacket_enr verifyENRRequest_def handleENRRequest_def makePingRequest_def sendAndForget_def Let_def
          split: handler_splits)
  qed (use assms 2 in \<open>auto simp: HandlePacket_simps split: if_splits prod.splits\<close>)
qed (use assms in \<open>auto simp: HandlePacket_error\<close>)

text \<open>Splitting the neighbours into packets.\<close>

definition relayable :: "'db v4_ext \<Rightarrow> v4_env \<Rightarrow> Node list \<Rightarrow> rpc_node list" where
  "relayable V E ns = map (nodeToRPC V) (filter (\<lambda>n. vx_CheckRelayIP V (ev_ip E) (e_IP n) = None) ns)"

definition chunked :: "nat \<Rightarrow> rpc_node list list \<Rightarrow> rpc_node list \<Rightarrow> bool" where
  "chunked m cs ns \<longleftrightarrow> concat cs = ns \<and> (\<forall>c \<in> set cs. length c \<le> m) \<and> (\<forall>c \<in> set (butlast cs). length c = m)"

lemma neighbors_loop_chunks:
  assumes "0 < vx_MaxNeighbors V" "\<forall>p. ev_send E p = None" "\<forall>p. \<exists>b. vx_Encode V p = Inr b"
  shows "length acc < vx_MaxNeighbors V \<Longrightarrow>
    \<exists>cs. neighbors_loop V E i ex ns acc sent acts = (None, acts @ map (\<lambda>c. Sent i (Neighbors c ex) False) cs)
      \<and> chunked (vx_MaxNeighbors V) cs (acc @ relayable V E ns)
      \<and> (cs = [] \<longrightarrow> sent) \<and> ([] \<in> set cs \<longrightarrow> cs = [[]] \<and> \<not> sent)"
proof (induction ns arbitrary: acc sent acts)
  have send: "sendAndForget V E i p = (None, [Sent i p False])" for p
  proof -
    obtain b where "vx_Encode V p = Inr b" using assms(3) by blast
    with assms(2) show ?thesis by (simp add: sendAndForget_def)
  qed
  {
    case Nil
    show ?case
    proof (cases "0 < length acc \<or> \<not> sent")
      case True
      with Nil show ?thesis by (intro exI[of _ "[acc]"]) (auto simp: send chunked_def relayable_def)
    qed (auto simp: chunked_def relayable_def)
  next
    case (Cons n ns)
    let ?m = "vx_MaxNeighbors V" and ?a = "acc @ [nodeToRPC V n]"
    show ?case
    proof (cases "vx_CheckRelayIP V (ev_ip E) (e_IP n) = None")
      case False
      then obtain y where "vx_CheckRelayIP V (ev_ip E) (e_IP n) = Some y" by auto
      then show ?thesis using Cons.IH[OF Cons.prems, of sent acts] by (simp add: relayable_def)
    next
      case ok: True
      show ?thesis
      proof (cases "length ?a = ?m")
        case False
        then have "length ?a < ?m" using Cons.prems by simp
        from Cons.IH[OF this, of sent acts] False ok show ?thesis by (simp add: relayable_def)
      next
        case full: True
        obtain cs where cs: "neighbors_loop V E i ex ns [] True (acts @ [Sent i (Neighbors ?a ex) False])
            = (None, (acts @ [Sent i (Neighbors ?a ex) False]) @ map (\<lambda>c. Sent i (Neighbors c ex) False) cs)"
          "chunked ?m cs (relayable V E ns)" "[] \<notin> set cs"
          using Cons.IH[of "[]" True "acts @ [Sent i (Neighbors ?a ex) False]"] assms(1) by auto
        with full ok show ?thesis
          by (intro exI[of _ "?a # cs"]) (auto simp: send chunked_def relayable_def)
      qed
    qed
  }
qed

text \<open>Only answers to verified requests leave the node.\<close>

lemma neighbors_loop_sent:
  "neighbors_loop V E i ex ns acc sent acts = (e, acts') \<Longrightarrow> a \<in> set acts' \<Longrightarrow> a \<in> set acts \<or> (\<exists>c. a = Sent i (Neighbors c ex) False)"
  by (induction V E i ex ns acc sent acts arbitrary: e acts' rule: neighbors_loop.induct)
     (auto simp: sendAndForget_def Let_def split: if_splits sum.splits option.splits prod.splits)

lemma HandlePacket_sent:
  assumes "HandlePacket X V E rec d s = (r, s', acts)" "Sent j (Neighbors c ex') aw \<in> set acts \<or> Sent j (ENRResponse t r') aw \<in> set acts"
  shows "\<exists>p k h. d = Inr (p, j, k, h) \<and> checkBond V (ev_now E) j (ev_ip E) (v_store s)
    \<and> ((\<exists>tgt ex. p = Findnode tgt ex \<and> \<not> vx_Expired V (ev_now E) ex \<and> ResponseFindNode (v_cfg s))
       \<or> (\<exists>ex. p = ENRRequest ex \<and> \<not> vx_Expired V (ev_now E) ex \<and> ResponseEnr (v_cfg s)))"
proof (cases d rule: decoded_cases)
  case (2 p i k h)
  show ?thesis
  proof (cases p)
    case (Findnode tgt ex)
    with assms 2 show ?thesis
      by (auto simp: HandlePacket_findnode makeFindNodesResponse_def split: if_splits prod.splits dest: neighbors_loop_sent)
  next
    case (Ping ex udp tcp sq)
    with assms 2 show ?thesis
      by (auto simp: HandlePacket_ping HandlePingRequest_def makePingRequest_def generatePing_def Let_def
          split: sum.splits if_splits prod.splits option.splits)
  next
    case (ENRRequest ex)
    with assms 2 show ?thesis
      by (auto simp: HandlePacket_enr verifyENRRequest_def handleENRRequest_def makePingRequest_def sendAndForget_def
          generatePing_def Let_def split: handler_splits)
  qed (use assms 2 in \<open>auto simp: HandlePacket_simps split: if_splits prod.splits\<close>)
qed (use assms in \<open>auto simp: HandlePacket_error\<close>)

lemma findnode_check_split:
  "findnode_check X V a rns (nodes, k) = (nodes @ fst (findnode_check X V a rns ([], 0)), k + int (length rns))"
proof (induction rns arbitrary: nodes k)
  case (Cons rn rns)
  show ?case
    using Cons.IH[of "case nodeFromRPC X V a rn of Inl e \<Rightarrow> nodes | Inr n \<Rightarrow> nodes @ [n]" "k + 1"]
      Cons.IH[of "case nodeFromRPC X V a rn of Inl e \<Rightarrow> [] | Inr n \<Rightarrow> [] @ [n]" "0 + 1"]
    by (auto split: sum.splits)
qed simp

lemma findnode_check_nodes:
  "n \<in> set (fst (findnode_check X V a rns ([], 0))) \<Longrightarrow> \<exists>rn \<in> set rns. nodeFromRPC X V a rn = Inr n"
proof (induction rns)
  case (Cons rn rns)
  then show ?case
    using findnode_check_split[of X V a rns "case nodeFromRPC X V a rn of Inl e \<Rightarrow> [] | Inr n \<Rightarrow> [n]" 1]
    by (auto split: sum.splits)
qed simp

lemma nodeFromRPC_ok:
  "nodeFromRPC X V a rn = Inr n \<Longrightarrow> 1024 < rn_UDP rn \<and> vx_CheckRelayIP V a (rn_IP rn) = None \<and> x_Validate X n = None"
  by (auto simp: nodeFromRPC_def Let_def not_le split: if_splits option.splits sum.splits)

lemma findnode_request_nodes:
  "makeFindNodeRequest X V E i key e replies = ((nodes, er), acts) \<Longrightarrow> n \<in> set nodes \<Longrightarrow>
    \<exists>rn \<in> set (concat replies). nodeFromRPC X V (ev_ip E) rn = Inr n"
  using findnode_check_nodes[of n X V "ev_ip E" "concat replies"]
  by (auto simp: makeFindNodeRequest_def findnode_result_def Let_def split: sum.splits)

text \<open>\<open>k\<close> ENR requests of an unbonded peer whose pings fail: which of them cause a ping.\<close>

definition enr_probe :: "'db v4_ext \<Rightarrow> v4_env \<Rightarrow> u64 \<Rightarrow> node_id \<Rightarrow> ('s, 'db) v4_handler \<Rightarrow> bool \<times> ('s, 'db) v4_handler" where
  "enr_probe V E ex i s =
     (case verifyENRRequest V E \<lparr>w_src = ENRRequest ex, w_sender = None, w_exp = None\<rparr> i [] s of
        (_, _, s', acts) \<Rightarrow> (acts \<noteq> [], s'))"

fun enr_probes :: "'db v4_ext \<Rightarrow> v4_env \<Rightarrow> u64 \<Rightarrow> node_id \<Rightarrow> nat \<Rightarrow> ('s, 'db) v4_handler \<Rightarrow> bool list" where
  "enr_probes V E ex i 0 s = []"
| "enr_probes V E ex i (Suc n) s = (case enr_probe V E ex i s of (b, s') \<Rightarrow> b # enr_probes V E ex i n s')"

lemma enr_probe_step:
  assumes "ResponseEnr (v_cfg s)" "\<not> vx_Expired V (ev_now E) ex" "\<not> checkBond V (ev_now E) i (ev_ip E) (v_store s)"
    and "\<forall>p. \<exists>b. vx_Encode V p = Inr b" "ev_ping E = Inl err"
  shows "enr_probe V E ex i s = (\<not> isFaulty i (markFault i (v_faults s)), s\<lparr>v_faults := markFault i (v_faults s)\<rparr>)"
proof -
  obtain b where "vx_Encode V (generatePing E (s\<lparr>v_faults := markFault i (v_faults s)\<rparr>)) = Inr b" using assms(4) by blast
  with assms show ?thesis by (simp add: enr_probe_def verifyENRRequest_def makePingRequest_def Let_def)
qed

lemma enr_probes_count:
  assumes "ResponseEnr (v_cfg s)" "\<not> vx_Expired V (ev_now E) ex" "\<not> checkBond V (ev_now E) i (ev_ip E) (v_store s)"
    and "\<forall>p. \<exists>b. vx_Encode V p = Inr b" "ev_ping E = Inl err"
    and "(case v_faults s i of None \<Rightarrow> 0 | Some f \<Rightarrow> f) = of_nat k"
  shows "enr_probes V E ex i n s = map (\<lambda>j. (of_nat (k + j) :: u16) \<le> maxGlobalFailures) [1..<Suc n]"
  using assms(1,3,6)
proof (induction n arbitrary: s k)
  case (Suc n)
  have c: "(case v_faults s i of None \<Rightarrow> 0 | Some f \<Rightarrow> f) + 1 = (of_nat (Suc k) :: u16)"
    using Suc.prems(3) by simp
  have "enr_probes V E ex i n (s\<lparr>v_faults := markFault i (v_faults s)\<rparr>)
      = map (\<lambda>j. (of_nat (Suc k + j) :: u16) \<le> maxGlobalFailures) [1..<Suc n]"
    using Suc.prems c by (intro Suc.IH) (simp_all add: markFault_def)
  moreover have "map (\<lambda>j. (of_nat (k + j) :: u16) \<le> maxGlobalFailures) [1..<Suc (Suc n)]
      = ((of_nat (Suc k) :: u16) \<le> maxGlobalFailures) # map (\<lambda>j. (of_nat (Suc k + j) :: u16) \<le> maxGlobalFailures) [1..<Suc n]"
    by (simp add: upt_conv_Cons map_Suc_upt[symmetric] del: upt_Suc of_nat_Suc of_nat_add) 
  ultimately show ?case
    using enr_probe_step[OF Suc.prems(1) assms(2) Suc.prems(2) assms(4,5)] c
    by (simp add: isFaulty_def markFault_def not_less del: upt_Suc of_nat_Suc)
qed simp

end
