(* ===== verification/Table_Run.thy ===== *)
theory Table_Run
  imports Table_Inv
begin

text \<open>
  The main loop of the table (\<open>Table.Run\<close> with the goroutines it starts) as a transition system. A
  state holds the table, the refresh goroutine (\<open>refreshDone\<close>), the channels that wait for it and the
  channels closed so far (channel 0 is \<open>initDone\<close>), whether the revalidation timer is armed, and how
  far the revalidation goroutine has come. Table operations take the table mutex, so they are the
  atomic steps; network calls happen between them. The second half derives the properties of the
  node table that its users rely on.
\<close>

section \<open>The loop\<close>

datatype refresh_phase = RIdle | RRunning | RDone

datatype reval_phase = VIdle | VPicking | VPinging Node nat | VDone

datatype loop_phase = Looping | Draining | Flushed | Closed

record 's run_state =
  r_tab :: "'s Table"
  r_refresh :: refresh_phase
  r_waiting :: "nat list"
  r_closed :: "nat list"
  r_armed :: bool
  r_reval :: reval_phase
  r_loop :: loop_phase

definition start_refresh :: "'s run_state \<Rightarrow> 's run_state" where
  "start_refresh s = (if r_refresh s = RIdle then s\<lparr>r_refresh := RRunning\<rparr> else s)"

text \<open>\<open>for _, ch := range waiting { close(ch) }\<close>; closing channel 0 completes the initialisation.\<close>

definition close_waiting :: "'s run_state \<Rightarrow> 's run_state" where
  "close_waiting s = s\<lparr>r_closed := r_closed s @ r_waiting s, r_waiting := [],
     r_tab := (r_tab s)\<lparr>initDone := initDone (r_tab s) \<or> 0 \<in> set (r_waiting s)\<rparr>\<rparr>"

definition run_init :: "'s table_ext \<Rightarrow> ip_limits \<Rightarrow> bool \<Rightarrow> 's run_state \<Rightarrow> bool" where
  "run_init X L ign s \<longleftrightarrow> (\<exists>now seeds boot tab. snd (NewTable X L now seeds boot ign) = Inr tab \<and>
     s = \<lparr>r_tab = tab, r_refresh = RRunning, r_waiting = [0], r_closed = [], r_armed = True,
          r_reval = VIdle, r_loop = Looping\<rparr>)"

text \<open>
  \<open>seen\<close> is any call of \<open>AddSeenNode\<close>: the seeds that the refresh goroutine loads and the peers the
  packet handlers have verified. A failed ping reports the sequence number 0 (\<open>makePingRequest\<close> returns
  \<open>0, err\<close>), and \<open>rnd\<close> is \<open>rand.Intn\<close>. After \<open>closeReq\<close> the loop drains: it waits for the refresh
  goroutine, closes the waiting channels, waits for the revalidation goroutine and closes \<open>closed\<close>.
\<close>

inductive run_step :: "'s table_ext \<Rightarrow> 's run_state \<Rightarrow> 's run_state \<Rightarrow> bool" for X :: "'s table_ext" where
  seen: "run_step X s (s\<lparr>r_tab := AddSeenNode X now (r_tab s) n\<rparr>)"
| refresh_tick: "r_loop s = Looping \<Longrightarrow> run_step X s (start_refresh s)"
| refresh_req: "r_loop s = Looping \<Longrightarrow> ch \<notin> set (r_closed s) \<union> set (r_waiting s) \<Longrightarrow>
    run_step X s (start_refresh (s\<lparr>r_waiting := r_waiting s @ [ch]\<rparr>))"
| refresh_refused: "r_loop s \<noteq> Looping \<Longrightarrow> ch \<notin> set (r_closed s) \<union> set (r_waiting s) \<Longrightarrow>
    run_step X s (s\<lparr>r_closed := r_closed s @ [ch]\<rparr>)"
| refresh_end: "r_refresh s = RRunning \<Longrightarrow> run_step X s (s\<lparr>r_refresh := RDone\<rparr>)"
| refresh_done: "r_loop s = Looping \<Longrightarrow> r_refresh s = RDone \<Longrightarrow>
    run_step X s ((close_waiting s)\<lparr>r_refresh := RIdle\<rparr>)"
| reval_fire: "r_loop s = Looping \<Longrightarrow> r_armed s \<Longrightarrow> run_step X s (s\<lparr>r_armed := False, r_reval := VPicking\<rparr>)"
| reval_none: "r_reval s = VPicking \<Longrightarrow> mset perm = mset [0..<nBuckets] \<Longrightarrow>
    nodeToRevalidate perm (r_tab s) = None \<Longrightarrow> run_step X s (s\<lparr>r_reval := VDone\<rparr>)"
| reval_pick: "r_reval s = VPicking \<Longrightarrow> mset perm = mset [0..<nBuckets] \<Longrightarrow>
    nodeToRevalidate perm (r_tab s) = Some (n, bi) \<Longrightarrow> run_step X s (s\<lparr>r_reval := VPinging n bi\<rparr>)"
| reval_finish: "r_reval s = VPinging n bi \<Longrightarrow> (\<And>k. 0 < k \<Longrightarrow> rnd k < k) \<Longrightarrow>
    (snd ping \<noteq> None \<Longrightarrow> fst ping = 0) \<Longrightarrow>
    run_step X s (s\<lparr>r_tab := doRevalidate X rnd ping enr n bi (r_tab s), r_reval := VDone\<rparr>)"
| reval_done: "r_loop s = Looping \<Longrightarrow> r_reval s = VDone \<Longrightarrow> run_step X s (s\<lparr>r_reval := VIdle, r_armed := True\<rparr>)"
| close_req: "r_loop s = Looping \<Longrightarrow> run_step X s (s\<lparr>r_loop := Draining\<rparr>)"
| close_flush: "r_loop s = Draining \<Longrightarrow> r_refresh s \<noteq> RRunning \<Longrightarrow>
    run_step X s ((close_waiting s)\<lparr>r_loop := Flushed\<rparr>)"
| close_end: "r_loop s = Flushed \<Longrightarrow> r_reval s \<in> {VIdle, VDone} \<Longrightarrow> run_step X s (s\<lparr>r_loop := Closed\<rparr>)"

inductive_cases run_stepE: "run_step X s t"

definition lims :: "('s \<Rightarrow> nat) \<Rightarrow> 's Table \<Rightarrow> nat \<times> nat list" where
  "lims lim tab = (lim (t_ips tab), map (\<lambda>b. lim (b_ips b)) (buckets tab))"

definition run_inv :: "'s table_ext \<Rightarrow> ('s \<Rightarrow> ip \<Rightarrow> nat) \<Rightarrow> ('s \<Rightarrow> nat) \<Rightarrow> ('s \<Rightarrow> ip \<Rightarrow> ip \<Rightarrow> bool) \<Rightarrow>
    's run_state \<Rightarrow> bool" where
  "run_inv X cnt lim near s \<longleftrightarrow>
     tab_inv X cnt lim near (r_tab s)
     \<and> distinct (r_closed s @ r_waiting s)
     \<and> (initDone (r_tab s) \<longleftrightarrow> 0 \<in> set (r_closed s)) \<and> 0 \<in> set (r_closed s @ r_waiting s)
     \<and> (r_armed s \<longleftrightarrow> r_reval s = VIdle)
     \<and> (r_waiting s \<noteq> [] \<longrightarrow> r_refresh s \<noteq> RIdle \<and> r_loop s \<in> {Looping, Draining})
     \<and> (\<forall>n bi. r_reval s = VPinging n bi \<longrightarrow> bi < nBuckets \<and> n \<in> set (entries (buckets (r_tab s) ! bi)))"

section \<open>Frames\<close>

lemma initDone_frame [simp]:
  "initDone (AddSeenNode X now tab n) = initDone tab"
  "initDone (doRevalidate X rnd ping enr n bi tab) = initDone tab"
proof -
  have a: "initDone (snd (addIP X t b x)) = initDone t" for t b x
    using addIP_same[of X t b x] by (cases "addIP X t b x") (simp add: same_nodes_def)
  have r: "initDone (removeIP X t b x) = initDone t" for t b x
    using removeIP_same[of X t b x] by (simp add: same_nodes_def)
  have rep: "initDone (addReplacement X t b x) = initDone t" for t b x
    using a[of t b "e_IP x"] by (auto simp: addReplacement_def r Let_def split: prod.splits option.splits)
  have bump: "initDone (snd (bumpInBucket X t b x)) = initDone t" for t b x
    by (auto simp: bumpInBucket_def Let_def r a split: option.splits prod.splits)
       (metis a r snd_conv)+
  have repl: "initDone (snd (replace X f t b x)) = initDone t" for f t b x
    by (auto simp: replace_def deleteInBucket_def Let_def r)
  show "initDone (AddSeenNode X now tab n) = initDone tab"
    using a[of "hookNode tab n Seen" "bucketOf X (e_ID n)" "e_IP n"]
    by (auto simp: AddSeenNode_def Let_def rep split: prod.splits)
  show "initDone (doRevalidate X rnd ping enr n bi tab) = initDone tab"
    using bump repl[of rnd tab bi "refreshedNode n (fst ping) enr"]
    by (auto simp: doRevalidate_def Let_def split: option.splits prod.splits)
qed

lemma tab_inv_initDone [simp]: "tab_inv X cnt lim near (tab\<lparr>initDone := b\<rparr>) = tab_inv X cnt lim near tab"
  by (simp add: tab_inv_def shape_inv_def settled_def)

lemma nodeToRevalidate_entry:
  "nodeToRevalidate perm tab = Some (n, bi) \<Longrightarrow> bi \<in> set perm \<and> n \<in> set (entries (buckets tab ! bi))"
  by (induction perm) (auto simp: Let_def split: if_splits)

lemma AddSeenNode_keeps_entry:
  "m \<in> set (entries (buckets tab ! i)) \<Longrightarrow> i < length (buckets tab) \<Longrightarrow>
   m \<in> set (entries (buckets (AddSeenNode X now tab n) ! i))"
  using AddSeenNode_appends[of i tab X now n] by auto

section \<open>The invariant of the loop\<close>

context table_env
begin

abbreviation rinv :: "'s run_state \<Rightarrow> bool" where "rinv \<equiv> run_inv X cnt lim near"

lemma run_inv_init: "run_init X L ign s \<Longrightarrow> rinv s"
proof -
  have n: "initDone (AddSeenNodes X now t ns) = initDone t" for now t ns
    by (induction ns arbitrary: t) simp_all
  assume "run_init X L ign s"
  then show ?thesis
    by (auto simp: run_init_def run_inv_def NewTable_inv)
       (auto simp: NewTable_def Let_def setFallbackNodes_def loadSeedNodes_def n split: option.splits)
qed

lemma run_inv_finish:
  assumes "rinv s" "r_reval s = VPinging n bi" "\<And>k. 0 < k \<Longrightarrow> rnd k < k" "snd ping \<noteq> None \<Longrightarrow> fst ping = 0"
  shows "rinv (s\<lparr>r_tab := doRevalidate X rnd ping enr n bi (r_tab s), r_reval := VDone\<rparr>)"
  using assms doRevalidate_inv[of "r_tab s" bi rnd n ping enr] by (auto simp: run_inv_def)

lemma run_inv_seen:
  assumes "rinv s"
  shows "rinv (s\<lparr>r_tab := AddSeenNode X now (r_tab s) n\<rparr>)"
proof -
  have "length (buckets (r_tab s)) = 17" using assms by (simp add: run_inv_def tab_inv_def shape_inv_def)
  with assms AddSeenNode_keeps_entry[of _ "r_tab s"] AddSeenNode_inv[of "r_tab s" now n]
  show ?thesis by (simp add: run_inv_def)
qed

lemma run_inv_step: "rinv s \<Longrightarrow> run_step X s t \<Longrightarrow> rinv t"
proof (erule run_stepE, goal_cases)
  case (1 now n)
  then show ?case by (simp add: run_inv_seen)
next
  case (9 perm n bi)
  then have "set_mset (mset perm) = {0..<17}" by (simp del: set_mset_mset)
  then have "set perm = {0..<17}" by simp
  with 9 show ?case using nodeToRevalidate_entry[of perm "r_tab s" n bi] by (auto simp: run_inv_def)
next
  case (10 n bi rnd ping enr)
  then show ?case using run_inv_finish by blast
qed (auto simp: run_inv_def start_refresh_def close_waiting_def)

section \<open>The limits are fixed\<close>

lemma lims_hook [simp]: "lims lim (hookNode t n h) = lims lim t"
  by (simp add: lims_def)

lemma map_update_same: "g y = g (xs ! i) \<Longrightarrow> map g (xs[i := y]) = map g xs"
  by (cases "i < length xs") (simp_all add: map_update list_update_same_conv list_update_beyond)

lemma lims_upd: "lim (b_ips (f (buckets t ! bi))) = lim (b_ips (buckets t ! bi)) \<Longrightarrow>
    lims lim (upd_bucket t bi f) = lims lim t"
  by (simp add: lims_def upd_bucket_def map_update_same)

lemma lims_addIP: "addIP X t bi a = (ok, t') \<Longrightarrow> lims lim t' = lims lim t"
  using add_lim[of "t_ips t" a] add_lim[of "b_ips (buckets t ! bi)" a]
  by (auto simp: addIP_def Let_def lims_def upd_bucket_def map_update_same remove_lim split: prod.splits if_splits)

lemma lims_addIP_snd [simp]: "lims lim (snd (addIP X t bi a)) = lims lim t"
  by (rule lims_addIP) (rule prod.collapse[symmetric])

lemma lims_removeIP [simp]: "lims lim (removeIP X t bi a) = lims lim t"
  by (simp add: lims_def removeIP_def upd_bucket_def map_update_same remove_lim)

lemma lims_addReplacement [simp]: "lims lim (addReplacement X t bi n) = lims lim t"
  by (auto simp: addReplacement_def Let_def lims_upd dest: lims_addIP split: prod.splits option.splits)

lemma lims_AddSeenNode [simp]: "lims lim (AddSeenNode X now t n) = lims lim t"
  by (auto simp: AddSeenNode_def Let_def lims_upd dest!: lims_addIP split: prod.splits)

lemma lims_AddSeenNodes [simp]: "lims lim (AddSeenNodes X now t ns) = lims lim t"
  by (induction ns arbitrary: t) simp_all

lemma lims_doRevalidate [simp]: "lims lim (doRevalidate X rnd ping enr n bi t) = lims lim t"
proof -
  have bump: "lims lim (snd (bumpInBucket X t bi m)) = lims lim t" for m
    by (auto simp: bumpInBucket_def Let_def lims_upd dest!: lims_addIP split: option.splits prod.splits)
  have repl: "lims lim (snd (replace X rnd t bi m)) = lims lim t" for m
    by (auto simp: replace_def deleteInBucket_def Let_def lims_upd)
  show ?thesis
    using repl[of "refreshedNode n (fst ping) enr"]
    by (auto simp: doRevalidate_def Let_def bump split: option.splits prod.splits)
qed

lemma lims_init:
  assumes "snd (NewTable X L now seeds boot ign) = Inr tab"
  shows "lims lim tab = (if ign then (unat (- 1 :: u64), replicate 17 (unat (- 1 :: u64)))
           else (unat (tableIPLimit L), replicate 17 (unat (bucketIPLimit L))))"
proof -
  obtain t0 where "tab = loadSeedNodes X now seeds t0" and t0: "lims lim t0 = (if ign
      then (unat (- 1 :: u64), replicate 17 (unat (- 1 :: u64)))
      else (unat (tableIPLimit L), replicate 17 (unat (bucketIPLimit L))))"
    using assms
    by (auto simp: NewTable_def Let_def setFallbackNodes_def lims_def lim_new split: option.splits if_splits)
  then show ?thesis by (simp add: loadSeedNodes_def)
qed

definition lim_inv :: "ip_limits \<Rightarrow> bool \<Rightarrow> 's run_state \<Rightarrow> bool" where
  "lim_inv L ign s \<longleftrightarrow> lims lim (r_tab s) = (if ign then (unat (- 1 :: u64), replicate 17 (unat (- 1 :: u64)))
     else (unat (tableIPLimit L), replicate 17 (unat (bucketIPLimit L))))"

lemma lims_initDone [simp]: "lims lim (t\<lparr>initDone := b\<rparr>) = lims lim t"
  by (simp add: lims_def)

lemma lim_inv_init: "run_init X L ign s \<Longrightarrow> lim_inv L ign s"
  by (auto simp: run_init_def lim_inv_def dest: lims_init)

lemma lim_inv_step: "lim_inv L ign s \<Longrightarrow> run_step X s t \<Longrightarrow> lim_inv L ign t"
  by (erule run_stepE) (auto simp: lim_inv_def start_refresh_def close_waiting_def)

end

sublocale table_env \<subseteq> run: inv_system "run_init X L ign" "run_step X" "run_inv X cnt lim near" for L ign
  by unfold_locales (blast intro: run_inv_init run_inv_step)+

sublocale table_env \<subseteq> runlim: inv_system "run_init X L ign" "run_step X" "lim_inv L ign" for L ign
  by unfold_locales (blast intro: lim_inv_init lim_inv_step)+

context table_env
begin

lemma distinct_concat_classes:
  "(\<And>i. i < length bs \<Longrightarrow> distinct (map e_ID (entries (bs ! i)))) \<Longrightarrow>
   (\<And>i n. i < length bs \<Longrightarrow> n \<in> set (entries (bs ! i)) \<Longrightarrow> bucketOf X (e_ID n) = k + i) \<Longrightarrow>
   distinct (map e_ID (concat (map entries bs)))"
proof (induction bs arbitrary: k)
  case (Cons b bs)
  have "distinct (map e_ID (concat (map entries bs)))"
    using Cons.prems(1)[of "Suc _"] Cons.prems(2)[of "Suc _"] by (intro Cons.IH[of "Suc k"]) auto
  moreover have "bucketOf X (e_ID n) = k" if "n \<in> set (entries b)" for n
    using that Cons.prems(2)[of 0 n] by simp
  moreover have "bucketOf X (e_ID n) \<noteq> k" if "c \<in> set bs" "n \<in> set (entries c)" for n c
  proof -
    obtain i where "i < length bs" "c = bs ! i" using \<open>c \<in> set bs\<close> by (auto simp: in_set_conv_nth)
    then show ?thesis using Cons.prems(2)[of "Suc i" n] that(2) by simp
  qed
  moreover have "distinct (map e_ID (entries b))" using Cons.prems(1)[of 0] by simp
  ultimately show ?case by (auto simp: distinct_append) metis
qed simp

lemma inv_bucket: "inv tab \<Longrightarrow> i < 17 \<Longrightarrow> bucket_ok X i (buckets tab ! i)" and inv_len: "inv tab \<Longrightarrow> length (buckets tab) = 17"
  by (simp_all add: tab_inv_def shape_inv_def)

lemma tab_nodes_distinct: "inv tab \<Longrightarrow> distinct (map e_ID (tab_nodes tab))"
  using inv_bucket[of tab] inv_len[of tab]
  by (auto simp: tab_nodes_def bucket_ok_def nodes_of_def intro!: distinct_concat_classes[where k = 0])

lemma tab_nodes_at: "inv tab \<Longrightarrow> n \<in> set (tab_nodes tab) \<longleftrightarrow> (\<exists>i < 17. n \<in> set (entries (buckets tab ! i)))"
  by (auto simp: tab_nodes_def inv_len set_conv_nth[of "buckets tab"])

lemma inv_node:
  assumes "inv tab" "i < 17" "n \<in> set (entries (buckets tab ! i))"
  shows "bucketOf X (e_ID n) = i" "e_ID n \<noteq> x_self X"
  using inv_bucket[OF assms(1,2)] assms(3) by (auto simp: bucket_ok_def nodes_of_def)

lemma tab_nodes_iff: "inv tab \<Longrightarrow> n \<in> set (tab_nodes tab) \<longleftrightarrow> n \<in> set (entries (buckets tab ! bucketOf X (e_ID n)))"
  using inv_node[of tab _ n] bucketOf_lt[of "e_ID n"] by (auto simp: tab_nodes_at)

end

end
