(* ===== verification/Table_Props.thy ===== *)
theory Table_Props
  imports Table_Run
begin

text \<open>
  What the users of the node table rely on: the states its main loop reaches, uniqueness of nodes, the
  subnet limits, the answers of \<open>FindnodeByID\<close>, \<open>getNode\<close> and \<open>ReadRandomNodes\<close>, and the outcome
  of \<open>AddSeenNode\<close>, \<open>addVerifiedNode\<close> and \<open>doRevalidate\<close> on every branch. The witnesses use the
  executable environment of \<open>Table_Inv\<close>.
\<close>

section \<open>Lookup in the table\<close>

lemma index_of_unique:
  "distinct (map e_ID ns) \<Longrightarrow> n \<in> set ns \<Longrightarrow> \<exists>k. index_of ns (e_ID n) = Some k \<and> ns ! k = n"
proof (induction ns)
  case (Cons m ns)
  then show ?case by (cases "e_ID m = e_ID n") (auto simp: image_iff)
qed simp

lemma index_of_append:
  "index_of (xs @ ys) i = (case index_of xs i of Some k \<Rightarrow> Some k | None \<Rightarrow> map_option (\<lambda>k. length xs + k) (index_of ys i))"
  by (induction xs) (auto split: option.splits simp: option.map_comp comp_def option.map_ident, (cases "index_of ys i"; simp)+)

lemma getNode_entries:
  "entries (buckets t1 ! bucketOf X i) = entries (buckets t2 ! bucketOf X i) \<Longrightarrow> getNode X t1 i = getNode X t2 i"
  by (simp add: getNode_def)

lemma findnode_loop_eq:
  "findnode_loop D k preferLive ns (a, b)
   = (PushAll D a ns k, PushAll D b (if preferLive then filter (\<lambda>n. 0 < GetCount n) ns else []) k)"
  by (induction ns arbitrary: a b) auto

lemma mset_swap: "i < length xs \<Longrightarrow> j < length xs \<Longrightarrow> mset (swap xs i j) = mset xs"
  by (simp add: swap_def mset_swap)

lemma length_swap [simp]: "length (swap xs i j) = length xs"
  by (simp add: swap_def)

lemma mset_shuffle:
  "(\<And>i m. 0 < m \<Longrightarrow> rnd i m < m) \<Longrightarrow> i + k \<le> length xs \<Longrightarrow> mset (shuffle_from rnd i k xs) = mset xs"
proof (induction k arbitrary: i xs)
  case (Suc k)
  have "mset (swap xs i (rnd i (length xs))) = mset xs"
    using Suc.prems by (intro mset_swap) (auto intro!: Suc.prems(1))
  moreover have "mset (shuffle_from rnd (Suc i) k (swap xs i (rnd i (length xs)))) = mset (swap xs i (rnd i (length xs)))"
    using Suc.prems(2) by (intro Suc.IH[OF Suc.prems(1)]) simp_all
  ultimately show ?case by simp
qed simp

text \<open>The exact effect of \<open>AddSeenNode\<close> on the live entries and on the reported events.\<close>

definition admits :: "'s table_ext \<Rightarrow> 's Table \<Rightarrow> Node \<Rightarrow> bool" where
  "admits X tab n \<longleftrightarrow> e_ID n \<noteq> x_self X
     \<and> e_ID n \<notin> e_ID ` set (entries (buckets tab ! bucketOf X (e_ID n)))
     \<and> length (entries (buckets tab ! bucketOf X (e_ID n))) < bucketSize
     \<and> fst (addIP X tab (bucketOf X (e_ID n)) (e_IP n))"

lemma addIP_hook: "addIP X (hookNode tab n t) bi a = (fst (addIP X tab bi a), hookNode (snd (addIP X tab bi a)) n t)"
  by (simp add: addIP_def hookNode_def upd_bucket_def Let_def split: prod.splits)

lemma addReplacement_hooks: "hooks (addReplacement X tab bi n) = hooks tab"
proof -
  obtain ok t1 where add: "addIP X tab bi (e_IP n) = (ok, t1)" by fastforce
  have "hooks (removeIP X t bi a) = hooks t" for t a using removeIP_same[of X t bi a] by (simp add: same_nodes_def)
  then show ?thesis
    using add addIP_same[OF add]
    by (auto simp: addReplacement_def Let_def same_nodes_def split: prod.splits option.splits)
qed

lemma AddSeenNode_hooks:
  "hooks (AddSeenNode X now tab n) = hooks tab @ (if e_ID n = x_self X then [] else (n, Seen) #
     (if admits X tab n then [(SetTimestamp n now, Added)] else []))"
proof -
  let ?bi = "bucketOf X (e_ID n)"
  obtain ok t1 where add: "addIP X tab ?bi (e_IP n) = (ok, t1)" by fastforce
  have "hooks t1 = hooks tab" using addIP_same[OF add] by (simp add: same_nodes_def)
  then show ?thesis
    by (simp add: AddSeenNode_def admits_def Let_def addIP_hook add addReplacement_hooks)
qed

lemma AddSeenNode_effect:
  assumes "i < length (buckets tab)"
  shows "entries (buckets (AddSeenNode X now tab n) ! i) = entries (buckets tab ! i)
           @ (if admits X tab n \<and> i = bucketOf X (e_ID n) then [SetTimestamp n now] else [])"
proof -
  let ?bi = "bucketOf X (e_ID n)"
  obtain ok t1 where add: "addIP X tab ?bi (e_IP n) = (ok, t1)" by fastforce
  have len: "length (buckets t1) = length (buckets tab)"
    using addIP_same[OF add] by (simp add: same_nodes_def)
  have e: "entries (buckets t1 ! i) = entries (buckets tab ! i)"
    using same_nodes_entries[OF addIP_same[OF add]] assms len by simp
  show ?thesis
    using addReplacement_entries(1)[of i "hookNode tab n Seen" X ?bi n] assms e
      len by (cases "i = ?bi") (simp_all add: AddSeenNode_def admits_def Let_def addIP_hook add)
qed

context table_env
begin


lemma getNode_Some:
  assumes "inv tab" "n \<in> set (tab_nodes tab)"
  shows "getNode X tab (e_ID n) = Some (Unwrap n)"
proof -
  let ?i = "bucketOf X (e_ID n)"
  have "distinct (map e_ID (entries (buckets tab ! ?i)))"
    using inv_bucket[OF assms(1) bucketOf_lt] by (simp add: bucket_ok_def nodes_of_def)
  with index_of_unique assms tab_nodes_iff show ?thesis by (fastforce simp: getNode_def Let_def)
qed

lemma getNode_None:
  assumes "inv tab" "i \<notin> e_ID ` set (tab_nodes tab)"
  shows "getNode X tab i = None"
proof -
  have "i \<notin> e_ID ` set (entries (buckets tab ! bucketOf X i))"
    using assms bucketOf_lt[of i] tab_nodes_at[OF assms(1)] by blast
  then show ?thesis by (simp add: getNode_def Let_def index_of_None)
qed

lemma tab_nodes_length: "inv tab \<Longrightarrow> length (tab_nodes tab) \<le> 272"
proof -
  assume i: "inv tab"
  have "length (entries b) \<le> 16" if "b \<in> set (buckets tab)" for b
    using that inv_bucket[OF i] inv_len[OF i] by (auto simp: in_set_conv_nth bucket_ok_def bucketSize_eq)
  then have "sum_list (map (\<lambda>b. length (entries b)) (buckets tab)) \<le> sum_list (map (\<lambda>b. 16) (buckets tab))"
    by (intro sum_list_mono) simp
  also have "\<dots> = 272" by (simp add: sum_list_triv inv_len[OF i])
  finally show ?thesis by (simp add: tab_nodes_def length_concat comp_def)
qed

lemma limits_reached:
  assumes "reach (run_init X L False) (run_step X) s"
  shows "lim (t_ips (r_tab s)) = unat (tableIPLimit L)"
    and "i < 17 \<Longrightarrow> lim (b_ips (buckets (r_tab s) ! i)) = unat (bucketIPLimit L)"
proof -
  have len: "length (buckets (r_tab s)) = 17" using run.reach_inv[OF assms] by (simp add: run_inv_def inv_len)
  have l: "lims lim (r_tab s) = (unat (tableIPLimit L), replicate 17 (unat (bucketIPLimit L)))"
    using runlim.reach_inv[OF assms] by (simp add: lim_inv_def)
  from l show "lim (t_ips (r_tab s)) = unat (tableIPLimit L)" by (simp add: lims_def)
  assume "i < 17"
  with arg_cong[OF l, of "\<lambda>x. snd x ! i"] len
  show "lim (b_ips (buckets (r_tab s) ! i)) = unat (bucketIPLimit L)" by (simp add: lims_def)
qed

lemma run_reach: "reach (run_init X L ign) (run_step X) s \<Longrightarrow> run_inv X cnt lim near s"
  by (rule run.reach_inv)

lemma subnet_limits:
  assumes "reach (run_init X L False) (run_step X) s"
  shows "size {#b \<in># tab_ips_of (buckets (r_tab s)). \<not> x_IsLAN X b \<and> near (t_ips (r_tab s)) b a#} \<le> unat (tableIPLimit L)"
    and "i < 17 \<Longrightarrow> size {#b \<in># ips_of (buckets (r_tab s) ! i). \<not> x_IsLAN X b \<and> near (b_ips (buckets (r_tab s) ! i)) b a#}
          \<le> unat (bucketIPLimit L)"
proof -
  have st: "stl (r_tab s)" "length (buckets (r_tab s)) = 17"
    using run_reach[OF assms] by (simp_all add: run_inv_def tab_inv_def inv_len shape_inv_def)
  have t: "trk (t_ips (r_tab s)) (tab_ips_of (buckets (r_tab s)))" using st by (simp add: settled_def)
  show "size {#b \<in># tab_ips_of (buckets (r_tab s)). \<not> x_IsLAN X b \<and> near (t_ips (r_tab s)) b a#} \<le> unat (tableIPLimit L)"
    using trk_le[OF t, of a] unfolding trk_eq[OF t] limits_reached(1)[OF assms] .
  assume i: "i < 17"
  then have b: "trk (b_ips (buckets (r_tab s) ! i)) (ips_of (buckets (r_tab s) ! i))" using st by (simp add: settled_def)
  show "size {#b \<in># ips_of (buckets (r_tab s) ! i). \<not> x_IsLAN X b \<and> near (b_ips (buckets (r_tab s) ! i)) b a#}
          \<le> unat (bucketIPLimit L)"
    using trk_le[OF b, of a] unfolding trk_eq[OF b] limits_reached(2)[OF assms i] .
qed

text \<open>Looking up after \<open>AddSeenNode\<close>.\<close>

lemma AddSeenNode_getNode:
  assumes "inv tab"
  shows "getNode X (AddSeenNode X now tab n) i
       = (if i = e_ID n \<and> admits X tab n then Some (Unwrap n) else getNode X tab i)"
proof -
  let ?es = "entries (buckets tab ! bucketOf X i)"
  have U: "Unwrap (SetTimestamp n now) = Unwrap n" by (simp add: Unwrap_def SetTimestamp_def enode.defs)
  have e: "entries (buckets (AddSeenNode X now tab n) ! bucketOf X i) = ?es
      @ (if admits X tab n \<and> bucketOf X i = bucketOf X (e_ID n) then [SetTimestamp n now] else [])"
    using inv_len[OF assms] bucketOf_lt by (intro AddSeenNode_effect) simp
  have "index_of ?es i = None" if "i = e_ID n" "admits X tab n"
    using that by (simp add: admits_def index_of_None)
  note new = this
  show ?thesis
  proof (cases "index_of ?es i")
    case None
    then show ?thesis by (simp add: getNode_def Let_def e index_of_append U)
  next
    case (Some k)
    then have "\<not> (i = e_ID n \<and> admits X tab n)" using new by auto
    with Some index_of_Some[OF Some] show ?thesis
      unfolding getNode_def Let_def e by (auto simp: index_of_append nth_append)
  qed
qed

text \<open>The two outcomes of a revalidation.\<close>

lemma entry_index:
  assumes "inv tab" "bi < 17" "lst \<in> set (entries (buckets tab ! bi))"
  obtains i where "index_of (entries (buckets tab ! bi)) (e_ID lst) = Some i" "entries (buckets tab ! bi) ! i = lst"
    and "i < length (entries (buckets tab ! bi))"
    and "take i (entries (buckets tab ! bi)) @ drop (Suc i) (entries (buckets tab ! bi)) = remove1 lst (entries (buckets tab ! bi))"
    and "distinct (map e_ID (entries (buckets tab ! bi)))"
proof -
  let ?es = "entries (buckets tab ! bi)"
  have d: "distinct (map e_ID ?es)" using inv_bucket[OF assms(1,2)] by (simp add: bucket_ok_def nodes_of_def)
  obtain i where i: "index_of ?es (e_ID lst) = Some i" "?es ! i = lst" using index_of_unique[OF d assms(3)] by blast
  have l: "i < length ?es" using index_of_Some[OF i(1)] by simp
  have es: "?es = take i ?es @ lst # drop (Suc i) ?es" using id_take_nth_drop[OF l] i(2) by simp
  then have "distinct (take i ?es @ lst # drop (Suc i) ?es)" using d by (metis distinct_map)
  then have "remove1 lst (take i ?es @ lst # drop (Suc i) ?es) = take i ?es @ drop (Suc i) ?es"
    by (simp add: remove1_append)
  with es have "take i ?es @ drop (Suc i) ?es = remove1 lst ?es" by metis
  with i l d that show ?thesis by blast
qed

lemma doRevalidate_alive:
  assumes "inv tab" "bi < 17" "lst \<in> set (entries (buckets tab ! bi))" "seq \<le> e_Seq lst"
  shows "doRevalidate X rnd (seq, None) enr lst bi tab
       = upd_bucket tab bi (\<lambda>b. b\<lparr>entries := Bump lst # remove1 lst (entries b)\<rparr>)"
proof -
  let ?es = "entries (buckets tab ! bi)"
  obtain i where i: "index_of ?es (e_ID lst) = Some i" "?es ! i = lst" "i < length ?es"
    and r: "take i ?es @ drop (Suc i) ?es = remove1 lst ?es"
    using entry_index[OF assms(1-3)] by blast
  have "(go_copy_from 1 ?es (take i ?es))[0 := Bump lst] = Bump lst # remove1 lst ?es"
    using go_copy_from_prefix[OF i(3), of "Bump lst"] r by simp
  with i assms(4) show ?thesis
    by (simp add: doRevalidate_def refreshedNode_def bumpInBucket_def Let_def upd_bucket_def not_less)
qed

lemma last_is: "distinct (map e_ID es) \<Longrightarrow> lst \<in> set es \<Longrightarrow> e_ID (es ! (length es - 1)) = e_ID lst \<longleftrightarrow> last es = lst"
  by (cases es rule: rev_cases) (auto simp: nth_append)

lemma doRevalidate_dead:
  assumes "inv tab" "bi < 17" "lst \<in> set (entries (buckets tab ! bi))"
  shows "entries (buckets (doRevalidate X rnd (0, Some e) enr lst bi tab) ! bi)
       = (if last (entries (buckets tab ! bi)) \<noteq> lst then entries (buckets tab ! bi)
          else butlast (entries (buckets tab ! bi))
            @ (if replacements (buckets tab ! bi) = [] then []
               else [replacements (buckets tab ! bi) ! rnd (length (replacements (buckets tab ! bi)))]))"
    and "hooks (doRevalidate X rnd (0, Some e) enr lst bi tab) = hooks tab
       @ (if last (entries (buckets tab ! bi)) = lst \<and> replacements (buckets tab ! bi) \<noteq> [] then [] else [(lst, Removed)])"
proof -
  let ?b = "buckets tab ! bi"
  let ?es = "entries ?b"
  have d: "distinct (map e_ID ?es)" and ne: "?es \<noteq> []"
    using inv_bucket[OF assms(1,2)] assms(3) by (auto simp: bucket_ok_def nodes_of_def)
  note last = last_is[OF d assms(3)]
  have len: "bi < length (buckets tab)" using inv_len[OF assms(1)] assms(2) by simp
  have rm: "entries (buckets (removeIP X t bi a) ! bi) = entries (buckets t ! bi)"
    "hooks (removeIP X t bi a) = hooks t" if "bi < length (buckets t)" for t a
    using removeIP_same[of X t bi a] that by (simp_all add: same_nodes_def)
  have upd: "?es[length ?es - 1 := r] = butlast ?es @ [r]" for r
    using ne by (cases ?es rule: rev_cases) (simp_all add: list_update_append)
  have del: "deleteNode ?es lst = butlast ?es" if l: "last ?es = lst"
  proof -
    obtain ys where ys: "?es = ys @ [lst]" using ne l by (cases ?es rule: rev_cases) auto
    with d show ?thesis by (simp add: deleteNode_last)
  qed
  define r where "r = replacements ?b ! rnd (length (replacements ?b))"
  define t1 where "t1 = upd_bucket tab bi (\<lambda>b. b\<lparr>entries := deleteNode (entries b) lst\<rparr>)"
  define t2 where "t2 = upd_bucket tab bi (\<lambda>b. b\<lparr>replacements := deleteNode (replacements b) r,
                     entries := (entries b)[length (entries b) - 1 := r]\<rparr>)"
  have rep: "replace X rnd tab bi lst = (if last ?es \<noteq> lst then (None, tab)
      else if replacements ?b = [] then (None, removeIP X t1 bi (e_IP lst)) else (Some r, removeIP X t2 bi (e_IP lst)))"
    unfolding replace_def Let_def last t1_def t2_def r_def deleteInBucket_def using ne by simp
  have t1: "entries (buckets t1 ! bi) = deleteNode ?es lst" "hooks t1 = hooks tab" "bi < length (buckets t1)"
    and t2: "entries (buckets t2 ! bi) = butlast ?es @ [r]" "hooks t2 = hooks tab" "bi < length (buckets t2)"
    unfolding t1_def t2_def using len upd[of r] by simp_all
  have R: "doRevalidate X rnd (0, Some e) enr lst bi tab = (if last ?es \<noteq> lst then hookNode tab lst Removed
      else if replacements ?b = [] then hookNode (removeIP X t1 bi (e_IP lst)) lst Removed
      else removeIP X t2 bi (e_IP lst))"
    by (simp add: doRevalidate_def refreshedNode_def rep Let_def)
  show "entries (buckets (doRevalidate X rnd (0, Some e) enr lst bi tab) ! bi)
       = (if last ?es \<noteq> lst then ?es else butlast ?es
            @ (if replacements ?b = [] then [] else [replacements ?b ! rnd (length (replacements ?b))]))"
    unfolding R using t1 t2 rm[of t1] rm[of t2] del r_def by simp
  show "hooks (doRevalidate X rnd (0, Some e) enr lst bi tab) = hooks tab
       @ (if last ?es = lst \<and> replacements ?b \<noteq> [] then [] else [(lst, Removed)])"
    unfolding R using t1 t2 rm[of t1] rm[of t2] by simp
qed

end

lemma findnode_closest:
  assumes "dist_order (x_DistCmp X) dist" and "0 \<le> k"
  shows "nbd_entries (FindnodeByID X tab target k preferLive)
    = take (nat k) (sort_key (\<lambda>n. dist target (e_ID n))
        (if preferLive \<and> 0 < k \<and> (\<exists>n \<in> set (tab_nodes tab). 0 < GetCount n)
         then filter (\<lambda>n. 0 < GetCount n) (tab_nodes tab) else tab_nodes tab))"
proof -
  let ?z = "\<lparr>nbd_entries = [], Target = target\<rparr>"
  note P = dist_order.PushAll_sort_key[OF assms(1) _ assms(2), of ?z]
  have "sort_key f ns = [] \<longleftrightarrow> ns = []" for f :: "Node \<Rightarrow> nat" and ns
    by (metis length_0_conv length_sort)
  then show ?thesis
    using assms(2) by (auto simp: FindnodeByID_def findnode_loop_eq Let_def P filter_empty_conv)
qed

section \<open>Properties\<close>

definition ex_node :: "node_id \<Rightarrow> ip \<Rightarrow> Node" where
  "ex_node i a = WrapNode \<lparr>e_ID = i, e_IP = a, e_UDP = 30303, e_TCP = 30303, e_Seq = 1, e_Keys = []\<rparr>"

definition ex_tab0 :: "prefix_set Table" where
  "ex_tab0 = \<lparr>buckets = replicate 17 \<lparr>entries = [], replacements = [], b_ips = (24, 2, [])\<rparr>,
     nursery = [], t_ips = (24, 10, []), initDone = False, hooks = []\<rparr>"

definition ex_tab :: "prefix_set Table" where
  "ex_tab = AddSeenNodes (ex_env 0) 0 ex_tab0 [ex_node 5 [1,2,3,4], ex_node 9 [1,2,3,5], ex_node 12 [1,2,3,6]]"

lemma ex_tab0_new: "snd (NewTable (ex_env 0) default_limits 0 [] [] False) = Inr ex_tab0"
  by (simp add: NewTable_def ex_tab0_def setFallbackNodes_def loadSeedNodes_def default_limits_def ex_env_def ps_api_def)

definition ex_run :: "prefix_set run_state" where
  "ex_run = \<lparr>r_tab = ex_tab, r_refresh = RRunning, r_waiting = [0], r_closed = [], r_armed = True,
     r_reval = VIdle, r_loop = Looping\<rparr>"

lemma reach_seen_all:
  "reach (run_init X L ign) (run_step X) s \<Longrightarrow>
   reach (run_init X L ign) (run_step X) (s\<lparr>r_tab := AddSeenNodes X now (r_tab s) ns\<rparr>)"
proof (induction ns arbitrary: s)
  case (Cons n ns)
  have "reach (run_init X L ign) (run_step X) (s\<lparr>r_tab := AddSeenNode X now (r_tab s) n\<rparr>)"
    using Cons.prems by (rule reach_step) (rule run_step.seen)
  from Cons.IH[OF this] show ?case by simp
qed simp

lemma ex_run_reach: "reach (run_init (ex_env 0) default_limits False) (run_step (ex_env 0)) ex_run"
proof -
  let ?s = "ex_run\<lparr>r_tab := ex_tab0\<rparr>"
  have "reach (run_init (ex_env 0) default_limits False) (run_step (ex_env 0)) ?s"
    by (rule reach_init) (auto simp: run_init_def ex_run_def intro!: exI ex_tab0_new)
  from reach_seen_all[OF this, of 0 "[ex_node 5 [1,2,3,4], ex_node 9 [1,2,3,5], ex_node 12 [1,2,3,6]]"]
  show ?thesis by (simp add: ex_run_def ex_tab_def)
qed

lemma ex_tab_ids: "map e_ID (tab_nodes ex_tab) = [5, 9]"
  by code_simp

lemma ex_tab_inv: "tab_inv (ex_env 0) ps_cnt ps_lim ps_near ex_tab"
  using ex_table.run.reach_inv[OF ex_run_reach] by (simp add: run_inv_def ex_run_def)

text \<open>C1: In every state the table's main loop can reach, whatever nodes are seen, whatever the network
  answers and however refresh, revalidation and shutdown interleave: every bucket holds at most 16 entries
  and 10 replacements without a duplicate ID and without the local node, each node is in the bucket of its
  distance, the subnet counters count exactly the stored addresses and are within their limits; no waiter's
  channel is closed twice, \<open>initDone\<close> is closed exactly once the first refresh has ended, and at most one
  revalidation is under way.\<close>

theorem table_run_invariant:
  assumes "table_env X cnt lim near" and "reach (run_init X L ign) (run_step X) s"
  shows "tab_inv X cnt lim near (r_tab s) \<and> distinct (r_closed s @ r_waiting s)
    \<and> (initDone (r_tab s) \<longleftrightarrow> 0 \<in> set (r_closed s)) \<and> (r_armed s \<longleftrightarrow> r_reval s = VIdle)"
  using table_env.run_reach[OF assms] by (simp add: run_inv_def)

theorem table_run_invariant_witness:
  "tab_inv (ex_env 0) ps_cnt ps_lim ps_near ex_tab \<and> map e_ID (tab_nodes ex_tab) = [5, 9]"
  using table_run_invariant[OF ex_table.table_env_axioms ex_run_reach] ex_tab_ids by (simp add: ex_run_def)

text \<open>C20: No node is stored twice in the whole table, the table holds at most 17 * 16 live nodes, never the
  local node, and \<open>getNode\<close> finds exactly the live nodes.\<close>

theorem table_nodes_unique:
  assumes "table_env X cnt lim near" and "tab_inv X cnt lim near tab"
  shows "distinct (map e_ID (tab_nodes tab)) \<and> length (tab_nodes tab) \<le> 272
    \<and> x_self X \<notin> e_ID ` set (tab_nodes tab)
    \<and> (\<forall>i e. getNode X tab i = Some e \<longleftrightarrow> (\<exists>n \<in> set (tab_nodes tab). e_ID n = i \<and> e = Unwrap n))"
proof -
  note te = table_env.tab_nodes_distinct[OF assms] table_env.tab_nodes_length[OF assms]
    table_env.getNode_Some[OF assms] table_env.getNode_None[OF assms]
  have "x_self X \<notin> e_ID ` set (tab_nodes tab)"
    using table_env.inv_node(2)[OF assms] table_env.tab_nodes_at[OF assms] by force
  moreover have "getNode X tab i = Some e \<longleftrightarrow> (\<exists>n \<in> set (tab_nodes tab). e_ID n = i \<and> e = Unwrap n)" for i e
    using te(3,4) by (metis (no_types, lifting) image_iff option.distinct(1) option.inject)
  ultimately show ?thesis using te(1,2) by blast
qed

theorem table_nodes_unique_witness:
  "distinct (map e_ID (tab_nodes ex_tab)) \<and> getNode (ex_env 0) ex_tab 9 \<noteq> None"
proof -
  have "9 \<in> set (map e_ID (tab_nodes ex_tab))" unfolding ex_tab_ids by simp
  then show ?thesis using table_nodes_unique[OF ex_table.table_env_axioms ex_tab_inv] by fastforce
qed

text \<open>C2: Eclipse protection: with the limits in force, at any time the table holds (entries and
  replacements together) at most \<open>tableIPLimit\<close> non-LAN addresses of one subnet, and one bucket at most
  \<open>bucketIPLimit\<close>.\<close>

theorem table_subnet_limits:
  assumes "table_env X cnt lim near" and "reach (run_init X L False) (run_step X) s"
  shows "size {#b \<in># tab_ips_of (buckets (r_tab s)). \<not> x_IsLAN X b \<and> near (t_ips (r_tab s)) b a#} \<le> unat (tableIPLimit L)
    \<and> (\<forall>i < 17. size {#b \<in># ips_of (buckets (r_tab s) ! i). \<not> x_IsLAN X b \<and> near (b_ips (buckets (r_tab s) ! i)) b a#}
          \<le> unat (bucketIPLimit L))"
  using table_env.subnet_limits[OF assms] by blast

theorem table_subnet_limits_witness:
  "size {#b \<in># tab_ips_of (buckets ex_tab). \<not> x_IsLAN (ex_env 0) b \<and> ps_near (t_ips ex_tab) b [1,2,3,4]#} \<le> 10"
  using table_subnet_limits[OF ex_table.table_env_axioms ex_run_reach, of "[1,2,3,4]"]
  by (simp add: ex_run_def default_limits_def)

text \<open>C15: \<open>FindnodeByID\<close> returns the \<open>nresults\<close> nodes of the table closest to the target in order of
  distance: among the live-checked nodes when live ones are preferred and there are any (and room for one),
  otherwise among all.\<close>

theorem FindnodeByID_closest:
  assumes "dist_order (x_DistCmp X) dist" and "0 \<le> k"
  shows "nbd_entries (FindnodeByID X tab target k preferLive)
    = take (nat k) (sort_key (\<lambda>n. dist target (e_ID n))
        (if preferLive \<and> 0 < k \<and> (\<exists>n \<in> set (tab_nodes tab). 0 < GetCount n)
         then filter (\<lambda>n. 0 < GetCount n) (tab_nodes tab) else tab_nodes tab))"
  using findnode_closest[OF assms] .

theorem FindnodeByID_closest_witness:
  "nbd_entries (FindnodeByID (ex_env 0) ex_tab 8 1 True) = take 1 (sort_key (\<lambda>n. xor_dist 8 (e_ID n)) (tab_nodes ex_tab))"
proof -
  have "\<not> (\<exists>n \<in> set (tab_nodes ex_tab). 0 < GetCount n)" by code_simp
  moreover have "dist_order (x_DistCmp (ex_env 0)) xor_dist"
    using xor_metric.dist_order_axioms by (simp add: ex_env_def)
  ultimately show ?thesis using FindnodeByID_closest[of "ex_env 0" xor_dist 1 ex_tab 8 True] by simp
qed

text \<open>C21: \<open>AddSeenNode\<close> inserts: afterwards the node is found when it was admitted (not the local node,
  not yet in its bucket, the bucket not full, and its address within the subnet limits), and no other lookup
  changes. It reports \<open>Seen\<close> for every foreign node and \<open>Added\<close> exactly when it was admitted.\<close>

theorem AddSeenNode_spec:
  assumes "table_env X cnt lim near" and "tab_inv X cnt lim near tab"
  shows "getNode X (AddSeenNode X now tab n) i
       = (if i = e_ID n \<and> admits X tab n then Some (Unwrap n) else getNode X tab i)
    \<and> hooks (AddSeenNode X now tab n) = hooks tab @ (if e_ID n = x_self X then [] else (n, Seen) #
         (if admits X tab n then [(SetTimestamp n now, Added)] else []))"
  using table_env.AddSeenNode_getNode[OF assms] AddSeenNode_hooks by blast

theorem AddSeenNode_spec_witness:
  "getNode (ex_env 0) (AddSeenNode (ex_env 0) 7 ex_tab (ex_node 77 [9,9,9,9])) 77 = Some (Unwrap (ex_node 77 [9,9,9,9]))"
proof -
  have "admits (ex_env 0) ex_tab (ex_node 77 [9,9,9,9])" by code_simp
  moreover have "e_ID (ex_node 77 [9,9,9,9]) = 77" by (simp add: ex_node_def)
  ultimately show ?thesis
    using AddSeenNode_spec[OF ex_table.table_env_axioms ex_tab_inv, of 7 "ex_node 77 [9,9,9,9]" 77] by simp
qed

text \<open>\<open>ReadRandomNodes\<close> on an initialised table fills the buffer with a prefix of a permutation of the
  table's nodes, so that no node appears twice; it returns how many it wrote and leaves the rest of the
  buffer alone.\<close>

lemma ReadRandomNodes_unique:
  assumes "table_env X cnt lim near" and "tab_inv X cnt lim near tab" and "initDone tab"
    and "\<forall>i m. 0 < m \<longrightarrow> rnd i m < m"
  shows "\<exists>p. mset p = mset (map Unwrap (tab_nodes tab)) \<and> distinct (map e_ID p)
    \<and> ReadRandomNodes rnd tab buf = (min (length buf) (length p), take (length buf) p @ drop (length p) buf)"
proof -
  let ?ns = "map Unwrap (tab_nodes tab)"
  let ?p = "shuffle_from rnd 0 (length ?ns) ?ns"
  have p: "mset ?p = mset ?ns" using assms(4) by (intro mset_shuffle) simp_all
  have "distinct (map e_ID ?ns)"
    using table_env.tab_nodes_distinct[OF assms(1,2)] by (simp add: comp_def)
  then have "distinct (map e_ID ?p)" using p by (metis mset_eq_imp_distinct_iff mset_map)
  with p assms(3) show ?thesis
    by (intro exI[of _ ?p]) (simp add: ReadRandomNodes_def Let_def go_copy_def del: map_map)
qed

text \<open>A node that answers the revalidation ping moves to the front of its bucket with its liveness
  count raised; nothing else changes.\<close>

lemma doRevalidate_alive_front:
  assumes "table_env X cnt lim near" and "tab_inv X cnt lim near tab" and "bi < nBuckets"
    and "lst \<in> set (entries (buckets tab ! bi))" and "seq \<le> e_Seq lst"
  shows "doRevalidate X rnd (seq, None) enr lst bi tab
       = upd_bucket tab bi (\<lambda>b. b\<lparr>entries := Bump lst # remove1 lst (entries b)\<rparr>)"
  using table_env.doRevalidate_alive[OF assms(1,2)] assms(3-) by simp

text \<open>C22: A node that does not answer and is still last in its bucket is replaced by a random replacement,
  or removed when there is none. Events: \<open>Removed\<close> is reported whenever no replacement was taken, also for a
  node that meanwhile moved and therefore stays in the table; a replaced node is dropped without an event.\<close>

theorem doRevalidate_dead_outcome:
  assumes "table_env X cnt lim near" and "tab_inv X cnt lim near tab" and "bi < nBuckets"
    and "lst \<in> set (entries (buckets tab ! bi))"
  shows "entries (buckets (doRevalidate X rnd (0, Some e) enr lst bi tab) ! bi)
       = (if last (entries (buckets tab ! bi)) \<noteq> lst then entries (buckets tab ! bi)
          else butlast (entries (buckets tab ! bi))
            @ (if replacements (buckets tab ! bi) = [] then []
               else [replacements (buckets tab ! bi) ! rnd (length (replacements (buckets tab ! bi)))]))
    \<and> hooks (doRevalidate X rnd (0, Some e) enr lst bi tab) = hooks tab
       @ (if last (entries (buckets tab ! bi)) = lst \<and> replacements (buckets tab ! bi) \<noteq> [] then [] else [(lst, Removed)])"
  using table_env.doRevalidate_dead[OF assms(1,2)] assms(3-) by simp

theorem doRevalidate_dead_outcome_witness:
  "let t = doRevalidate (ex_env 0) (\<lambda>_. 0) (0, Some ''timeout'') (Inl []) (hd (tab_nodes ex_tab)) 0 ex_tab
   in hd (tab_nodes ex_tab) \<in> set (entries (buckets t ! 0)) \<and> last (hooks t) = (hd (tab_nodes ex_tab), Removed)"
proof -
  have 1: "hd (tab_nodes ex_tab) \<in> set (entries (buckets ex_tab ! 0))" by code_simp
  have 2: "last (entries (buckets ex_tab ! 0)) \<noteq> hd (tab_nodes ex_tab)" by code_simp
  show ?thesis
    using doRevalidate_dead_outcome[OF ex_table.table_env_axioms ex_tab_inv, of 0 _ "\<lambda>_. 0" "''timeout''" "Inl []"] 1 2
    by (simp add: Let_def)
qed

text \<open>\<open>addVerifiedNode\<close> (the entry point for nodes verified by ping) keeps the table's invariant, also
  when the node announces a new address that the limits refuse.\<close>

lemma addVerifiedNode_invariant:
  assumes "table_env X cnt lim near" and "tab_inv X cnt lim near tab"
  shows "tab_inv X cnt lim near (addVerifiedNode X now tab n)"
  using table_env.addVerifiedNode_inv[OF assms] .

end
