(* ===== verification/V4_Props.thy ===== *)
theory V4_Props
  imports V4 Table_Props
begin

text \<open>
  What the discv4 handler guarantees: the table stays well-formed whatever packets arrive, only proven
  endpoints enter it, answers go to bonded peers only, neighbours are split into packets of the allowed
  size, and the results of the outgoing requests are checked. The witnesses run a concrete handler.
\<close>

section \<open>A concrete handler\<close>

type_synonym ex_db = "(node_id \<times> ip \<Rightarrow> int) \<times> (node_id \<times> ip \<Rightarrow> int)"

definition ex_ext :: "ex_db v4_ext" where
  "ex_ext = \<lparr>vx_Expired = (\<lambda>now ts. uint ts * Second < now), vx_DecodePubkey = (\<lambda>k. if k = [] then Inl ''bad'' else Inr k),
     vx_NewV4 = (\<lambda>k a tcp udp. \<lparr>e_ID = ucast (hd k), e_IP = a, e_UDP = udp, e_TCP = tcp, e_Seq = 1, e_Keys = []\<rparr>),
     vx_LoadKey = (\<lambda>n. Some [ucast (e_ID n)]), vx_New = (\<lambda>r. Inl ''no record''),
     vx_CheckRelayIP = (\<lambda>a b. if b = [] then Some ''bad'' else None), vx_Encode = (\<lambda>p. Inr ([], [])),
     vx_Keccak = (\<lambda>k. 8), vx_MaxNeighbors = 12,
     db_LastPong = (\<lambda>d i a. fst d (i, a)), db_UpdatePong = (\<lambda>d i a t. ((fst d)((i, a) := t), snd d)),
     db_LastPing = (\<lambda>d i a. snd d (i, a)), db_UpdatePing = (\<lambda>d i a t. (fst d, (snd d)((i, a) := t))),
     db_FindFails = (\<lambda>d i a. 0)\<rparr>"

definition ex_v4 :: "int \<Rightarrow> (prefix_set, ex_db) v4_handler" where
  "ex_v4 t = \<lparr>v_cfg = DefaultConfig, v_tab = ex_tab, v_store = (\<lambda>_. t, \<lambda>_. t), v_faults = (\<lambda>_. None),
     v_seq = 1, v_udp = 30303, v_tcp = 30304\<rparr>"

definition ex_ev :: "string + u64 \<Rightarrow> v4_env" where
  "ex_ev ans = \<lparr>ev_now = 100 * Hour, ev_ip = [9,9,9,9], ev_port = 30303, ev_ping = ans, ev_match = None, ev_send = (\<lambda>_. None)\<rparr>"

section \<open>Properties\<close>

text \<open>C3: Handling any packet, from any address and with any answers of the network, keeps the node table's
  invariant, and none of the handler's type assertions fails.\<close>

theorem HandlePacket_invariant:
  assumes "table_env X cnt lim near" and "tab_inv X cnt lim near (v_tab s)"
    and "HandlePacket X V E rec decoded s = ((r, name), s', acts)"
  shows "tab_inv X cnt lim near (v_tab s') \<and> r \<noteq> Panic"
proof -
  have "tab_inv X cnt lim near (v_tab s')"
    using HandlePacket_tab[OF assms(3)] table_env.AddSeenNode_inv[OF assms(1,2)] assms(2)
    by (cases "v_tab s' = v_tab s") auto
  with HandlePacket_no_panic[OF assms(3)] show ?thesis by blast
qed

theorem HandlePacket_invariant_witness:
  "tab_inv (ex_env 0) ps_cnt ps_lim ps_near
     (v_tab (fst (snd (HandlePacket (ex_env 0) ex_ext (ex_ev (Inr 1)) [] (Inr (Ping (- 1) 1 2 3, 77, [77], [])) (ex_v4 0)))))"
  using HandlePacket_invariant[OF ex_table.table_env_axioms, of 0 "ex_v4 0"] ex_tab_inv
  by (cases "HandlePacket (ex_env 0) ex_ext (ex_ev (Inr 1)) [] (Inr (Ping (- 1) 1 2 3, 77, [77], [])) (ex_v4 0)")
     (auto simp: ex_v4_def)

text \<open>C16: What enters the table: a packet changes the table only when it is a ping with a valid key, and then exactly by
  adding its sender, at the address the packet came from, with a pong of whom stored within 24 hours, or who answers the ping
  sent now.\<close>

theorem only_proven_endpoints_enter:
  assumes "HandlePacket X V E rec decoded s = (r, s', acts)" and "v_tab s' \<noteq> v_tab s"
  shows "\<exists>ex udp tcp sq i k h pk n. decoded = Inr (Ping ex udp tcp sq, i, k, h) \<and> vx_DecodePubkey V k = Inr pk
    \<and> n = vx_NewV4 V pk (ev_ip E) (uint tcp) (ev_port E)
    \<and> v_tab s' = AddSeenNode X (ev_now E) (v_tab s) (WrapNode n)
    \<and> (ev_now E - db_LastPong V (db_UpdatePing V (v_store s) i (ev_ip E) (ev_now E)) (e_ID n) (ev_ip E) \<le> bondExpiration
       \<or> (\<exists>q. ev_ping E = Inr q))"
  using HandlePacket_tab[OF assms] unfolding proven_def by blast

theorem only_proven_endpoints_enter_witness:
  "\<exists>pk. vx_DecodePubkey ex_ext [77] = Inr pk
     \<and> v_tab (fst (snd (HandlePacket (ex_env 0) ex_ext (ex_ev (Inr 1)) [] (Inr (Ping (- 1) 1 2 3, 77, [77], [])) (ex_v4 0))))
       = AddSeenNode (ex_env 0) (100 * Hour) ex_tab (WrapNode (vx_NewV4 ex_ext pk [9,9,9,9] 2 30303))"
proof -
  let ?h = "HandlePacket (ex_env 0) ex_ext (ex_ev (Inr 1)) [] (Inr (Ping (- 1) 1 2 3, 77, [77], [])) (ex_v4 0)"
  have "length (tab_nodes (v_tab (fst (snd ?h)))) \<noteq> length (tab_nodes ex_tab)" by code_simp
  then have "v_tab (fst (snd ?h)) \<noteq> v_tab (ex_v4 0)" by (auto simp: ex_v4_def)
  moreover obtain r s' acts where h: "?h = (r, s', acts)" by (metis prod.collapse)
  ultimately have "v_tab s' \<noteq> v_tab (ex_v4 0)" by simp
  from only_proven_endpoints_enter[OF h this]
  have "\<exists>pk. vx_DecodePubkey ex_ext [77] = Inr pk
     \<and> v_tab s' = AddSeenNode (ex_env 0) (100 * Hour) ex_tab (WrapNode (vx_NewV4 ex_ext pk [9,9,9,9] 2 30303))"
    by (auto simp: ex_ev_def ex_v4_def)
  then show ?thesis unfolding h by simp
qed

text \<open>C4: Guarded answers: neighbour lists and node records are sent only in answer to an unexpired request of a
  peer with a pong stored within 24 hours for that address, and only when the configuration enables that answer.\<close>

theorem answers_only_to_bonded:
  assumes "HandlePacket X V E rec decoded s = (r, s', acts)"
    and "Sent j (Neighbors c ex') aw \<in> set acts \<or> Sent j (ENRResponse t r') aw \<in> set acts"
  shows "\<exists>p k h. decoded = Inr (p, j, k, h) \<and> checkBond V (ev_now E) j (ev_ip E) (v_store s)
    \<and> ((\<exists>tgt ex. p = Findnode tgt ex \<and> \<not> vx_Expired V (ev_now E) ex \<and> ResponseFindNode (v_cfg s))
       \<or> (\<exists>ex. p = ENRRequest ex \<and> \<not> vx_Expired V (ev_now E) ex \<and> ResponseEnr (v_cfg s)))"
  using HandlePacket_sent[OF assms] .

theorem answers_only_to_bonded_witness:
  "checkBond ex_ext (100 * Hour) 77 [9,9,9,9] (v_store (ex_v4 (99 * Hour)))"
proof -
  let ?h = "HandlePacket (ex_env 0) ex_ext (ex_ev (Inl [])) [] (Inr (ENRRequest (- 1), 77, [77], [])) (ex_v4 (99 * Hour))"
  have a: "snd (snd ?h) = [Sent 77 (ENRResponse [] []) False]" by code_simp
  obtain r s' acts where h: "?h = (r, s', acts)" by (metis prod.collapse)
  with a have "Sent 77 (ENRResponse [] []) False \<in> set acts" by simp
  with answers_only_to_bonded[OF h, of 77 "[]" 0 False "[]" "[]"] show ?thesis by (auto simp: ex_ev_def)
qed

text \<open>C23: The neighbours of a FINDNODE answer are the closest nodes with a relayable address, in order, split into
  packets of at most \<open>MaxNeighbors\<close> nodes, all but the last full; there is always at least one packet, and an
  empty one only when there is nothing to send.\<close>

theorem neighbors_packets:
  assumes "0 < vx_MaxNeighbors V" and "\<forall>p. ev_send E p = None" and "\<forall>p. \<exists>b. vx_Encode V p = Inr b"
  shows "\<exists>cs. makeFindNodesResponse X V E target ex i s = (None, map (\<lambda>c. Sent i (Neighbors c ex) False) cs)
    \<and> concat cs = relayable V E (nbd_entries (FindnodeByID X (v_tab s) (vx_Keccak V target) (NeighbourAmount (v_cfg s)) True))
    \<and> (\<forall>c \<in> set cs. length c \<le> vx_MaxNeighbors V) \<and> (\<forall>c \<in> set (butlast cs). length c = vx_MaxNeighbors V)
    \<and> cs \<noteq> [] \<and> ([] \<in> set cs \<longrightarrow> cs = [[]])"
  using neighbors_loop_chunks[OF assms, of "[]" i ex _ False "[]"] assms(1)
  by (fastforce simp: makeFindNodesResponse_def chunked_def)

theorem neighbors_packets_witness:
  "\<exists>cs. makeFindNodesResponse (ex_env 0) ex_ext (ex_ev (Inl [])) [1] 5 77 (ex_v4 0)
      = (None, map (\<lambda>c. Sent 77 (Neighbors c 5) False) cs) \<and> cs \<noteq> [] \<and> (\<forall>c \<in> set cs. length c \<le> 12)"
  using neighbors_packets[of ex_ext "ex_ev (Inl [])" "ex_env 0" "[1]" 5 77 "ex_v4 0"]
  by (auto simp: ex_ext_def ex_ev_def)

text \<open>\<open>tryBond\<close> says yes only when the peer has pinged us within 24 hours (now, or after the grace period) and
  we had its pong within 24 hours and few enough failures, or it answered the ping sent now.\<close>

lemma tryBond_sound:
  assumes "tryBond V E i a now2 d2 s = (True, s', acts)"
  shows "(ev_now E - db_LastPing V (v_store s) i a < bondExpiration \<or> now2 - db_LastPing V d2 i a < bondExpiration)
    \<and> (checkBond V (ev_now E) i a (v_store s) \<and> db_FindFails V (v_store s) i a \<le> maxFindnodeFailures
       \<or> (\<exists>q. ev_ping E = Inr q) \<and> acts = [Sent i (generatePing E s) True]) \<and> s' = s"
  using assms by (auto simp: tryBond_def makePingRequest_def Let_def split: if_splits sum.splits prod.splits)

text \<open>The fault budget: of the ENR requests of an unbonded peer whose pings keep failing, only the first five
  make us ping it, until the 16-bit fault counter wraps around after 65536 of them.\<close>

lemma enr_fault_budget:
  assumes "ResponseEnr (v_cfg s)" and "\<not> vx_Expired V (ev_now E) ex" and "\<not> checkBond V (ev_now E) i (ev_ip E) (v_store s)"
    and "\<forall>p. \<exists>b. vx_Encode V p = Inr b" and "ev_ping E = Inl err" and "v_faults s i = None"
  shows "enr_probes V E ex i n s = map (\<lambda>j. j mod 2 ^ 16 \<le> 5) [1..<Suc n]"
proof -
  have "(of_nat j :: u16) \<le> maxGlobalFailures \<longleftrightarrow> j mod 2 ^ 16 \<le> 5" for j
    by (simp add: maxGlobalFailures_def word_le_nat_alt unsigned_of_nat take_bit_eq_mod)
  then show ?thesis using enr_probes_count[OF assms(1-5), of 0 n] assms(6) by simp
qed

text \<open>What a FINDNODE request returns: only nodes built from received entries with a port above 1024, an address
  the sender may relay and a complete record; an error only when nothing was received.\<close>

lemma findnode_results_checked:
  assumes "makeFindNodeRequest X V E i key e replies = ((nodes, er), acts)"
  shows "(\<forall>n \<in> set nodes. \<exists>rn \<in> set (concat replies). nodeFromRPC X V (ev_ip E) rn = Inr n \<and> 1024 < rn_UDP rn
            \<and> vx_CheckRelayIP V (ev_ip E) (rn_IP rn) = None \<and> x_Validate X n = None)
    \<and> (er \<noteq> None \<longrightarrow> nodes = [])"
proof -
  let ?c = "findnode_check X V (ev_ip E) (concat replies) ([], 0)"
  have k: "snd ?c = int (length (concat replies))" by (subst findnode_check_split) simp
  have z: "fst ?c = []" if "snd ?c = 0"
  proof -
    have "concat replies = []" using that k by (metis length_0_conv of_nat_eq_0_iff)
    then show ?thesis by (simp only: findnode_check.simps fst_conv)
  qed
  have "er \<noteq> None \<longrightarrow> nodes = []"
    using assms z by (auto simp: makeFindNodeRequest_def findnode_result_def Let_def split: sum.splits if_splits)
  then show ?thesis using findnode_request_nodes[OF assms] nodeFromRPC_ok by blast
qed

text \<open>An ENR request yields a record of the requested node only, never an older one than the node it was asked
  for, and a new one only with an address the sender may relay.\<close>

lemma enr_result_checked:
  assumes "enr_result V a n rec = Inr r"
  shows "e_ID r = e_ID n \<and> e_Seq n \<le> e_Seq r \<and> (r = n \<or> vx_CheckRelayIP V a (e_IP r) = None)"
  using assms by (auto simp: enr_result_def not_less split: sum.splits if_splits option.splits)

text \<open>What a handler may do about a packet of a given type from a given node and address: answer a request with the packet of
  the answering type (a ping also with a ping of its own, which awaits the pong), hand a response on as it is.\<close>

definition reaction :: "v4packet \<Rightarrow> node_id \<Rightarrow> ip \<Rightarrow> v4_action \<Rightarrow> bool" where
  "reaction p i a act =
     (case act of
        Sent j q aw \<Rightarrow> j = i \<and> (case p of
            Ping _ _ _ _ \<Rightarrow> (case q of Pong _ _ _ \<Rightarrow> \<not> aw | Ping _ _ _ _ \<Rightarrow> aw | _ \<Rightarrow> False)
          | Findnode _ _ \<Rightarrow> (case q of Neighbors _ _ \<Rightarrow> \<not> aw | _ \<Rightarrow> False)
          | ENRRequest _ \<Rightarrow> (case q of ENRResponse _ _ \<Rightarrow> \<not> aw | Ping _ _ _ _ \<Rightarrow> aw | _ \<Rightarrow> False)
          | _ \<Rightarrow> False)
      | Match j b q _ \<Rightarrow> j = i \<and> b = a \<and> q = p \<and> (case p of
            Pong _ _ _ \<Rightarrow> True | Neighbors _ _ \<Rightarrow> True | ENRResponse _ _ \<Rightarrow> True | _ \<Rightarrow> False))"

text \<open>What a packet calls for, when our own packets can be encoded: an unexpired ping with a valid key is answered with a pong that carries
  its hash, followed by a ping of our own exactly when the pong went out and no pong of the sender is stored within 24 hours;
  an accepted findnode request with one or more packets of neighbours, an accepted record request with the local record; a
  record request without a bond with a ping unless the sender is faulty; an unexpired response is handed to the awaiter. In
  all other cases nothing is done.\<close>

definition called_for :: "'db v4_ext \<Rightarrow> v4_env \<Rightarrow> u8 list \<Rightarrow> v4packet \<Rightarrow> node_id \<Rightarrow> pubkey \<Rightarrow> u8 list \<Rightarrow> ('s, 'db) v4_handler \<Rightarrow>
    v4_action list \<Rightarrow> bool" where
  "called_for V E rec p i k h s acts \<longleftrightarrow>
     (case p of
        Ping ex udp tcp sq \<Rightarrow>
          (if vx_Expired V (ev_now E) ex then acts = []
           else case vx_DecodePubkey V k of
             Inl _ \<Rightarrow> acts = []
           | Inr pk \<Rightarrow> acts = Sent i (Pong h ex (v_seq s)) False #
               (if ev_send E (Pong h ex (v_seq s)) = None \<and> bondExpiration < ev_now E -
                   db_LastPong V (db_UpdatePing V (v_store s) i (ev_ip E) (ev_now E)) (e_ID (vx_NewV4 V pk (ev_ip E) (uint tcp) (ev_port E))) (ev_ip E)
                then [Sent i (generatePing E s) True] else []))
      | Findnode t ex \<Rightarrow>
          (if ResponseFindNode (v_cfg s) \<and> \<not> vx_Expired V (ev_now E) ex \<and> checkBond V (ev_now E) i (ev_ip E) (v_store s)
           then acts \<noteq> [] \<and> list_all (\<lambda>a. \<exists>ns. a = Sent i (Neighbors ns ex) False) acts else acts = [])
      | ENRRequest ex \<Rightarrow>
          acts = (if \<not> ResponseEnr (v_cfg s) \<or> vx_Expired V (ev_now E) ex then []
            else if checkBond V (ev_now E) i (ev_ip E) (v_store s) then [Sent i (ENRResponse h rec) False]
            else if isFaulty i (markFault i (v_faults s)) then [] else [Sent i (generatePing E s) True])
      | Pong _ ex _ \<Rightarrow> acts = (if vx_Expired V (ev_now E) ex then [] else [Match i (ev_ip E) p (sint ex)])
      | Neighbors _ ex \<Rightarrow> acts = (if vx_Expired V (ev_now E) ex then [] else [Match i (ev_ip E) p (sint ex)])
      | ENRResponse _ _ \<Rightarrow> acts = [Match i (ev_ip E) p (toUnix (ev_now E + 10 * Second))]
      | OtherPacket \<Rightarrow> acts = [])"

lemma neighbors_loop_nonempty:
  assumes "\<And>q. vx_Encode V q = Inr (f q)"
  shows "neighbors_loop V E i ex ns acc sent acts = (e, acts') \<Longrightarrow> sent \<longrightarrow> acts \<noteq> [] \<Longrightarrow> acts' \<noteq> []"
proof (induction ns arbitrary: acc sent acts)
  case Nil
  then show ?case by (auto simp: sendAndForget_def assms split: if_splits)
next
  case (Cons n ns)
  from Cons.prems Cons.IH[of acc sent acts] Cons.IH[of "acc @ [nodeToRPC V n]" sent acts]
    Cons.IH[of "[]" True "acts @ [Sent i (Neighbors (acc @ [nodeToRPC V n]) ex) False]"]
  show ?case by (auto simp: sendAndForget_def assms Let_def split: if_splits option.splits)
qed

lemma HandlePacket_called_for:
  assumes "HandlePacket X V E rec (Inr (p, i, k, h)) s = ((r, name), s', acts)" and enc: "\<forall>p. \<exists>b. vx_Encode V p = Inr b"
  shows "called_for V E rec p i k h s acts"
proof -
  obtain enc' where e: "vx_Encode V q = Inr (enc' q)" for q using enc by metis
  have g: "generatePing E (s\<lparr>v_store := d\<rparr>) = generatePing E s" "generatePing E (s\<lparr>v_faults := f\<rparr>) = generatePing E s" for d f
    by (simp_all add: generatePing_def)
  show ?thesis
  proof (cases p)
    case (Findnode t x)
    have "acts' \<noteq> [] \<and> list_all (\<lambda>a. \<exists>ns. a = Sent i (Neighbors ns x) False) acts'"
      if "neighbors_loop V E i x ns [] False [] = (er, acts')" for ns er acts'
      using neighbors_loop_nonempty[OF e that] neighbors_loop_sent[OF that] by (auto simp: list_all_iff)
    with Findnode assms(1) show ?thesis
      by (auto simp: called_for_def HandlePacket_findnode makeFindNodesResponse_def split: if_splits prod.splits)
  next
    case (Ping ex udp tcp sq)
    with assms(1) show ?thesis
      by (auto simp: called_for_def HandlePacket_ping HandlePingRequest_def makePingRequest_def e g Let_def
          split: sum.splits if_splits prod.splits option.splits)
  next
    case (ENRRequest ex)
    with assms(1) show ?thesis
      by (auto simp: called_for_def HandlePacket_enr verifyENRRequest_def handleENRRequest_def makePingRequest_def sendAndForget_def e g Let_def
          split: handler_splits)
  qed (use assms(1) in \<open>auto simp: called_for_def HandlePacket_simps split: if_splits\<close>)
qed

text \<open>C5: Packets are handled according to their type: whatever arrives, the type assertions of the handlers hold (no panic) and every
  action is of a type that answers the packet, to its sender; the actions are exactly those the packet calls for (\<open>called_for\<close>): a
  request is answered to its sender, a response is handed to the awaiter unchanged; other packets and undecodable bytes change
  nothing.\<close>

theorem reactions_typed:
  assumes "HandlePacket X V E rec decoded s = ((r, name), s', acts)"
  shows "r \<noteq> Panic \<and> (case decoded of Inl e \<Rightarrow> acts = [] \<and> s' = s \<and> r = Ret (Some e)
    | Inr (p, i, k, h) \<Rightarrow> (\<forall>act \<in> set acts. reaction p i (ev_ip E) act)
        \<and> ((\<forall>q. \<exists>b. vx_Encode V q = Inr b) \<longrightarrow> called_for V E rec p i k h s acts)
        \<and> (p = OtherPacket \<longrightarrow> r = Ret (Some ErrUnknownPacket) \<and> s' = s \<and> acts = []))"
proof (cases decoded rule: decoded_cases)
  case (2 p i k h)
  have c: "(\<forall>q. \<exists>b. vx_Encode V q = Inr b) \<longrightarrow> called_for V E rec p i k h s acts" using HandlePacket_called_for assms 2 by blast
  have "r \<noteq> Panic \<and> (\<forall>act \<in> set acts. reaction p i (ev_ip E) act) \<and> (p = OtherPacket \<longrightarrow> r = Ret (Some ErrUnknownPacket) \<and> s' = s \<and> acts = [])"
  proof (cases p)
    case (Findnode t x)
    have "\<exists>c. x' = Sent i (Neighbors c x) False"
      if "neighbors_loop V E i x ns [] False [] = (e, acts')" "x' \<in> set acts'" for ns e acts' x'
      using neighbors_loop_sent[OF that] by simp
    then have "\<forall>x' \<in> set acts'. reaction (Findnode t x) i a x'" if "neighbors_loop V E i x ns [] False [] = (e, acts')" for ns e acts' a
      using that by (fastforce simp: reaction_def)
    with Findnode assms 2 show ?thesis
      by (auto simp: HandlePacket_findnode makeFindNodesResponse_def split: if_splits prod.splits)
  next
    case (Ping ex udp tcp sq)
    with assms 2 show ?thesis
      by (auto simp: HandlePacket_ping HandlePingRequest_def makePingRequest_def generatePing_def reaction_def Let_def
          split: sum.splits if_splits prod.splits option.splits)
  next
    case (ENRRequest ex)
    with assms 2 show ?thesis
      by (auto simp: HandlePacket_enr verifyENRRequest_def handleENRRequest_def makePingRequest_def sendAndForget_def
          generatePing_def reaction_def Let_def split: handler_splits)
  qed (use assms 2 in \<open>auto simp: HandlePacket_simps reaction_def split: if_splits prod.splits\<close>)
  with c show ?thesis by (simp add: 2)
qed (use assms in \<open>auto simp: HandlePacket_error\<close>)

theorem reactions_typed_witness:
  "snd (snd (HandlePacket (ex_env 0) ex_ext (ex_ev (Inl [])) [3] (Inr (ENRRequest 1000000, 77, [77], [5])) (ex_v4 (99 * Hour))))
     = [Sent 77 (ENRResponse [5] [3]) False]"
proof -
  let ?h = "HandlePacket (ex_env 0) ex_ext (ex_ev (Inl [])) [3] (Inr (ENRRequest 1000000, 77, [77], [5])) (ex_v4 (99 * Hour))"
  obtain r name s' acts where h: "?h = ((r, name), s', acts)" by (metis prod.collapse)
  have "\<forall>q. \<exists>b. vx_Encode ex_ext q = Inr b" by (simp add: ex_ext_def)
  with reactions_typed[OF h] have "called_for ex_ext (ex_ev (Inl [])) [3] (ENRRequest 1000000) 77 [77] [5] (ex_v4 (99 * Hour)) acts" by simp
  then show ?thesis unfolding h
    by (simp add: called_for_def ex_v4_def DefaultConfig_def ex_ev_def ex_ext_def checkBond_def bondExpiration_def time_defs)
qed

end
