(* ===== verification/Exchange.thy ===== *)
theory Exchange
  imports V4_Props
begin

text \<open>
  Two nodes of the v4 protocol talking to each other: the ping exchange that bonds them, composed of the handlers of \<open>V4\<close> on both
  sides, and what a single pong does to a node that has not asked for it. The wire format, the keys and the node database
  are those of the libraries; what is relied on are the hypotheses \<open>wire_ok\<close>, \<open>key_ok\<close> and \<open>node_db_ok\<close>.
\<close>

section \<open>Wire, keys and database\<close>

type_synonym decoder = "u8 list \<Rightarrow> string + (v4packet \<times> node_id \<times> pubkey \<times> u8 list)"

definition wire :: "'db v4_ext \<Rightarrow> v4packet \<Rightarrow> u8 list \<times> u8 list" where
  "wire V p = (case vx_Encode V p of Inl e \<Rightarrow> ([], []) | Inr b \<Rightarrow> b)"

text \<open>Decoding what node \<open>i\<close> with key \<open>k\<close> has encoded gives the packet, its sender and the hash of the encoding.\<close>

definition wire_ok :: "'db v4_ext \<Rightarrow> decoder \<Rightarrow> node_id \<Rightarrow> pubkey \<Rightarrow> v4packet \<Rightarrow> bool" where
  "wire_ok V decode i k p \<longleftrightarrow> (\<exists>data h. vx_Encode V p = Inr (data, h) \<and> decode data = Inr (p, i, k, h))"

text \<open>The key of a node decodes, and the record made of it has the identifier of the node.\<close>

definition key_ok :: "'db v4_ext \<Rightarrow> pubkey \<Rightarrow> node_id \<Rightarrow> bool" where
  "key_ok V k i \<longleftrightarrow> (\<exists>pk. vx_DecodePubkey V k = Inr pk \<and> (\<forall>a tcp udp. e_ID (vx_NewV4 V pk a tcp udp) = i))"

text \<open>\<open>enode.DB\<close> keeps the times of the last ping and pong per node and address, in seconds.\<close>

definition node_db_ok :: "'db v4_ext \<Rightarrow> bool" where
  "node_db_ok V \<longleftrightarrow> (\<forall>d i a t j b.
     db_LastPong V (db_UpdatePong V d i a t) j b = (if (j, b) = (i, a) then unix (toUnix t) else db_LastPong V d j b)
     \<and> db_LastPing V (db_UpdatePing V d i a t) j b = (if (j, b) = (i, a) then unix (toUnix t) else db_LastPing V d j b)
     \<and> db_LastPong V (db_UpdatePing V d i a t) j b = db_LastPong V d j b
     \<and> db_LastPing V (db_UpdatePong V d i a t) j b = db_LastPing V d j b)"

lemma node_db_simps:
  assumes "node_db_ok V"
  shows "db_LastPong V (db_UpdatePong V d i a t) i a = unix (toUnix t)" "db_LastPing V (db_UpdatePing V d i a t) i a = unix (toUnix t)"
    "db_LastPong V (db_UpdatePing V d i a t) j b = db_LastPong V d j b" "db_LastPing V (db_UpdatePong V d i a t) j b = db_LastPing V d j b"
  using assms by (simp_all add: node_db_ok_def)

section \<open>The exchange\<close>

text \<open>The verifier of \<open>generatePing\<close>: the pong that answers a ping repeats its hash and brings the sender's sequence number.\<close>

definition ping_answer :: "u8 list \<Rightarrow> v4packet \<Rightarrow> u64 option" where
  "ping_answer hash p = (case p of Pong tok ex sq \<Rightarrow> if tok = hash then Some sq else None | _ \<Rightarrow> None)"

fun ping_exp :: "v4packet \<Rightarrow> u64" where
  "ping_exp (Ping ex udp tcp sq) = ex"
| "ping_exp _ = 0"

text \<open>A side: its libraries, what it sees of the other (clock, address, network), its record, its identifier and key.\<close>

record ('s, 'db) side =
  sd_X :: "'s table_ext"
  sd_V :: "'db v4_ext"
  sd_E :: v4_env
  sd_rec :: "u8 list"
  sd_id :: node_id
  sd_key :: pubkey

text \<open>A datagram reaches a side; \<open>ans\<close> is what becomes of the ping that handling it may send.\<close>

definition hear :: "decoder \<Rightarrow> ('s, 'db) side \<Rightarrow> u64 option \<Rightarrow> u8 list \<Rightarrow> ('s, 'db) v4_handler \<Rightarrow>
    (outcome \<times> string) \<times> ('s, 'db) v4_handler \<times> v4_action list" where
  "hear decode S ans data s =
     HandlePacket (sd_X S) (sd_V S) ((sd_E S)\<lparr>ev_ping := (case ans of None \<Rightarrow> Inl ''timeout'' | Some q \<Rightarrow> Inr q)\<rparr>) (sd_rec S) (decode data) s"

text \<open>The ping a side sends to the other, and the pong it answers the other's ping with.\<close>

definition ping_of :: "('s, 'db) side \<Rightarrow> ('s, 'db) v4_handler \<Rightarrow> v4packet" where
  "ping_of S s = generatePing (sd_E S) s"

definition pong_of :: "('s, 'db) side \<Rightarrow> ('s, 'db) v4_handler \<Rightarrow> ('s, 'db) side \<Rightarrow> ('s, 'db) v4_handler \<Rightarrow> v4packet" where
  "pong_of S s T t = Pong (snd (wire (sd_V T) (ping_of T t))) (ping_exp (ping_of T t)) (v_seq s)"

record ('s, 'db) bonded =
  bd_answer :: "u64 option"
  bd_outcomes :: "outcome list"
  bd_sentA :: "v4_action list"
  bd_sentB :: "v4_action list"
  bd_A :: "('s, 'db) v4_handler"
  bd_B :: "('s, 'db) v4_handler"

text \<open>\<open>A\<close> pings \<open>B\<close>. The four datagrams of the exchange in an order the network may deliver them: the ping at \<open>B\<close>, which answers
  and pings back; that answer at \<open>A\<close>; the other ping at \<open>A\<close>; its answer at \<open>B\<close>.\<close>

definition exchange :: "decoder \<Rightarrow> ('s, 'db) side \<Rightarrow> ('s, 'db) side \<Rightarrow> ('s, 'db) v4_handler \<Rightarrow> ('s, 'db) v4_handler \<Rightarrow> ('s, 'db) bonded" where
  "exchange decode A B sA sB =
     (case hear decode B (ping_answer (snd (wire (sd_V B) (ping_of B sB))) (pong_of A sA B sB)) (fst (wire (sd_V A) (ping_of A sA))) sB of
        ((r1, _), sB1, acts1) \<Rightarrow>
      case hear decode A None (fst (wire (sd_V B) (pong_of B sB A sA))) sA of ((r2, _), sA1, acts2) \<Rightarrow>
      case hear decode A None (fst (wire (sd_V B) (ping_of B sB))) sA1 of ((r3, _), sA2, acts3) \<Rightarrow>
      case hear decode B None (fst (wire (sd_V A) (pong_of A sA B sB))) sB1 of ((r4, _), sB2, acts4) \<Rightarrow>
        \<lparr>bd_answer = ping_answer (snd (wire (sd_V A) (ping_of A sA))) (pong_of B sB A sA), bd_outcomes = [r1, r2, r3, r4],
         bd_sentA = acts2 @ acts3, bd_sentB = acts1 @ acts4, bd_A = sA2, bd_B = sB2\<rparr>)"

text \<open>The node a side is taken for by the other.\<close>

definition seen_as :: "('s, 'db) side \<Rightarrow> pubkey \<Rightarrow> ('s, 'db) v4_handler \<Rightarrow> Node" where
  "seen_as S k other = WrapNode (vx_NewV4 (sd_V S) (projr (vx_DecodePubkey (sd_V S) k)) (ev_ip (sd_E S)) (uint (v_tcp other)) (ev_port (sd_E S)))"

section \<open>Lemmas\<close>

lemma wire_okD: "wire_ok V decode i k p \<Longrightarrow> decode (fst (wire V p)) = Inr (p, i, k, snd (wire V p)) \<and> vx_Encode V p = Inr (wire V p)"
  by (auto simp: wire_ok_def wire_def)

lemma hear_pong:
  assumes "decode data = Inr (Pong tok ex sq, i, k, h)" "\<not> vx_Expired (sd_V S) (ev_now (sd_E S)) ex"
  shows "hear decode S ans data s = ((Ret (ev_match (sd_E S)), ''PONG/v4''),
    s\<lparr>v_store := db_UpdatePong (sd_V S) (v_store s) i (ev_ip (sd_E S)) (ev_now (sd_E S))\<rparr>,
    [Match i (ev_ip (sd_E S)) (Pong tok ex sq) (sint ex)])"
  using assms by (simp add: hear_def HandlePacket_pong)

lemma generatePing_ev [simp]: "generatePing (E\<lparr>ev_ping := x\<rparr>) s = generatePing E s" "generatePing E (s\<lparr>v_store := d\<rparr>) = generatePing E s"
  by (simp_all add: generatePing_def)

text \<open>A ping of a peer without a bond, whose answer to our own ping arrives.\<close>

lemma hear_ping_new:
  assumes "decode data = Inr (Ping ex udp tcp sq, i, k, h)" "\<not> vx_Expired (sd_V S) (ev_now (sd_E S)) ex" "key_ok (sd_V S) k i"
    "node_db_ok (sd_V S)" "vx_Encode (sd_V S) (Pong h ex (v_seq s)) = Inr x" "ev_send (sd_E S) (Pong h ex (v_seq s)) = None"
    "bondExpiration < ev_now (sd_E S) - db_LastPong (sd_V S) (v_store s) i (ev_ip (sd_E S))"
    "vx_Encode (sd_V S) (generatePing (sd_E S) s) = Inr y"
  shows "hear decode S (Some q) data s = ((Ret None, ''PING/v4''),
    s\<lparr>v_store := db_UpdatePing (sd_V S) (v_store s) i (ev_ip (sd_E S)) (ev_now (sd_E S)),
      v_tab := AddSeenNode (sd_X S) (ev_now (sd_E S)) (v_tab s)
        (WrapNode (vx_NewV4 (sd_V S) (projr (vx_DecodePubkey (sd_V S) k)) (ev_ip (sd_E S)) (uint tcp) (ev_port (sd_E S))))\<rparr>,
    [Sent i (Pong h ex (v_seq s)) False, Sent i (generatePing (sd_E S) s) True])"
proof -
  obtain pk where pk: "vx_DecodePubkey (sd_V S) k = Inr pk" "\<And>a t u. e_ID (vx_NewV4 (sd_V S) pk a t u) = i"
    using assms(3) by (auto simp: key_ok_def)
  show ?thesis using assms pk
    by (simp add: hear_def HandlePacket_ping HandlePingRequest_def makePingRequest_def node_db_simps Let_def)
qed

text \<open>A ping of a peer whose pong we have.\<close>

lemma hear_ping_known:
  assumes "decode data = Inr (Ping ex udp tcp sq, i, k, h)" "\<not> vx_Expired (sd_V S) (ev_now (sd_E S)) ex" "key_ok (sd_V S) k i"
    "node_db_ok (sd_V S)" "vx_Encode (sd_V S) (Pong h ex (v_seq s)) = Inr x" "ev_send (sd_E S) (Pong h ex (v_seq s)) = None"
    "ev_now (sd_E S) - db_LastPong (sd_V S) (v_store s) i (ev_ip (sd_E S)) \<le> bondExpiration"
  shows "hear decode S ans data s = ((Ret None, ''PING/v4''),
    s\<lparr>v_store := db_UpdatePing (sd_V S) (v_store s) i (ev_ip (sd_E S)) (ev_now (sd_E S)),
      v_tab := AddSeenNode (sd_X S) (ev_now (sd_E S)) (v_tab s)
        (WrapNode (vx_NewV4 (sd_V S) (projr (vx_DecodePubkey (sd_V S) k)) (ev_ip (sd_E S)) (uint tcp) (ev_port (sd_E S))))\<rparr>,
    [Sent i (Pong h ex (v_seq s)) False])"
proof -
  obtain pk where pk: "vx_DecodePubkey (sd_V S) k = Inr pk" "\<And>a t u. e_ID (vx_NewV4 (sd_V S) pk a t u) = i"
    using assms(3) by (auto simp: key_ok_def)
  show ?thesis using assms pk
    by (simp add: hear_def HandlePacket_ping HandlePingRequest_def node_db_simps Let_def)
qed

text \<open>Seconds lose less than one.\<close>

lemma unix_toUnix: "unix (toUnix t) \<le> t" "t - unix (toUnix t) < Second"
  by (simp_all add: time_defs minus_div_mult_eq_mod)

lemma fresh_bond: "t - unix (toUnix t) \<le> bondExpiration" "t - unix (toUnix t) < bondExpiration"
  using unix_toUnix[of t] by (simp_all add: bondExpiration_def time_defs)


text \<open>What the exchange needs of its surroundings: libraries that behave, a network that delivers within the lifetime of the packets.\<close>

definition side_ok :: "('s, 'db) side \<Rightarrow> ('s, 'db) side \<Rightarrow> bool" where
  "side_ok S T \<longleftrightarrow> key_ok (sd_V S) (sd_key T) (sd_id T) \<and> node_db_ok (sd_V S) \<and> ev_match (sd_E S) = None \<and> ev_send (sd_E S) = (\<lambda>p. None)"

definition heard_from :: "decoder \<Rightarrow> ('s, 'db) side \<Rightarrow> ('s, 'db) v4_handler \<Rightarrow> ('s, 'db) side \<Rightarrow> ('s, 'db) v4_handler \<Rightarrow> bool" where
  "heard_from decode T t S s \<longleftrightarrow> side_ok S T
     \<and> wire_ok (sd_V T) decode (sd_id T) (sd_key T) (ping_of T t) \<and> wire_ok (sd_V T) decode (sd_id T) (sd_key T) (pong_of T t S s)
     \<and> \<not> vx_Expired (sd_V S) (ev_now (sd_E S)) (ping_exp (ping_of T t)) \<and> \<not> vx_Expired (sd_V S) (ev_now (sd_E S)) (ping_exp (ping_of S s))"

lemma ping_of_Ping: "ping_of S s = Ping (ping_exp (ping_of S s)) (v_udp s) (v_tcp s) (v_seq s)"
  by (simp add: ping_of_def generatePing_def)

lemma ping_of_frame [simp]: "ping_of S (s\<lparr>v_store := d\<rparr>) = ping_of S s"
  by (simp add: ping_of_def)

text \<open>The states after the exchange.\<close>

definition after_bond :: "('s, 'db) side \<Rightarrow> ('s, 'db) side \<Rightarrow> ('s, 'db) v4_handler \<Rightarrow> 'db \<Rightarrow> ('s, 'db) v4_handler \<Rightarrow> ('s, 'db) v4_handler" where
  "after_bond S T t d s = s\<lparr>v_store := d, v_tab := AddSeenNode (sd_X S) (ev_now (sd_E S)) (v_tab s) (seen_as S (sd_key T) t)\<rparr>"

lemma exchange_steps:
  assumes A: "heard_from decode B sB A sA" and B: "heard_from decode A sA B sB"
    and new: "bondExpiration < ev_now (sd_E B) - db_LastPong (sd_V B) (v_store sB) (sd_id A) (ev_ip (sd_E B))"
  defines "t \<equiv> ev_now (sd_E B)" and "u \<equiv> ev_now (sd_E A)"
  defines "dB \<equiv> db_UpdatePing (sd_V B) (v_store sB) (sd_id A) (ev_ip (sd_E B)) t"
    and "dA \<equiv> db_UpdatePong (sd_V A) (v_store sA) (sd_id B) (ev_ip (sd_E A)) u"
  shows "hear decode B (ping_answer (snd (wire (sd_V B) (ping_of B sB))) (pong_of A sA B sB)) (fst (wire (sd_V A) (ping_of A sA))) sB
      = ((Ret None, ''PING/v4''), after_bond B A sA dB sB, [Sent (sd_id A) (pong_of B sB A sA) False, Sent (sd_id A) (ping_of B sB) True])"
    and "hear decode A None (fst (wire (sd_V B) (pong_of B sB A sA))) sA
      = ((Ret None, ''PONG/v4''), sA\<lparr>v_store := dA\<rparr>,
         [Match (sd_id B) (ev_ip (sd_E A)) (pong_of B sB A sA) (sint (ping_exp (ping_of A sA)))])"
    and "hear decode A None (fst (wire (sd_V B) (ping_of B sB))) (sA\<lparr>v_store := dA\<rparr>)
      = ((Ret None, ''PING/v4''), after_bond A B sB (db_UpdatePing (sd_V A) dA (sd_id B) (ev_ip (sd_E A)) u) sA,
         [Sent (sd_id B) (pong_of A sA B sB) False])"
    and "hear decode B None (fst (wire (sd_V A) (pong_of A sA B sB))) (after_bond B A sA dB sB)
      = ((Ret None, ''PONG/v4''), after_bond B A sA (db_UpdatePong (sd_V B) dB (sd_id A) (ev_ip (sd_E B)) t) sB,
         [Match (sd_id A) (ev_ip (sd_E B)) (pong_of A sA B sB) (sint (ping_exp (ping_of B sB)))])"
proof -
  note ok = A[unfolded heard_from_def side_ok_def] B[unfolded heard_from_def side_ok_def]
  have wA: "decode (fst (wire (sd_V A) (ping_of A sA))) = Inr (Ping (ping_exp (ping_of A sA)) (v_udp sA) (v_tcp sA) (v_seq sA), sd_id A, sd_key A, snd (wire (sd_V A) (ping_of A sA)))"
    and wB: "decode (fst (wire (sd_V B) (ping_of B sB))) = Inr (Ping (ping_exp (ping_of B sB)) (v_udp sB) (v_tcp sB) (v_seq sB), sd_id B, sd_key B, snd (wire (sd_V B) (ping_of B sB)))"
    and pA: "decode (fst (wire (sd_V A) (pong_of A sA B sB))) = Inr (pong_of A sA B sB, sd_id A, sd_key A, snd (wire (sd_V A) (pong_of A sA B sB)))"
    and pB: "decode (fst (wire (sd_V B) (pong_of B sB A sA))) = Inr (pong_of B sB A sA, sd_id B, sd_key B, snd (wire (sd_V B) (pong_of B sB A sA)))"
    using ok wire_okD ping_of_Ping by metis+
  have eB: "vx_Encode (sd_V B) (pong_of B sB A sA) = Inr (wire (sd_V B) (pong_of B sB A sA))" "vx_Encode (sd_V B) (ping_of B sB) = Inr (wire (sd_V B) (ping_of B sB))"
    and eA: "vx_Encode (sd_V A) (pong_of A sA B sB) = Inr (wire (sd_V A) (pong_of A sA B sB))"
    using ok wire_okD by metis+
  show "hear decode A None (fst (wire (sd_V B) (pong_of B sB A sA))) sA
      = ((Ret None, ''PONG/v4''), sA\<lparr>v_store := dA\<rparr>,
         [Match (sd_id B) (ev_ip (sd_E A)) (pong_of B sB A sA) (sint (ping_exp (ping_of A sA)))])"
    using hear_pong[where decode = decode and S = A, OF pB[unfolded pong_of_def]] ok by (simp add: pong_of_def dA_def u_def)
  show "hear decode B None (fst (wire (sd_V A) (pong_of A sA B sB))) (after_bond B A sA dB sB)
      = ((Ret None, ''PONG/v4''), after_bond B A sA (db_UpdatePong (sd_V B) dB (sd_id A) (ev_ip (sd_E B)) t) sB,
         [Match (sd_id A) (ev_ip (sd_E B)) (pong_of A sA B sB) (sint (ping_exp (ping_of B sB)))])"
    using hear_pong[where decode = decode and S = B, OF pA[unfolded pong_of_def]] ok by (simp add: pong_of_def after_bond_def t_def)
  have ans: "ping_answer (snd (wire (sd_V B) (ping_of B sB))) (pong_of A sA B sB) = Some (v_seq sA)"
    by (simp add: ping_answer_def pong_of_def)
  show "hear decode B (ping_answer (snd (wire (sd_V B) (ping_of B sB))) (pong_of A sA B sB)) (fst (wire (sd_V A) (ping_of A sA))) sB
      = ((Ret None, ''PING/v4''), after_bond B A sA dB sB, [Sent (sd_id A) (pong_of B sB A sA) False, Sent (sd_id A) (ping_of B sB) True])"
    unfolding ans using hear_ping_new[where decode = decode and S = B, OF wA _ _ _ eB(1)[unfolded pong_of_def] _ new eB(2)[unfolded ping_of_def]] ok
    by (simp add: pong_of_def after_bond_def seen_as_def dB_def t_def ping_of_def)
  have "ev_now (sd_E A) - db_LastPong (sd_V A) (v_store (sA\<lparr>v_store := dA\<rparr>)) (sd_id B) (ev_ip (sd_E A)) \<le> bondExpiration"
    using ok fresh_bond by (simp add: dA_def u_def node_db_simps)
  from hear_ping_known[where decode = decode and S = A, OF wB _ _ _ _ _ this] ok eA
  show "hear decode A None (fst (wire (sd_V B) (ping_of B sB))) (sA\<lparr>v_store := dA\<rparr>)
      = ((Ret None, ''PING/v4''), after_bond A B sB (db_UpdatePing (sd_V A) dA (sd_id B) (ev_ip (sd_E A)) u) sA,
         [Sent (sd_id B) (pong_of A sA B sB) False])"
    by (simp add: pong_of_def after_bond_def seen_as_def u_def)
qed


lemma exchange_result:
  assumes "heard_from decode B sB A sA" and "heard_from decode A sA B sB"
    and "bondExpiration < ev_now (sd_E B) - db_LastPong (sd_V B) (v_store sB) (sd_id A) (ev_ip (sd_E B))"
  shows "exchange decode A B sA sB =
    \<lparr>bd_answer = Some (v_seq sB), bd_outcomes = replicate 4 (Ret None),
     bd_sentA = [Match (sd_id B) (ev_ip (sd_E A)) (pong_of B sB A sA) (sint (ping_exp (ping_of A sA))), Sent (sd_id B) (pong_of A sA B sB) False],
     bd_sentB = [Sent (sd_id A) (pong_of B sB A sA) False, Sent (sd_id A) (ping_of B sB) True,
       Match (sd_id A) (ev_ip (sd_E B)) (pong_of A sA B sB) (sint (ping_exp (ping_of B sB)))],
     bd_A = after_bond A B sB (db_UpdatePing (sd_V A) (db_UpdatePong (sd_V A) (v_store sA) (sd_id B) (ev_ip (sd_E A)) (ev_now (sd_E A)))
              (sd_id B) (ev_ip (sd_E A)) (ev_now (sd_E A))) sA,
     bd_B = after_bond B A sA (db_UpdatePong (sd_V B) (db_UpdatePing (sd_V B) (v_store sB) (sd_id A) (ev_ip (sd_E B)) (ev_now (sd_E B)))
              (sd_id A) (ev_ip (sd_E B)) (ev_now (sd_E B))) sB\<rparr>"
proof -
  have "ping_answer (snd (wire (sd_V A) (ping_of A sA))) (pong_of B sB A sA) = Some (v_seq sB)" by (simp add: ping_answer_def pong_of_def)
  then show ?thesis by (simp add: exchange_def exchange_steps[OF assms] numeral_eq_Suc)
qed

text \<open>A bond lets a findnode request through, and lets our own requests go out at once.\<close>

lemma bonded_findnode:
  assumes "db_LastPong V (v_store s) i (ev_ip E) = unix (toUnix t)" "ev_now E - unix (toUnix t) < bondExpiration" "ResponseFindNode (v_cfg s)"
    "\<not> vx_Expired V (ev_now E) ex"
  shows "HandlePacket X V E rec (Inr (Findnode tgt ex, i, k, h)) s
    = (case makeFindNodesResponse X V E tgt ex i s of (e, acts) \<Rightarrow> ((Ret e, ''FINDNODE/v4''), s, acts))"
  using assms by (simp add: HandlePacket_findnode checkBond_def)

lemma bonded_tryBond:
  assumes "db_LastPong V (v_store s) i a = unix (toUnix t)" "db_LastPing V (v_store s) i a = unix (toUnix t)"
    "ev_now E - unix (toUnix t) < bondExpiration" "db_FindFails V (v_store s) i a \<le> maxFindnodeFailures"
  shows "tryBond V E i a now2 d2 s = (True, s, [])"
  using assms by (simp add: tryBond_def checkBond_def Let_def)

section \<open>Properties\<close>

text \<open>C6: The ping exchange bonds two nodes. When \<open>A\<close> pings a node \<open>B\<close> that has no bond with it and the network delivers in time, then
  every handler succeeds, the packets delivered are exactly those sent, and \<open>A\<close>'s ping returns the record sequence of \<open>B\<close>.
  Afterwards each has run \<open>AddSeenNode\<close> for the other on its table (which may refuse it for a full bucket or a subnet limit), and for 24 hours either side may go on: \<open>B\<close> answers a findnode of \<open>A\<close> with its
  closest nodes instead of refusing it, and \<open>A\<close> sends requests to \<open>B\<close> without another ping, as \<open>B\<close> to \<open>A\<close>.\<close>

theorem exchange_bonds:
  assumes "heard_from decode B sB A sA" and "heard_from decode A sA B sB"
    and "bondExpiration < ev_now (sd_E B) - db_LastPong (sd_V B) (v_store sB) (sd_id A) (ev_ip (sd_E B))"
    and "r = exchange decode A B sA sB"
  shows "bd_answer r = Some (v_seq sB) \<and> bd_outcomes r = replicate 4 (Ret None)
    \<and> [p \<leftarrow> bd_sentB r. \<not> (\<exists>i a q x. p = Match i a q x)] = [Sent (sd_id A) (pong_of B sB A sA) False, Sent (sd_id A) (ping_of B sB) True]
    \<and> [p \<leftarrow> bd_sentA r. \<not> (\<exists>i a q x. p = Match i a q x)] = [Sent (sd_id B) (pong_of A sA B sB) False]
    \<and> v_tab (bd_B r) = AddSeenNode (sd_X B) (ev_now (sd_E B)) (v_tab sB) (seen_as B (sd_key A) sA)
    \<and> v_tab (bd_A r) = AddSeenNode (sd_X A) (ev_now (sd_E A)) (v_tab sA) (seen_as A (sd_key B) sB)
    \<and> (\<forall>E tgt ex rec k h. ev_ip E = ev_ip (sd_E B) \<and> ev_now E - unix (toUnix (ev_now (sd_E B))) < bondExpiration
          \<and> ResponseFindNode (v_cfg sB) \<and> \<not> vx_Expired (sd_V B) (ev_now E) ex \<longrightarrow>
        HandlePacket (sd_X B) (sd_V B) E rec (Inr (Findnode tgt ex, sd_id A, k, h)) (bd_B r)
          = (case makeFindNodesResponse (sd_X B) (sd_V B) E tgt ex (sd_id A) (bd_B r) of (e, acts) \<Rightarrow> ((Ret e, ''FINDNODE/v4''), bd_B r, acts)))
    \<and> (\<forall>E now2 d2. ev_now E - unix (toUnix (ev_now (sd_E A))) < bondExpiration
          \<and> db_FindFails (sd_V A) (v_store (bd_A r)) (sd_id B) (ev_ip (sd_E A)) \<le> maxFindnodeFailures \<longrightarrow>
        tryBond (sd_V A) E (sd_id B) (ev_ip (sd_E A)) now2 d2 (bd_A r) = (True, bd_A r, []))
    \<and> (\<forall>E now2 d2. ev_now E - unix (toUnix (ev_now (sd_E B))) < bondExpiration
          \<and> db_FindFails (sd_V B) (v_store (bd_B r)) (sd_id A) (ev_ip (sd_E B)) \<le> maxFindnodeFailures \<longrightarrow>
        tryBond (sd_V B) E (sd_id A) (ev_ip (sd_E B)) now2 d2 (bd_B r) = (True, bd_B r, []))"
proof -
  have db: "node_db_ok (sd_V A)" "node_db_ok (sd_V B)" using assms(1,2) by (simp_all add: heard_from_def side_ok_def)
  note r = assms(4)[unfolded exchange_result[OF assms(1-3)]]
  have A: "db_LastPong (sd_V A) (v_store (bd_A r)) (sd_id B) (ev_ip (sd_E A)) = unix (toUnix (ev_now (sd_E A)))"
    "db_LastPing (sd_V A) (v_store (bd_A r)) (sd_id B) (ev_ip (sd_E A)) = unix (toUnix (ev_now (sd_E A)))"
    and B: "db_LastPong (sd_V B) (v_store (bd_B r)) (sd_id A) (ev_ip (sd_E B)) = unix (toUnix (ev_now (sd_E B)))"
    "db_LastPing (sd_V B) (v_store (bd_B r)) (sd_id A) (ev_ip (sd_E B)) = unix (toUnix (ev_now (sd_E B)))"
    and cfg: "v_cfg (bd_B r) = v_cfg sB"
    by (simp_all add: r after_bond_def node_db_simps[OF db(1)] node_db_simps[OF db(2)])
  show ?thesis
  proof (intro conjI allI impI)
    fix E :: v4_env and tgt ex rec k h
    assume "ev_ip E = ev_ip (sd_E B) \<and> ev_now E - unix (toUnix (ev_now (sd_E B))) < bondExpiration
      \<and> ResponseFindNode (v_cfg sB) \<and> \<not> vx_Expired (sd_V B) (ev_now E) ex"
    then show "HandlePacket (sd_X B) (sd_V B) E rec (Inr (Findnode tgt ex, sd_id A, k, h)) (bd_B r)
        = (case makeFindNodesResponse (sd_X B) (sd_V B) E tgt ex (sd_id A) (bd_B r) of (e, acts) \<Rightarrow> ((Ret e, ''FINDNODE/v4''), bd_B r, acts))"
      using bonded_findnode[of "sd_V B" "bd_B r" "sd_id A" E] B(1) cfg by simp
  next
    show "tryBond (sd_V A) E (sd_id B) (ev_ip (sd_E A)) now2 d2 (bd_A r) = (True, bd_A r, [])"
      if "ev_now E - unix (toUnix (ev_now (sd_E A))) < bondExpiration
          \<and> db_FindFails (sd_V A) (v_store (bd_A r)) (sd_id B) (ev_ip (sd_E A)) \<le> maxFindnodeFailures" for E :: v4_env and now2 d2
      using that by (intro bonded_tryBond[OF A]) simp_all
    show "tryBond (sd_V B) E (sd_id A) (ev_ip (sd_E B)) now2 d2 (bd_B r) = (True, bd_B r, [])"
      if "ev_now E - unix (toUnix (ev_now (sd_E B))) < bondExpiration
          \<and> db_FindFails (sd_V B) (v_store (bd_B r)) (sd_id A) (ev_ip (sd_E B)) \<le> maxFindnodeFailures" for E :: v4_env and now2 d2
      using that by (intro bonded_tryBond[OF B]) simp_all
  qed (simp_all add: r after_bond_def)
qed


text \<open>Two nodes, 10.0.0.1 and 10.0.0.2, whose packets are told apart by their first two bytes.\<close>

definition ex_lib :: "u8 \<Rightarrow> ex_db v4_ext" where
  "ex_lib i = ex_ext\<lparr>vx_Encode := (\<lambda>p. case p of Ping _ _ _ _ \<Rightarrow> Inr ([i, 1], [i, 11]) | Pong _ _ _ \<Rightarrow> Inr ([i, 2], [i, 12]) | _ \<Rightarrow> Inl ''no''),
     db_UpdatePong := (\<lambda>d i a t. ((fst d)((i, a) := unix (toUnix t)), snd d)), db_UpdatePing := (\<lambda>d i a t. (fst d, (snd d)((i, a) := unix (toUnix t))))\<rparr>"

definition ex_side :: "u8 \<Rightarrow> u8 \<Rightarrow> (prefix_set, ex_db) side" where
  "ex_side i j = \<lparr>sd_X = ex_env 0, sd_V = ex_lib i,
     sd_E = \<lparr>ev_now = 100 * Hour, ev_ip = [10, 0, 0, j], ev_port = 30303, ev_ping = Inl [], ev_match = None, ev_send = (\<lambda>_. None)\<rparr>,
     sd_rec = [], sd_id = ucast i, sd_key = [i]\<rparr>"

definition ex_decode :: decoder where
  "ex_decode data =
     (if data = [1, 1] then Inr (ping_of (ex_side 1 2) (ex_v4 0), 1, [1], [1, 11])
      else if data = [1, 2] then Inr (pong_of (ex_side 1 2) (ex_v4 0) (ex_side 2 1) (ex_v4 0), 1, [1], [1, 12])
      else if data = [2, 1] then Inr (ping_of (ex_side 2 1) (ex_v4 0), 2, [2], [2, 11])
      else if data = [2, 2] then Inr (pong_of (ex_side 2 1) (ex_v4 0) (ex_side 1 2) (ex_v4 0), 2, [2], [2, 12])
      else Inl ''bad'')"

lemma ex_lib_db: "node_db_ok (ex_lib i)"
  by (simp add: node_db_ok_def ex_lib_def ex_ext_def)

lemma ex_side_ok: "side_ok (ex_side i j) (ex_side j i)"
  by (simp add: side_ok_def ex_side_def ex_lib_db) (simp add: key_ok_def ex_lib_def ex_ext_def)

lemma ex_not_expired: "\<not> vx_Expired (ex_lib i) (100 * Hour) (ping_exp (ping_of (ex_side k l) (ex_v4 0)))"
  by (simp add: ex_lib_def ex_ext_def ping_of_def generatePing_def ex_side_def time_defs expiration_def)

lemma ex_heard:
  "heard_from ex_decode (ex_side 1 2) (ex_v4 0) (ex_side 2 1) (ex_v4 0)" "heard_from ex_decode (ex_side 2 1) (ex_v4 0) (ex_side 1 2) (ex_v4 0)"
proof -
  have w: "vx_Encode (ex_lib i) (ping_of (ex_side k l) s) = Inr ([i, 1], [i, 11])" "vx_Encode (ex_lib i) (pong_of S s' T t) = Inr ([i, 2], [i, 12])"
    for i k l s S s' T t by (simp_all add: ex_lib_def ping_of_def generatePing_def pong_of_def)
  have v: "sd_V (ex_side i j) = ex_lib i" "sd_id (ex_side i j) = ucast i" "sd_key (ex_side i j) = [i]" "ev_now (sd_E (ex_side i j)) = 100 * Hour" for i j
    by (simp_all add: ex_side_def)
  show "heard_from ex_decode (ex_side 1 2) (ex_v4 0) (ex_side 2 1) (ex_v4 0)" "heard_from ex_decode (ex_side 2 1) (ex_v4 0) (ex_side 1 2) (ex_v4 0)"
    by (simp_all add: heard_from_def ex_side_ok wire_ok_def v w ex_not_expired ex_decode_def)
qed

theorem exchange_bonds_witness:
  "bd_outcomes (exchange ex_decode (ex_side 1 2) (ex_side 2 1) (ex_v4 0) (ex_v4 0)) = [Ret None, Ret None, Ret None, Ret None]
   \<and> bd_answer (exchange ex_decode (ex_side 1 2) (ex_side 2 1) (ex_v4 0) (ex_v4 0)) = Some 1"
proof -
  have "bondExpiration < ev_now (sd_E (ex_side 2 1)) - db_LastPong (sd_V (ex_side 2 1)) (v_store (ex_v4 0)) (sd_id (ex_side 1 2)) (ev_ip (sd_E (ex_side 2 1)))"
    by (simp add: ex_side_def ex_lib_def ex_ext_def ex_v4_def bondExpiration_def time_defs)
  from exchange_bonds[OF ex_heard(2,1) this refl] show ?thesis by (simp add: numeral_eq_Suc ex_v4_def)
qed

text \<open>C7: A bond can be had without an exchange: one pong that nobody has asked for, with any token, counts as a proof of the endpoint it seems
  to come from. Whatever the response awaiter does with it, and although the node has sent nothing to that address, the time of the
  pong is stored; for 24 hours a findnode request in the name of that endpoint is then answered with neighbour packets.\<close>

theorem unsolicited_pong_bonds:
  assumes "node_db_ok V" and "\<not> vx_Expired V (ev_now E) ex"
    and "0 < vx_MaxNeighbors V" and "\<forall>p. \<exists>b. vx_Encode V p = Inr b" and "ResponseFindNode (v_cfg s)"
    and "ev_ip E' = ev_ip E" and "ev_now E' - unix (toUnix (ev_now E)) < bondExpiration" and "\<not> vx_Expired V (ev_now E') ex'" and "\<forall>p. ev_send E' p = None"
  shows "\<exists>s1 cs. HandlePacket X V E rec (Inr (Pong tok ex sq, i, k, h)) s
      = ((Ret (ev_match E), ''PONG/v4''), s1, [Match i (ev_ip E) (Pong tok ex sq) (sint ex)])
    \<and> HandlePacket X V E' rec (Inr (Findnode tgt ex', i, k, h')) s1 = ((Ret None, ''FINDNODE/v4''), s1, map (\<lambda>c. Sent i (Neighbors c ex') False) cs)
    \<and> cs \<noteq> [] \<and> v_tab s1 = v_tab s"
proof -
  let ?s = "s\<lparr>v_store := db_UpdatePong V (v_store s) i (ev_ip E) (ev_now E)\<rparr>"
  obtain cs where cs: "makeFindNodesResponse X V E' tgt ex' i ?s = (None, map (\<lambda>c. Sent i (Neighbors c ex') False) cs)" "cs \<noteq> []"
    using neighbors_loop_chunks[OF assms(3,9,4), of "[]" i ex' _ False "[]"] assms(3)
    by (fastforce simp: makeFindNodesResponse_def chunked_def)
  have "HandlePacket X V E' rec (Inr (Findnode tgt ex', i, k, h')) ?s = ((Ret None, ''FINDNODE/v4''), ?s, map (\<lambda>c. Sent i (Neighbors c ex') False) cs)"
    using bonded_findnode[of V ?s i E'] assms cs(1) by (simp add: node_db_simps)
  with assms(2) cs(2) show ?thesis by (intro exI[of _ ?s] exI[of _ cs]) (simp add: HandlePacket_pong)
qed

definition ex_lib1 :: "ex_db v4_ext" where
  "ex_lib1 = (ex_lib 1)\<lparr>vx_Encode := (\<lambda>p. Inr ([], []))\<rparr>"

theorem unsolicited_pong_bonds_witness:
  "\<exists>s1 cs. HandlePacket (ex_env 0) ex_lib1 (ex_ev (Inl [])) [] (Inr (Pong [] 1000000 0, 77, [77], [])) (ex_v4 0)
      = ((Ret None, ''PONG/v4''), s1, [Match 77 [9,9,9,9] (Pong [] 1000000 0) 1000000])
    \<and> HandlePacket (ex_env 0) ex_lib1 (ex_ev (Inl [])) [] (Inr (Findnode [1] 1000000, 77, [77], [])) s1
      = ((Ret None, ''FINDNODE/v4''), s1, map (\<lambda>c. Sent 77 (Neighbors c 1000000) False) cs) \<and> cs \<noteq> [] \<and> v_tab s1 = v_tab (ex_v4 0)"
proof -
  have l: "node_db_ok ex_lib1" "0 < vx_MaxNeighbors ex_lib1" "\<forall>p. \<exists>b. vx_Encode ex_lib1 p = Inr b"
    "\<And>t. t \<le> 100 * Hour \<Longrightarrow> \<not> vx_Expired ex_lib1 t 1000000"
    by (simp_all add: node_db_ok_def ex_lib1_def ex_lib_def ex_ext_def time_defs)
  have e: "ev_now (ex_ev (Inl [])) = 100 * Hour" "ev_ip (ex_ev (Inl [])) = [9,9,9,9]"
    "ev_match (ex_ev (Inl [])) = None"
    "\<forall>p. ev_send (ex_ev (Inl [])) p = None" by (simp_all add: ex_ev_def)
  have f: "ResponseFindNode (v_cfg (ex_v4 0))" by (simp add: ex_v4_def DefaultConfig_def)
  from unsolicited_pong_bonds[of ex_lib1 "ex_ev (Inl [])" 1000000 "ex_v4 0" "ex_ev (Inl [])" 1000000 "ex_env 0" "[]" "[]" 0 77 "[77]" "[]" "[1]" "[]", OF l(1) _ l(2,3) f _ _ _ e(4)]
  show ?thesis using l(4) fresh_bond(2)[of "100 * Hour"] e by simp
qed

end
