(* ===== verification/Lookup.thy ===== *)
theory Lookup
  imports Nodes
begin

text \<open>
  \<open>crawler/net/discovery/query.go\<close>: the iterative lookup. One round (\<open>queryNewNodes\<close>) starts
  goroutines that share the channel \<open>slots\<close>, the atomic counter \<open>doneCounter\<close> and the locked
  \<open>queryBuffer\<close>; it is a step relation whose steps are the channel operations, counter updates and
  buffer calls of the source. \<open>Run\<close> is the big-step relation \<open>lookup_run\<close> over rounds. What a peer
  answers is the argument \<open>Q\<close>: \<open>Q n r\<close> says that querying \<open>n\<close> may end with \<open>r\<close>.
\<close>

section \<open>State\<close>

text \<open>A Go set \<open>map[enode.ID]struct{}\<close> is a set; \<open>queryBuffer\<close> is its slice. \<open>l_replies\<close> is a history: the nodes in the answers of the
  rounds that ended with success, in the order of arrival.\<close>

record lookup =
  l_asked :: "node_id set"
  l_seen :: "node_id set"
  l_buffer :: "enode list"
  l_result :: NodesByDistance
  l_depth :: int
  l_wants :: int
  l_alpha :: nat
  l_replies :: "enode list"

fun push_seeds :: "(node_id \<Rightarrow> node_id \<Rightarrow> node_id \<Rightarrow> int) \<Rightarrow> lookup \<Rightarrow> enode list \<Rightarrow> lookup" where
  "push_seeds D l [] = l"
| "push_seeds D l (n # ns) = push_seeds D (l\<lparr>l_result := Push D (l_result l) (WrapNode n) (l_wants l),
     l_seen := insert (e_ID n) (l_seen l)\<rparr>) ns"

definition newLookup :: "(node_id \<Rightarrow> node_id \<Rightarrow> node_id \<Rightarrow> int) \<Rightarrow> enode list \<Rightarrow> node_id \<Rightarrow> int \<Rightarrow> int \<Rightarrow> nat \<Rightarrow> lookup" where
  "newLookup D seeds target depth wants alpha =
     push_seeds D \<lparr>l_asked = {}, l_seen = {}, l_buffer = [],
       l_result = \<lparr>nbd_entries = [], Target = target\<rparr>, l_depth = depth, l_wants = wants, l_alpha = alpha,
       l_replies = []\<rparr> seeds"

definition Result :: "lookup \<Rightarrow> enode list" where
  "Result l = Enodes (l_result l)"

definition canAsk :: "node_id set \<Rightarrow> node_id \<Rightarrow> bool \<times> node_id set" where
  "canAsk asked i = (if i \<in> asked then (False, asked) else (True, insert i asked))"

fun buffer_append :: "enode list \<Rightarrow> enode list \<Rightarrow> nat \<times> enode list" where
  "buffer_append buf [] = (0, buf)"
| "buffer_append buf (n # ns) =
     (if \<exists>c \<in> set buf. e_ID c = e_ID n then buffer_append buf ns
      else (case buffer_append (buf @ [n]) ns of (k, b) \<Rightarrow> (Suc k, b)))"

definition peek :: "enode list \<Rightarrow> enode list" where
  "peek buf = buf"

definition slide :: "enode list \<Rightarrow> enode list" where
  "slide buf = take 0 buf"

section \<open>One round\<close>

text \<open>
  \<open>GQuery n\<close> runs the query, \<open>GBack\<close> is about to give its slot back, \<open>GCount\<close> about to count a
  success, \<open>GClose\<close> about to close \<open>slots\<close>. The main goroutine scans the nodes, waits for a slot
  for a node (\<open>AtSlot\<close>), has received from \<open>slots\<close> (\<open>GotSlot\<close>, with \<open>False\<close> when the channel was
  closed and empty), waits for the wait group, or has returned. \<open>q_panic\<close>: a send on or a second close
  of a closed channel happened. \<open>q_queried\<close> is the history of started queries, \<open>q_replies\<close> that of the nodes in the answers.
\<close>

datatype worker = GQuery enode | GBack | GCount | GClose

datatype scan = Scan | AtSlot enode | GotSlot enode bool | Waiting | Returned bool

record round =
  q_todo :: "enode list"
  q_main :: scan
  q_go :: "worker list"
  q_slots :: nat
  q_closed :: bool
  q_done :: u32
  q_asked :: "node_id set"
  q_buffer :: "enode list"
  q_panic :: bool
  q_queried :: "node_id list"
  q_replies :: "enode list"

definition start_round :: "lookup \<Rightarrow> round" where
  "start_round l = \<lparr>q_todo = Enodes (l_result l), q_main = Scan, q_go = [], q_slots = l_alpha l, q_closed = False,
     q_done = 0, q_asked = l_asked l, q_buffer = l_buffer l, q_panic = False, q_queried = [],
     q_replies = []\<rparr>"

inductive q_step :: "(enode \<Rightarrow> string + enode list \<Rightarrow> bool) \<Rightarrow> nat \<Rightarrow> round \<Rightarrow> round \<Rightarrow> bool"
  for Q :: "enode \<Rightarrow> string + enode list \<Rightarrow> bool" and alpha :: nat where
  scan_skip: "q_main s = Scan \<Longrightarrow> q_todo s = n # ns \<Longrightarrow> canAsk (q_asked s) (e_ID n) = (False, a) \<Longrightarrow>
    q_step Q alpha s (s\<lparr>q_todo := ns, q_asked := a\<rparr>)"
| scan_ask: "q_main s = Scan \<Longrightarrow> q_todo s = n # ns \<Longrightarrow> canAsk (q_asked s) (e_ID n) = (True, a) \<Longrightarrow>
    q_step Q alpha s (s\<lparr>q_todo := ns, q_asked := a, q_main := AtSlot n\<rparr>)"
| scan_end: "q_main s = Scan \<Longrightarrow> q_todo s = [] \<Longrightarrow> q_step Q alpha s (s\<lparr>q_main := Waiting\<rparr>)"
| take_slot: "q_main s = AtSlot n \<Longrightarrow> 0 < q_slots s \<Longrightarrow>
    q_step Q alpha s (s\<lparr>q_slots := q_slots s - 1, q_main := GotSlot n True\<rparr>)"
| take_closed: "q_main s = AtSlot n \<Longrightarrow> q_slots s = 0 \<Longrightarrow> q_closed s \<Longrightarrow>
    q_step Q alpha s (s\<lparr>q_main := GotSlot n False\<rparr>)"
| enough: "q_main s = GotSlot n b \<Longrightarrow> q_done s = of_nat alpha \<Longrightarrow> q_step Q alpha s (s\<lparr>q_main := Waiting\<rparr>)"
| spawn: "q_main s = GotSlot n b \<Longrightarrow> q_done s \<noteq> of_nat alpha \<Longrightarrow>
    q_step Q alpha s (s\<lparr>q_main := Scan, q_go := GQuery n # q_go s, q_queried := e_ID n # q_queried s\<rparr>)"
| q_err: "q_go s = xs @ GQuery n # ys \<Longrightarrow> Q n (Inl e) \<Longrightarrow> q_step Q alpha s (s\<lparr>q_go := xs @ GBack # ys\<rparr>)"
| q_ok: "q_go s = xs @ GQuery n # ys \<Longrightarrow> Q n (Inr ns) \<Longrightarrow> buffer_append (q_buffer s) ns = (added, buf) \<Longrightarrow>
    q_step Q alpha s (s\<lparr>q_go := xs @ (if 0 < added then GCount else GBack) # ys, q_buffer := buf, q_replies := q_replies s @ ns\<rparr>)"
| count_done: "q_go s = xs @ GCount # ys \<Longrightarrow>
    q_step Q alpha s (s\<lparr>q_done := q_done s + 1,
      q_go := xs @ (if q_done s + 1 = of_nat alpha then [GClose] else []) @ ys\<rparr>)"
| close_slots: "q_go s = xs @ GClose # ys \<Longrightarrow>
    q_step Q alpha s (s\<lparr>q_closed := True, q_panic := q_panic s \<or> q_closed s, q_go := xs @ ys\<rparr>)"
| give_back: "q_go s = xs @ GBack # ys \<Longrightarrow> q_slots s < alpha \<or> q_closed s \<Longrightarrow>
    q_step Q alpha s (s\<lparr>q_slots := q_slots s + 1, q_panic := q_panic s \<or> q_closed s, q_go := xs @ ys\<rparr>)"
| all_done: "q_main s = Waiting \<Longrightarrow> q_go s = [] \<Longrightarrow> q_step Q alpha s (s\<lparr>q_main := Returned (q_done s \<noteq> 0)\<rparr>)"

text \<open>The other branch of the \<open>select\<close>: the context ends while the round waits for a slot.\<close>

inductive q_cancel :: "round \<Rightarrow> round \<Rightarrow> bool" where
  cancel: "q_main s = AtSlot n \<Longrightarrow> q_cancel s (s\<lparr>q_main := Returned False\<rparr>)"

definition q_any :: "(enode \<Rightarrow> string + enode list \<Rightarrow> bool) \<Rightarrow> nat \<Rightarrow> round \<Rightarrow> round \<Rightarrow> bool" where
  "q_any Q alpha s t \<longleftrightarrow> q_step Q alpha s t \<or> q_cancel s t"

inductive_cases q_stepE: "q_step Q alpha s t"
inductive_cases q_cancelE: "q_cancel s t"

text \<open>\<open>queryNewNodes\<close>: a round from the current result; with depth 0 it does nothing. The answers of a round that the context has cut off are
  not used by \<open>Run\<close>.\<close>

definition queryNewNodes :: "(enode \<Rightarrow> string + enode list \<Rightarrow> bool) \<Rightarrow> lookup \<Rightarrow> bool \<Rightarrow> lookup \<Rightarrow> bool" where
  "queryNewNodes Q l b l' \<longleftrightarrow>
     (if l_depth l = 0 then \<not> b \<and> l' = l
      else \<exists>s. (q_any Q (l_alpha l))\<^sup>*\<^sup>* (start_round l) s \<and> q_main s = Returned b
           \<and> l' = l\<lparr>l_depth := l_depth l - 1, l_asked := q_asked s, l_buffer := q_buffer s,
               l_replies := l_replies l @ (if b then q_replies s else [])\<rparr>)"

section \<open>The lookup\<close>

fun absorb :: "(node_id \<Rightarrow> node_id \<Rightarrow> node_id \<Rightarrow> int) \<Rightarrow> lookup \<Rightarrow> enode list \<Rightarrow> lookup" where
  "absorb D l [] = l"
| "absorb D l (n # ns) =
     (if e_ID n \<in> l_seen l then absorb D l ns
      else absorb D (l\<lparr>l_seen := insert (e_ID n) (l_seen l),
                       l_result := Push D (l_result l) (WrapNode n) (l_wants l)\<rparr>) ns)"

inductive lookup_run :: "(node_id \<Rightarrow> node_id \<Rightarrow> node_id \<Rightarrow> int) \<Rightarrow> (enode \<Rightarrow> string + enode list \<Rightarrow> bool) \<Rightarrow>
    lookup \<Rightarrow> lookup \<Rightarrow> bool"
  for D :: "node_id \<Rightarrow> node_id \<Rightarrow> node_id \<Rightarrow> int" and Q :: "enode \<Rightarrow> string + enode list \<Rightarrow> bool" where
  run_stop: "queryNewNodes Q l False l' \<Longrightarrow> lookup_run D Q l l'"
| run_round: "queryNewNodes Q l True l1 \<Longrightarrow>
    lookup_run D Q (let l2 = absorb D l1 (peek (l_buffer l1)) in l2\<lparr>l_buffer := slide (l_buffer l2)\<rparr>) l' \<Longrightarrow>
    lookup_run D Q l l'"

section \<open>The asked set and the buffer\<close>

interpretation ask: marker canAsk "\<lambda>a. a"
  by unfold_locales (auto simp: canAsk_def)

lemma canAsk_cases: "canAsk A i = (b, a) \<Longrightarrow> b = (i \<notin> A) \<and> a = insert i A"
  using ask.mark_fresh[of A i] ask.mark_known[of A i] by simp

lemma buffer_append_count: "buffer_append buf ns = (k, b) \<Longrightarrow> length b = length buf + k \<and> (\<exists>ys. b = buf @ ys)"
  by (induction buf ns arbitrary: k b rule: buffer_append.induct) (auto split: if_splits prod.splits)

lemma buffer_append_distinct:
  "buffer_append buf ns = (k, b) \<Longrightarrow> distinct (map e_ID buf) \<Longrightarrow> distinct (map e_ID b)"
proof (induction buf ns arbitrary: k b rule: buffer_append.induct)
  case (2 buf n ns)
  show ?case
  proof (cases "\<exists>c \<in> set buf. e_ID c = e_ID n")
    case False
    then have "distinct (map e_ID (buf @ [n]))" using "2.prems"(2) by auto
    with False "2.IH"(2)[OF False] "2.prems"(1) show ?thesis by (auto split: prod.splits)
  qed (use 2 in auto)
qed simp

lemma buffer_append_set: "buffer_append buf ns = (k, b) \<Longrightarrow> set b \<subseteq> set buf \<union> set ns"
proof (induction buf ns arbitrary: k b rule: buffer_append.induct)
  case (2 buf n ns)
  show ?case
  proof (cases "\<exists>c \<in> set buf. e_ID c = e_ID n")
    case True
    with "2.IH"(1)[OF True, of k b] "2.prems" show ?thesis by auto
  next
    case False
    obtain k' where "buffer_append (buf @ [n]) ns = (k', b)" using False "2.prems" by (auto split: prod.splits)
    from "2.IH"(2)[OF False this] show ?thesis by simp
  qed
qed simp

section \<open>The invariant of a round\<close>

text \<open>
  Every slot is in the channel, in the hand of the main goroutine, held by a running query, or used up
  by a success. So the channel is closed only after the last query has ended: nothing is sent on it
  afterwards.
\<close>

definition in_flight :: "round \<Rightarrow> nat" where
  "in_flight s = length (filter (\<lambda>g. g \<noteq> GClose) (q_go s))"

definition closers :: "round \<Rightarrow> nat" where
  "closers s = length (filter (\<lambda>g. g = GClose) (q_go s))"

definition in_hand :: "round \<Rightarrow> nat" where
  "in_hand s = (case q_main s of GotSlot n True \<Rightarrow> 1 | _ \<Rightarrow> 0)"

definition slots_inv :: "nat \<Rightarrow> round \<Rightarrow> bool" where
  "slots_inv alpha s \<longleftrightarrow> \<not> q_panic s
     \<and> q_slots s + in_hand s + in_flight s + unat (q_done s) = alpha
     \<and> closers s + (if q_closed s then 1 else 0) = (if unat (q_done s) = alpha then 1 else 0)
     \<and> (\<forall>n. q_main s = GotSlot n False \<longrightarrow> q_closed s)"

definition asked_inv :: "node_id set \<Rightarrow> round \<Rightarrow> bool" where
  "asked_inv A s \<longleftrightarrow> distinct (q_queried s) \<and> A \<subseteq> q_asked s \<and> set (q_queried s) \<subseteq> q_asked s - A
     \<and> (\<forall>n. q_main s = AtSlot n \<or> (\<exists>b. q_main s = GotSlot n b) \<longrightarrow> e_ID n \<in> q_asked s - A - set (q_queried s))
     \<and> distinct (map e_ID (q_buffer s))"

text \<open>\<open>A\<close> is the set of the peers asked in earlier rounds.\<close>

definition round_inv :: "node_id set \<Rightarrow> nat \<Rightarrow> round \<Rightarrow> bool" where
  "round_inv A alpha s \<longleftrightarrow> slots_inv alpha s \<and> asked_inv A s"

lemmas slots_defs = slots_inv_def in_flight_def closers_def in_hand_def

lemma done_eq: "alpha < 2 ^ 32 \<Longrightarrow> d = of_nat alpha \<longleftrightarrow> unat (d :: u32) = alpha"
  using of_nat_unat_id[of d] by (auto simp: unsigned_of_nat take_bit_nat_eq_self)

lemma done_Suc: "unat (d :: u32) < alpha \<Longrightarrow> alpha < 2 ^ 32 \<Longrightarrow> unat (d + 1) = Suc (unat d)"
  using unat_add_lem[of d 1] by simp

lemma slots_inv_step:
  assumes "slots_inv alpha s" "q_step Q alpha s t" "alpha < 2 ^ 32" "0 < alpha"
  shows "slots_inv alpha t"
  using assms(2)
proof (cases rule: q_step.cases)
  case (count_done xs ys)
  then have "unat (q_done s) < alpha" using assms(1) by (auto simp: slots_defs)
  then have "unat (q_done s + 1) = Suc (unat (q_done s))" using done_Suc assms(3) by blast
  with count_done assms(1,3) show ?thesis by (auto simp: slots_defs done_eq split: scan.splits)
qed (use assms in \<open>auto simp: slots_defs done_eq split: scan.splits bool.splits if_splits\<close>)

lemma asked_inv_step: "asked_inv A s \<Longrightarrow> q_step Q alpha s t \<Longrightarrow> asked_inv A t"
  by (erule q_stepE) (auto simp: asked_inv_def dest!: canAsk_cases intro: buffer_append_distinct)

lemma round_inv_any:
  assumes "round_inv A alpha s" "q_any Q alpha s t" "alpha < 2 ^ 32" "0 < alpha"
  shows "round_inv A alpha t"
proof (cases "q_step Q alpha s t")
  case True
  with assms slots_inv_step asked_inv_step show ?thesis unfolding round_inv_def by blast
next
  case False
  with assms(2) have "q_cancel s t" by (simp add: q_any_def)
  then obtain n where n: "q_main s = AtSlot n" and t: "t = s\<lparr>q_main := Returned False\<rparr>" by (rule q_cancelE)
  from assms(1) n show ?thesis unfolding t round_inv_def slots_defs asked_inv_def by simp
qed

lemma round_inv_start: "distinct (map e_ID (l_buffer l)) \<Longrightarrow> 0 < l_alpha l \<Longrightarrow> round_inv (l_asked l) (l_alpha l) (start_round l)"
  by (simp add: round_inv_def slots_defs asked_inv_def start_round_def)

text \<open>Progress: a round that has not returned can go on without the context ending.\<close>

lemma round_progress:
  assumes "round_inv A alpha s" "alpha < 2 ^ 32" "0 < alpha" "\<forall>n. \<exists>r. Q n r"
    and "\<And>b. q_main s \<noteq> Returned b"
  shows "\<exists>t. q_step Q alpha s t"
proof (cases "q_go s")
  case (Cons g gs)
  then have g: "q_go s = [] @ g # gs" by simp
  show ?thesis
  proof (cases g)
    case (GQuery n)
    obtain r where r: "Q n r" using assms(4) by blast
    obtain k b where "buffer_append (q_buffer s) (projr r) = (k, b)" by fastforce
    then show ?thesis
      using r g GQuery q_step.q_err[of s "[]" n gs Q] q_step.q_ok[of s "[]" n gs Q]
      by (cases r) (simp, blast, simp, blast)
  next
    case GBack
    have "q_slots s < alpha" using assms(1) Cons GBack by (auto simp: round_inv_def slots_defs)
    with g GBack show ?thesis by (blast intro: q_step.give_back)
  next
    case GCount
    with g show ?thesis by (blast intro: q_step.count_done)
  next
    case GClose
    with g show ?thesis by (blast intro: q_step.close_slots)
  qed
next
  case Nil
  show ?thesis
  proof (cases "q_main s")
    case Scan
    show ?thesis
    proof (cases "q_todo s")
      case (Cons n ns)
      obtain b a where "canAsk (q_asked s) (e_ID n) = (b, a)" by fastforce
      with q_step.scan_ask[OF Scan Cons, of a Q alpha] q_step.scan_skip[OF Scan Cons, of a Q alpha]
      show ?thesis by (cases b) auto
    qed (use Scan in \<open>blast intro: q_step.scan_end\<close>)
  next
    case (AtSlot n)
    have "0 < q_slots s \<or> q_closed s"
      using assms(1) Nil AtSlot by (auto simp: round_inv_def slots_defs split: if_splits)
    with AtSlot show ?thesis using q_step.take_slot q_step.take_closed by blast
  next
    case (GotSlot n b)
    then show ?thesis using q_step.enough q_step.spawn by blast
  next
    case Waiting
    with Nil show ?thesis using q_step.all_done by blast
  qed (use assms(5) in blast)
qed

text \<open>Termination: every step lowers this measure.\<close>

fun worker_weight :: "worker \<Rightarrow> nat" where
  "worker_weight (GQuery n) = 4" | "worker_weight GCount = 3" | "worker_weight GBack = 2" | "worker_weight GClose = 1"

fun scan_weight :: "scan \<Rightarrow> nat" where
  "scan_weight Scan = 2" | "scan_weight (AtSlot n) = 9" | "scan_weight (GotSlot n b) = 8"
| "scan_weight Waiting = 1" | "scan_weight (Returned b) = 0"

definition round_weight :: "round \<Rightarrow> nat" where
  "round_weight s = 10 * length (q_todo s) + scan_weight (q_main s) + sum_list (map worker_weight (q_go s))"

lemma round_weight_step: "q_step Q alpha s t \<Longrightarrow> round_weight t < round_weight s"
  by (erule q_stepE) (auto simp: round_weight_def)

lemma round_returns:
  assumes "round_inv A alpha s" "alpha < 2 ^ 32" "0 < alpha" "\<forall>n. \<exists>r. Q n r"
  shows "\<exists>t b. (q_step Q alpha)\<^sup>*\<^sup>* s t \<and> q_main t = Returned b"
  using assms(1)
proof (induction "round_weight s" arbitrary: s rule: less_induct)
  case less
  show ?case
  proof (cases "\<exists>b. q_main s = Returned b")
    case False
    then obtain t where t: "q_step Q alpha s t" using round_progress[OF less.prems assms(2-4)] by auto
    then have "round_inv A alpha t" using round_inv_any[OF less.prems _ assms(2,3), of Q t] by (simp add: q_any_def)
    from less.hyps[OF round_weight_step[OF t] this] t show ?thesis by (meson converse_rtranclp_into_rtranclp)
  qed blast
qed

lemma round_inv_steps:
  assumes "(q_any Q alpha)\<^sup>*\<^sup>* s t" "round_inv A alpha s" "alpha < 2 ^ 32" "0 < alpha"
  shows "round_inv A alpha t"
  using assms(1,2) by (induction rule: rtranclp_induct) (auto intro: round_inv_any[OF _ _ assms(3,4)])

section \<open>The result of the lookup\<close>

fun fresh_nodes :: "node_id set \<Rightarrow> enode list \<Rightarrow> enode list" where
  "fresh_nodes S [] = []"
| "fresh_nodes S (n # ns) =
     (if e_ID n \<in> S then fresh_nodes S ns else n # fresh_nodes (insert (e_ID n) S) ns)"

lemma fresh_nodes_ids: "map e_ID (fresh_nodes S ns) = ask.fresh_of S (map e_ID ns)"
  by (induction ns arbitrary: S) (auto simp: canAsk_def)

lemma fresh_nodes_append: "fresh_nodes S (xs @ ys) = fresh_nodes S xs @ fresh_nodes (S \<union> e_ID ` set xs) ys"
  by (induction xs arbitrary: S) (auto simp: insert_absorb)

lemma fresh_nodes_again: "T \<subseteq> S \<Longrightarrow> fresh_nodes S (fresh_nodes T ns) = fresh_nodes S ns"
proof (induction ns arbitrary: S T)
  case (Cons n ns)
  from Cons.IH[of T S] Cons.IH[of "insert (e_ID n) T" S] Cons.IH[of "insert (e_ID n) T" "insert (e_ID n) S"] Cons.prems show ?case by auto
qed simp

lemma fresh_nodes_distinct: "distinct (map e_ID (fresh_nodes S ns))"
  unfolding fresh_nodes_ids by (rule ask.distinct_fresh_of)

lemma fresh_nodes_id: "distinct (map e_ID ns) \<Longrightarrow> S \<inter> e_ID ` set ns = {} \<Longrightarrow> fresh_nodes S ns = ns"
  by (induction ns arbitrary: S) auto

lemma fresh_nodes_cover: "S \<union> e_ID ` set (fresh_nodes S ns) = S \<union> e_ID ` set ns"
proof -
  have "e_ID ` set (fresh_nodes S ns) = e_ID ` set ns - S" using ask.set_fresh_of[of S "map e_ID ns"] by (simp flip: fresh_nodes_ids)
  then show ?thesis by blast
qed

lemma buffer_append_fresh: "buffer_append buf ns = (k, b) \<Longrightarrow> b = buf @ fresh_nodes (e_ID ` set buf) ns"
proof (induction buf ns arbitrary: k b rule: buffer_append.induct)
  case (2 buf n ns)
  show ?case
  proof (cases "\<exists>c \<in> set buf. e_ID c = e_ID n")
    case True
    then have "e_ID n \<in> e_ID ` set buf" by (metis imageI)
    with "2.IH"(1)[OF True] "2.prems" True show ?thesis by simp
  next
    case False
    then have "e_ID n \<notin> e_ID ` set buf" by auto
    with "2.IH"(2)[OF False] "2.prems" False show ?thesis by (auto split: prod.splits)
  qed
qed simp

lemma fresh_nodes_set: "set (fresh_nodes S ns) \<subseteq> set ns" 
  by (induction ns arbitrary: S) auto

lemma absorb_eq:
  "absorb D l ns = l\<lparr>l_seen := l_seen l \<union> e_ID ` set ns,
     l_result := PushAll D (l_result l) (map WrapNode (fresh_nodes (l_seen l) ns)) (l_wants l)\<rparr>"
  by (induction D l ns rule: absorb.induct) (auto simp: insert_absorb)

lemma push_seeds_eq:
  "push_seeds D l ns = l\<lparr>l_seen := l_seen l \<union> e_ID ` set ns,
     l_result := PushAll D (l_result l) (map WrapNode ns) (l_wants l)\<rparr>"
  by (induction D l ns rule: push_seeds.induct) auto

definition from_peers :: "(enode \<Rightarrow> string + enode list \<Rightarrow> bool) \<Rightarrow> enode set" where
  "from_peers Q = {m. \<exists>n ms. Q n (Inr ms) \<and> m \<in> set ms}"

text \<open>The buffer of a round holds the nodes of its answers, each once.\<close>

lemma round_replies:
  assumes "(q_any Q alpha)\<^sup>*\<^sup>* (start_round l) s"
  shows "q_buffer s = l_buffer l @ fresh_nodes (e_ID ` set (l_buffer l)) (q_replies s) \<and> set (q_replies s) \<subseteq> from_peers Q"
  using assms
proof (induction rule: rtranclp_induct)
  case (step s t)
  let ?B = "e_ID ` set (l_buffer l)"
  have new: "b = l_buffer l @ fresh_nodes ?B (q_replies s @ ns)" if "buffer_append (q_buffer s) ns = (k, b)" for k b ns
    using buffer_append_fresh[OF that] step.IH fresh_nodes_cover[of ?B "q_replies s"] by (simp add: fresh_nodes_append image_Un)
  show ?case using step.hyps(2) unfolding q_any_def
    by (elim disjE q_stepE q_cancelE) (use step.IH new in \<open>auto simp: from_peers_def\<close>)
qed (simp add: start_round_def)

text \<open>The result so far is the insertion of all nodes seen, in the order they came.\<close>

definition lookup_inv :: "(node_id \<Rightarrow> node_id \<Rightarrow> node_id \<Rightarrow> int) \<Rightarrow> (enode \<Rightarrow> string + enode list \<Rightarrow> bool) \<Rightarrow>
    enode list \<Rightarrow> node_id \<Rightarrow> int \<Rightarrow> lookup \<Rightarrow> bool" where
  "lookup_inv D Q seeds target wants l \<longleftrightarrow> l_wants l = wants
     \<and> l_result l = PushAll D \<lparr>nbd_entries = [], Target = target\<rparr> (map WrapNode (fresh_nodes {} (seeds @ l_replies l))) wants
     \<and> l_seen l = e_ID ` set (seeds @ l_replies l) \<and> set (l_replies l) \<subseteq> from_peers Q"

lemma lookup_inv_new:
  "distinct (map e_ID seeds) \<Longrightarrow> lookup_inv D Q seeds target wants (newLookup D seeds target depth wants alpha)"
  by (simp add: lookup_inv_def newLookup_def push_seeds_eq fresh_nodes_id)

lemma query_frame:
  assumes "queryNewNodes Q l b l'" "l_buffer l = []"
  shows "l_wants l' = l_wants l" "l_result l' = l_result l" "l_seen l' = l_seen l" "\<not> b \<Longrightarrow> l_replies l' = l_replies l"
    and "b \<Longrightarrow> \<exists>rs. l_buffer l' = fresh_nodes {} rs \<and> l_replies l' = l_replies l @ rs \<and> set rs \<subseteq> from_peers Q"
  using assms round_replies[of Q "l_alpha l" l] by (auto simp: queryNewNodes_def split: if_splits)

lemma lookup_inv_absorb:
  assumes "lookup_inv D Q seeds target wants l" "set rs \<subseteq> from_peers Q"
  shows "lookup_inv D Q seeds target wants (absorb D (l\<lparr>l_replies := l_replies l @ rs\<rparr>) (fresh_nodes {} rs))"
proof -
  have seen: "l_seen l = e_ID ` set (seeds @ l_replies l)" using assms(1) by (simp add: lookup_inv_def)
  have "fresh_nodes {} (seeds @ l_replies l @ rs) = fresh_nodes {} (seeds @ l_replies l) @ fresh_nodes (l_seen l) (fresh_nodes {} rs)"
    using fresh_nodes_append[of "{}" "seeds @ l_replies l" rs] by (simp add: fresh_nodes_again seen)
  moreover have "e_ID ` set (fresh_nodes {} rs) = e_ID ` set rs" using fresh_nodes_cover[of "{}" rs] by simp
  ultimately show ?thesis using assms unfolding lookup_inv_def absorb_eq by (simp add: PushAll_append image_Un Un_assoc)
qed

lemma lookup_inv_run:
  assumes "lookup_run D Q l l'"
  shows "lookup_inv D Q seeds target wants l \<Longrightarrow> l_buffer l = [] \<Longrightarrow> lookup_inv D Q seeds target wants l'"
  using assms
proof (induction rule: lookup_run.induct)
  case (run_stop l l')
  then show ?case using query_frame[OF run_stop.hyps] by (simp add: lookup_inv_def)
next
  case (run_round l l1 l')
  note f = query_frame[OF run_round.hyps(1) run_round.prems(2)]
  obtain rs where rs: "l_buffer l1 = fresh_nodes {} rs" "l_replies l1 = l_replies l @ rs" "set rs \<subseteq> from_peers Q" using f(5) by blast
  from lookup_inv_absorb[OF run_round.prems(1) rs(3)] have "lookup_inv D Q seeds target wants (absorb D l1 (l_buffer l1))"
    using f rs by (auto simp: lookup_inv_def absorb_eq)
  then show ?case by (intro run_round.IH) (simp_all add: peek_def slide_def Let_def lookup_inv_def)
qed

lemma q_any_of_step: "(q_step Q alpha)\<^sup>*\<^sup>* s t \<Longrightarrow> (q_any Q alpha)\<^sup>*\<^sup>* s t"
  by (rule rtranclp_mono[THEN predicate2D]) (auto simp: q_any_def)

lemma query_total:
  assumes "0 < l_alpha l" "l_alpha l < 2 ^ 32" "\<forall>n. \<exists>r. Q n r" "distinct (map e_ID (l_buffer l))"
  shows "\<exists>b l'. queryNewNodes Q l b l' \<and> l_alpha l' = l_alpha l
    \<and> (l_depth l \<noteq> 0 \<longrightarrow> l_depth l' = l_depth l - 1) \<and> (l_depth l = 0 \<longrightarrow> \<not> b)"
proof (cases "l_depth l = 0")
  case False
  obtain t b where "(q_step Q (l_alpha l))\<^sup>*\<^sup>* (start_round l) t" "q_main t = Returned b"
    using round_returns[OF round_inv_start[OF assms(4,1)] assms(2,1,3)] by blast
  then have "queryNewNodes Q l b (l\<lparr>l_depth := l_depth l - 1, l_asked := q_asked t, l_buffer := q_buffer t,
      l_replies := l_replies l @ (if b then q_replies t else [])\<rparr>)"
    using False q_any_of_step unfolding queryNewNodes_def by fastforce
  with False show ?thesis by fastforce
qed (auto simp: queryNewNodes_def)

lemma lookup_total:
  assumes "0 < l_alpha l" "l_alpha l < 2 ^ 32" "\<forall>n. \<exists>r. Q n r" "l_buffer l = []" "0 \<le> l_depth l"
  shows "\<exists>l'. lookup_run D Q l l'"
  using assms(1,2,4,5)
proof (induction "nat (l_depth l)" arbitrary: l rule: less_induct)
  case less
  obtain b l1 where q: "queryNewNodes Q l b l1" "l_alpha l1 = l_alpha l"
    "l_depth l \<noteq> 0 \<longrightarrow> l_depth l1 = l_depth l - 1" "l_depth l = 0 \<longrightarrow> \<not> b"
    using query_total[OF less.prems(1,2) assms(3)] less.prems(3) by auto
  show ?case
  proof (cases b)
    case False
    with q(1) show ?thesis by (auto intro: lookup_run.run_stop)
  next
    case True
    let ?l = "let l2 = absorb D l1 (peek (l_buffer l1)) in l2\<lparr>l_buffer := slide (l_buffer l2)\<rparr>"
    have "\<exists>l'. lookup_run D Q ?l l'"
      using q True less.prems by (intro less.hyps) (auto simp: absorb_eq Let_def slide_def)
    with q(1) True show ?thesis by (auto intro: lookup_run.run_round)
  qed
qed

lemma lookup_closest_replies:
  assumes "dist_order D dist" and "0 \<le> wants" and "distinct (map e_ID seeds)"
    and "lookup_run D Q (newLookup D seeds target depth wants alpha) l'"
  shows "nbd_entries (l_result l') =
      take (nat wants) (sort_key (\<lambda>n. dist target (e_ID n)) (map WrapNode (fresh_nodes {} (seeds @ l_replies l'))))"
    and "set (l_replies l') \<subseteq> from_peers Q"
proof -
  have "lookup_inv D Q seeds target wants l'"
    using lookup_inv_run[OF assms(4) lookup_inv_new[OF assms(3)]] by (simp add: newLookup_def push_seeds_eq)
  then show "nbd_entries (l_result l') =
      take (nat wants) (sort_key (\<lambda>n. dist target (e_ID n)) (map WrapNode (fresh_nodes {} (seeds @ l_replies l'))))"
    "set (l_replies l') \<subseteq> from_peers Q"
    unfolding lookup_inv_def using dist_order.PushAll_sort_key[OF assms(1) _ assms(2), of "\<lparr>nbd_entries = [], Target = target\<rparr>"]
    by simp_all
qed

lemma lookup_closest:
  assumes "dist_order D dist" and "0 \<le> wants" and "distinct (map e_ID seeds)"
    and "lookup_run D Q (newLookup D seeds target depth wants alpha) l'"
  shows "\<exists>rest. nbd_entries (l_result l') = take (nat wants) (sort_key (\<lambda>n. dist target (e_ID n)) (map WrapNode (seeds @ rest)))
    \<and> distinct (map e_ID (seeds @ rest)) \<and> set rest \<subseteq> from_peers Q"
proof -
  let ?rest = "fresh_nodes (e_ID ` set seeds) (l_replies l')"
  have "fresh_nodes {} (seeds @ l_replies l') = seeds @ ?rest" using fresh_nodes_id[OF assms(3), of "{}"] by (simp add: fresh_nodes_append)
  with lookup_closest_replies[OF assms] fresh_nodes_distinct[of "{}" "seeds @ l_replies l'"] fresh_nodes_set[of "e_ID ` set seeds" "l_replies l'"]
  show ?thesis by (intro exI[of _ ?rest]) auto
qed

section \<open>Properties\<close>

definition ex_en :: "node_id \<Rightarrow> enode" where
  "ex_en i = \<lparr>e_ID = i, e_IP = [1,2,3,4], e_UDP = 1, e_TCP = 1, e_Seq = 0, e_Keys = []\<rparr>"

definition ex_answers :: "enode \<Rightarrow> string + enode list \<Rightarrow> bool" where
  "ex_answers n r \<longleftrightarrow> r = Inr [ex_en (e_ID n + 1)]"



text \<open>C11: A lookup round cannot get stuck: as long as it has not returned it can take a step that does not
  need the context to end (the slots never run out for good), and every run of steps is finite.\<close>

theorem lookup_round_terminates:
  assumes "0 < l_alpha l" and "l_alpha l < 2 ^ 32" and "distinct (map e_ID (l_buffer l))" and "\<forall>n. \<exists>r. Q n r"
    and "(q_any Q (l_alpha l))\<^sup>*\<^sup>* (start_round l) s"
  shows "((\<forall>b. q_main s \<noteq> Returned b) \<longrightarrow> (\<exists>t. q_step Q (l_alpha l) s t))
    \<and> wfp (\<lambda>t s. q_step Q (l_alpha l) s t)"
proof -
  have "round_inv (l_asked l) (l_alpha l) s"
    using round_inv_steps[OF assms(5) round_inv_start[OF assms(3,1)] assms(2,1)] .
  then have "(\<forall>b. q_main s \<noteq> Returned b) \<longrightarrow> (\<exists>t. q_step Q (l_alpha l) s t)"
    using round_progress[OF _ assms(2,1,4)] by blast
  moreover have "wfp (\<lambda>t s. q_step Q (l_alpha l) s t)"
    by (rule wfp_if_convertible_to_nat[where f = round_weight]) (rule round_weight_step)
  ultimately show ?thesis by blast
qed

theorem lookup_round_terminates_witness:
  "\<exists>t. q_step ex_answers 3 (start_round (newLookup xor_cmp [ex_en 5] 7 3 16 3)) t"
  using lookup_round_terminates[of "newLookup xor_cmp [ex_en 5] 7 3 16 3" ex_answers "start_round (newLookup xor_cmp [ex_en 5] 7 3 16 3)"]
  by (simp add: newLookup_def start_round_def ex_answers_def)

text \<open>C18: The result of a lookup: of the seeds and all nodes that the queried peers returned in the rounds that ended with success (those
  where the context has not ended before), each node once and in order of arrival, the \<open>wants\<close> closest to the target, ordered by
  distance; no returned node is dropped for another reason than its distance or a duplicate identifier.\<close>

theorem lookup_result_closest:
  assumes "dist_order D dist" and "0 \<le> wants" and "distinct (map e_ID seeds)"
    and "lookup_run D Q (newLookup D seeds target depth wants alpha) l'"
  shows "nbd_entries (l_result l') =
      take (nat wants) (sort_key (\<lambda>n. dist target (e_ID n)) (map WrapNode (fresh_nodes {} (seeds @ l_replies l'))))
    \<and> set (l_replies l') \<subseteq> from_peers Q
    \<and> e_ID ` set (fresh_nodes {} (seeds @ l_replies l')) = e_ID ` set (seeds @ l_replies l')
    \<and> distinct (map e_ID (fresh_nodes {} (seeds @ l_replies l')))"
  using lookup_closest_replies[OF assms] fresh_nodes_cover[of "{}" "seeds @ l_replies l'"] fresh_nodes_distinct by simp

theorem lookup_result_closest_witness:
  "\<exists>l' :: lookup. nbd_entries (l_result l') = take 16 (sort_key (\<lambda>n. xor_dist 7 (e_ID n)) (map WrapNode (fresh_nodes {} (ex_en 5 # l_replies l'))))
    \<and> set (l_replies l') \<subseteq> from_peers ex_answers"
proof -
  obtain l' where "lookup_run xor_cmp ex_answers (newLookup xor_cmp [ex_en 5] 7 3 16 3) l'"
    using lookup_total[of "newLookup xor_cmp [ex_en 5] 7 3 16 3" ex_answers xor_cmp]
    by (auto simp: newLookup_def ex_answers_def)
  from lookup_result_closest[OF xor_metric.dist_order_axioms _ _ this] show ?thesis by (intro exI[of _ l']) simp
qed

text \<open>A lookup returns: with a non-negative depth, at least one query slot and peers whose queries end,
  \<open>Run\<close> has an outcome, after at most \<open>depth\<close> rounds.\<close>

lemma lookup_returns:
  assumes "0 < alpha" and "alpha < 2 ^ 32" and "0 \<le> depth" and "\<forall>n. \<exists>r. Q n r"
  shows "\<exists>l'. lookup_run D Q (newLookup D seeds target depth wants alpha) l'"
  using lookup_total[of "newLookup D seeds target depth wants alpha" Q D] assms
  by (simp add: newLookup_def push_seeds_eq)

end
