(* ===== verification/Awaiter.thy ===== *)
theory Awaiter
  imports Prelude
begin

text \<open>
  \<open>crawler/net/discovery/responseAwaiter.go\<close>: the goroutine that pairs replies with pending requests.
  Its loop is an event handler on the queue of awaitables. Closing an awaitable's channel (\<open>mark\<close>) is
  recorded in \<open>aw_marks\<close> with the error given; marking the same awaitable twice would be a close of a
  closed channel, a panic in Go. \<open>request.Verify\<close> closures are the argument \<open>chk\<close>: they have private
  state \<open>'c\<close> and answer whether the reply is ok and whether the request is done.
\<close>

section \<open>State\<close>

definition errRespAwaiterDone :: string where "errRespAwaiterDone = ''response awaiter done''"
definition errRespDeadlinePassed :: string where "errRespDeadlinePassed = ''response deadline excedeed''"
definition errInvalidResponse :: string where "errInvalidResponse = ''response invalid''"
definition errAlreadyRunning :: string where "errAlreadyRunning = ''already running''"

text \<open>\<open>rq_ref\<close> is the identity of the awaitable (its pointer).\<close>

record 'c awaitableRequest =
  rq_ref :: nat
  rq_Id :: node_id
  rq_Ip :: ip
  rq_ExpectedKind :: u8
  rq_Expiration :: int
  rq_checker :: 'c

record 'p response =
  rs_Id :: node_id
  rs_Ip :: ip
  rs_Kind :: u8
  rs_payload :: 'p

record 'c awaiter =
  aw_queue :: "'c awaitableRequest list"
  aw_current :: int
  aw_running :: bool
  aw_done :: bool
  aw_marks :: "(nat \<times> err) list"

definition lower :: int where "lower = 100 * Millisecond"
definition upper :: int where "upper = 5 * Second"

definition NewAwaiter :: "'c awaiter" where
  "NewAwaiter = \<lparr>aw_queue = [], aw_current = go_quot upper 2, aw_running = True, aw_done = False, aw_marks = []\<rparr>"

text \<open>\<open>Start\<close> again: the compare-and-swap on \<open>running\<close>.\<close>

definition Start :: "'c awaiter \<Rightarrow> err \<times> 'c awaiter" where
  "Start a = (if aw_running a then (Some errAlreadyRunning, a) else (None, a\<lparr>aw_running := True\<rparr>))"

section \<open>The events of the loop\<close>

definition matches :: "'c awaitableRequest \<Rightarrow> 'p response \<Rightarrow> bool" where
  "matches a r \<longleftrightarrow> \<not> (rq_Id a \<noteq> rs_Id r \<or> rq_ExpectedKind a \<noteq> rs_Kind r \<or> \<not> ip_Equal (rq_Ip a) (rs_Ip r))"

fun on_reply :: "('c \<Rightarrow> 'p response \<Rightarrow> bool \<times> bool \<times> 'c) \<Rightarrow> int \<Rightarrow> 'p response \<Rightarrow>
    'c awaitableRequest list \<Rightarrow> 'c awaitableRequest list \<times> (nat \<times> err) list" where
  "on_reply chk now r [] = ([], [])"
| "on_reply chk now r (a # q) =
     (if \<not> matches a r then (case on_reply chk now r q of (q', m) \<Rightarrow> (a # q', m))
      else if rq_Expiration a < now then (q, [(rq_ref a, Some errRespDeadlinePassed)])
      else
        (case chk (rq_checker a) r of (ok, dn, c) \<Rightarrow>
           if dn \<and> ok then (q, [(rq_ref a, None)])
           else if \<not> ok \<and> \<not> dn then (q, [(rq_ref a, Some errInvalidResponse)])
           else (a\<lparr>rq_checker := c\<rparr> # q, [])))"

definition overdue :: "int \<Rightarrow> 'c awaitableRequest \<Rightarrow> bool" where
  "overdue now a \<longleftrightarrow> rq_Expiration a < now \<or> now = rq_Expiration a"

text \<open>The loop of \<open>checkDeadlines\<close> over the elements behind the front one.\<close>

fun expire_next :: "int \<Rightarrow> 'c awaitableRequest list \<Rightarrow> 'c awaitableRequest list \<times> (nat \<times> err) list" where
  "expire_next now [] = ([], [])"
| "expire_next now (a # q) =
     (if overdue now a
      then (case expire_next now q of (q', m) \<Rightarrow> (q', (rq_ref a, Some errRespDeadlinePassed) # m))
      else (a # q, []))"

definition checkDeadlines :: "int \<Rightarrow> 'c awaitableRequest list \<Rightarrow> nat \<times> 'c awaitableRequest list \<times> (nat \<times> err) list" where
  "checkDeadlines now q =
     (case q of [] \<Rightarrow> (0, [], [])
      | f # q' \<Rightarrow>
          (case expire_next now q' of (q1, m) \<Rightarrow>
             if overdue now f then (Suc (length m), q1, m @ [(rq_ref f, Some errRespDeadlinePassed)])
             else (length m, f # q1, m)))"

definition next_interval :: "nat \<Rightarrow> int \<Rightarrow> int" where
  "next_interval cnt current =
     (if cnt = 0 then (let c = current * 2 in if upper < c then upper else c)
      else (let c = current - go_quot current 3 in if c < lower then lower else c))"

text \<open>\<open>AddPending\<close> and \<open>MatchResponse\<close> meet the loop, or find the awaiter done.\<close>

datatype ('c, 'p) aw_event = Pending "'c awaitableRequest" | Reply int "'p response" | Tick int | Shutdown

fun aw_step :: "('c \<Rightarrow> 'p response \<Rightarrow> bool \<times> bool \<times> 'c) \<Rightarrow> ('c, 'p) aw_event \<Rightarrow> 'c awaiter \<Rightarrow> 'c awaiter" where
  "aw_step chk (Pending a) s =
     (if aw_done s then s\<lparr>aw_marks := aw_marks s @ [(rq_ref a, Some errRespAwaiterDone)]\<rparr>
      else s\<lparr>aw_queue := aw_queue s @ [a]\<rparr>)"
| "aw_step chk (Reply now r) s =
     (if aw_done s then s
      else (case on_reply chk now r (aw_queue s) of (q, m) \<Rightarrow> s\<lparr>aw_queue := q, aw_marks := aw_marks s @ m\<rparr>))"
| "aw_step chk (Tick now) s =
     (if aw_done s then s
      else (case checkDeadlines now (aw_queue s) of (cnt, q, m) \<Rightarrow>
              s\<lparr>aw_queue := q, aw_marks := aw_marks s @ m, aw_current := next_interval cnt (aw_current s)\<rparr>))"
| "aw_step chk Shutdown s = s\<lparr>aw_done := True\<rparr>"

definition MatchResponse :: "('c \<Rightarrow> 'p response \<Rightarrow> bool \<times> bool \<times> 'c) \<Rightarrow> int \<Rightarrow> 'p response \<Rightarrow> 'c awaiter \<Rightarrow> err \<times> 'c awaiter" where
  "MatchResponse chk now r s = (if aw_done s then Some errRespAwaiterDone else None, aw_step chk (Reply now r) s)"

text \<open>The awaitables handed to the awaiter so far, and a step with a new one.\<close>

definition known_refs :: "'c awaiter \<Rightarrow> nat list" where
  "known_refs s = map rq_ref (aw_queue s) @ map fst (aw_marks s)"

inductive aw_rel :: "('c \<Rightarrow> 'p response \<Rightarrow> bool \<times> bool \<times> 'c) \<Rightarrow> 'c awaiter \<Rightarrow> 'c awaiter \<Rightarrow> bool"
  for chk :: "'c \<Rightarrow> 'p response \<Rightarrow> bool \<times> bool \<times> 'c" where
  add: "rq_ref a \<notin> set (known_refs s) \<Longrightarrow> aw_rel chk s (aw_step chk (Pending a) s)"
| event: "(\<And>a. e \<noteq> Pending a) \<Longrightarrow> aw_rel chk s (aw_step chk e s)"

section \<open>What one event does to the queue\<close>

lemma on_reply_refs:
  "on_reply chk now r q = (q', m) \<Longrightarrow> mset (map rq_ref q' @ map fst m) = mset (map rq_ref q)"
  by (induction q arbitrary: q' m) (auto split: if_splits prod.splits)

lemma expire_next_split:
  "expire_next now q = (dropWhile (overdue now) q, map (\<lambda>a. (rq_ref a, Some errRespDeadlinePassed)) (takeWhile (overdue now) q))"
  by (induction q) auto

lemma checkDeadlines_refs:
  assumes "checkDeadlines now q = (k, q', m)"
  shows "mset (map rq_ref q' @ map fst m) = mset (map rq_ref q)" and "k = length m"
proof -
  have s: "mset (map rq_ref (dropWhile P xs)) + mset (map rq_ref (takeWhile P xs)) = mset (map rq_ref xs)"
    for P and xs :: "'a awaitableRequest list"
    by (metis add.commute map_append mset_append takeWhile_dropWhile_id)
  show "mset (map rq_ref q' @ map fst m) = mset (map rq_ref q)" and "k = length m"
    using assms s[of "overdue now" "tl q"]
    by (auto simp: checkDeadlines_def expire_next_split multiset.map_comp comp_def split: list.splits if_splits)
qed

lemma known_refs_event: "(\<And>a. e \<noteq> Pending a) \<Longrightarrow> mset (known_refs (aw_step chk e s)) = mset (known_refs s)"
  by (cases e) (auto simp: known_refs_def dest: on_reply_refs checkDeadlines_refs split: prod.splits)

lemma known_refs_add: "mset (known_refs (aw_step chk (Pending a) s)) = add_mset (rq_ref a) (mset (known_refs s))"
  by (simp add: known_refs_def)

lemma next_interval_range: "lower \<le> c \<Longrightarrow> c \<le> upper \<Longrightarrow> lower \<le> next_interval k c \<and> next_interval k c \<le> upper"
  by (auto simp: next_interval_def go_quot_def Let_def lower_def upper_def time_defs sgn_if)

section \<open>The awaiter as a system with an invariant\<close>

definition aw_inv :: "'c awaiter \<Rightarrow> bool" where
  "aw_inv s \<longleftrightarrow> distinct (known_refs s) \<and> lower \<le> aw_current s \<and> aw_current s \<le> upper"

lemma aw_current_step: "lower \<le> aw_current s \<Longrightarrow> aw_current s \<le> upper \<Longrightarrow>
    lower \<le> aw_current (aw_step chk e s) \<and> aw_current (aw_step chk e s) \<le> upper"
  by (cases e) (auto simp: next_interval_range split: prod.splits)

lemma aw_inv_step: "aw_inv s \<Longrightarrow> aw_rel chk s t \<Longrightarrow> aw_inv t"
proof (erule aw_rel.cases, goal_cases)
  case (1 a u)
  then have "distinct (known_refs t)"
    using known_refs_add[of chk a s] by (metis aw_inv_def distinct.simps(2) mset.simps(2) mset_eq_imp_distinct_iff)
  with 1 aw_current_step[of s chk "Pending a"] show ?case by (simp add: aw_inv_def)
next
  case (2 e u)
  then have "mset (known_refs t) = mset (known_refs s)" using known_refs_event[of e chk s] by blast
  then have "distinct (known_refs t)" using 2(1) by (metis aw_inv_def mset_eq_imp_distinct_iff)
  with 2 aw_current_step[of s chk e] show ?case by (simp add: aw_inv_def)
qed

lemma aw_inv_init: "aw_inv NewAwaiter"
  by (simp add: aw_inv_def NewAwaiter_def known_refs_def lower_def upper_def time_defs go_quot_def)

interpretation awaiting: inv_system "\<lambda>s. s = NewAwaiter" "aw_rel chk" aw_inv
  by unfold_locales (auto simp: aw_inv_init elim: aw_inv_step)

lemma on_reply_skip:
  "(\<And>b. b \<in> set xs \<Longrightarrow> \<not> matches b r) \<Longrightarrow>
   on_reply chk now r (xs @ q) = (xs @ fst (on_reply chk now r q), snd (on_reply chk now r q))"
  by (induction xs) (auto split: prod.splits)

lemma sorted_dropWhile_overdue:
  "sorted (map rq_Expiration q) \<Longrightarrow> dropWhile (overdue now) q = filter (\<lambda>a. \<not> overdue now a) q"
proof (induction q)
  case (Cons a q)
  have "filter (\<lambda>a. \<not> overdue now a) q = q" if "\<not> overdue now a"
    using that Cons.prems by (auto simp: filter_id_conv overdue_def)
  with Cons show ?case by auto
qed simp

lemma sorted_takeWhile_overdue:
  "sorted (map rq_Expiration q) \<Longrightarrow> takeWhile (overdue now) q = filter (overdue now) q"
proof (induction q)
  case (Cons a q)
  have "filter (overdue now) q = []" if "\<not> overdue now a"
    using that Cons.prems by (auto simp: filter_empty_conv overdue_def)
  with Cons show ?case by auto
qed simp

section \<open>Properties\<close>

definition ex_req :: "nat \<Rightarrow> int \<Rightarrow> unit awaitableRequest" where
  "ex_req k e = \<lparr>rq_ref = k, rq_Id = 7, rq_Ip = [1,2,3,4], rq_ExpectedKind = 2, rq_Expiration = e, rq_checker = ()\<rparr>"

definition ex_resp :: "unit response" where
  "ex_resp = \<lparr>rs_Id = 7, rs_Ip = [1,2,3,4], rs_Kind = 2, rs_payload = ()\<rparr>"

text \<open>C13: Whatever requests, replies, ticks and shutdown the awaiter meets and whatever the requests'
  verifiers answer: no awaitable is settled twice (its channel is closed at most once) and none is both
  pending and settled; none is lost by a later event; the interval of the deadline ticker stays between
  100ms and 5s.\<close>

theorem awaiter_settles_once:
  assumes "reach (\<lambda>s. s = NewAwaiter) (aw_rel chk) s"
  shows "distinct (map rq_ref (aw_queue s) @ map fst (aw_marks s)) \<and> lower \<le> aw_current s \<and> aw_current s \<le> upper
    \<and> (\<forall>t. aw_rel chk s t \<longrightarrow> set (known_refs s) \<subseteq> set (known_refs t))"
proof -
  have "set (known_refs s) \<subseteq> set (known_refs t)" if "aw_rel chk s t" for t
    using that known_refs_event[THEN mset_eq_setD, of _ chk s]
    by (cases rule: aw_rel.cases) (auto simp: known_refs_def)
  with awaiting.reach_inv[OF assms] show ?thesis by (simp add: aw_inv_def known_refs_def)
qed

theorem awaiter_settles_once_witness:
  "distinct (map rq_ref (aw_queue (aw_step (\<lambda>c r. (True, True, c)) (Pending (ex_req 1 9)) NewAwaiter)))"
proof -
  let ?c = "\<lambda>c (r :: unit response). (True, True, c)"
  have "reach (\<lambda>s. s = NewAwaiter) (aw_rel ?c) (aw_step ?c (Pending (ex_req 1 9)) NewAwaiter)"
    by (rule reach_step[OF reach_init[of "\<lambda>s. s = NewAwaiter"]], rule refl, rule aw_rel.add)
       (simp add: known_refs_def NewAwaiter_def)
  from awaiter_settles_once[OF this] show ?thesis by simp
qed

text \<open>A reply concerns only the first pending request with the same node, packet kind and address: all
  others keep their place, and that one is dropped as overdue, settled as answered, settled as invalid, or
  kept with its verifier's new state when more replies are wanted.\<close>

lemma reply_first_match:
  assumes "\<forall>b \<in> set xs. \<not> matches b r" and "matches a r"
  shows "on_reply chk now r (xs @ a # ys) =
    (if rq_Expiration a < now then (xs @ ys, [(rq_ref a, Some errRespDeadlinePassed)])
     else case chk (rq_checker a) r of (ok, dn, c) \<Rightarrow>
       if ok \<and> dn then (xs @ ys, [(rq_ref a, None)])
       else if \<not> ok \<and> \<not> dn then (xs @ ys, [(rq_ref a, Some errInvalidResponse)])
       else (xs @ a\<lparr>rq_checker := c\<rparr> # ys, []))"
  using assms by (cases "chk (rq_checker a) r") (auto simp: on_reply_skip)

text \<open>When the pending requests are queued in the order of their deadlines, a tick settles exactly the
  overdue ones, each with the deadline error, and keeps exactly the others in order.\<close>

lemma checkDeadlines_exact:
  assumes "sorted (map rq_Expiration q)"
  shows "fst (checkDeadlines now q) = length (filter (overdue now) q)
    \<and> fst (snd (checkDeadlines now q)) = filter (\<lambda>a. \<not> overdue now a) q
    \<and> set (snd (snd (checkDeadlines now q))) = (\<lambda>a. (rq_ref a, Some errRespDeadlinePassed)) ` {a \<in> set q. overdue now a}"
proof (cases q)
  case (Cons f q')
  have s: "sorted (map rq_Expiration q')" using assms Cons by simp
  have "\<forall>a \<in> set q'. \<not> overdue now a" if "\<not> overdue now f"
    using that assms Cons by (auto simp: overdue_def)
  with Cons show ?thesis
    by (auto simp: checkDeadlines_def expire_next_split sorted_dropWhile_overdue[OF s] sorted_takeWhile_overdue[OF s])
qed (simp add: checkDeadlines_def)

text \<open>No request waits for ever: a tick at a time when all pending requests are overdue settles them all,
  in whatever order they are queued.\<close>

lemma tick_clears_overdue:
  assumes "\<forall>a \<in> set (aw_queue s). overdue now a" and "\<not> aw_done s"
  shows "aw_queue (aw_step chk (Tick now) s) = []
    \<and> set (map rq_ref (aw_queue s)) \<subseteq> set (map fst (aw_marks (aw_step chk (Tick now) s)))"
proof -
  have "takeWhile (overdue now) q = q" "dropWhile (overdue now) q = []" if "aw_queue s = a # q" for a q
    using assms(1) that by (simp_all add: takeWhile_eq_all_conv)
  with assms show ?thesis
    by (cases "aw_queue s") (auto simp: checkDeadlines_def expire_next_split simp del: takeWhile_eq_all_conv)
qed

end
