(* ===== verification/Udp.thy ===== *)
theory Udp
  imports Prelude
begin

text \<open>
  The UDP edge of the discovery: \<open>acceptor.go\<close> (the per-address packet limiter and the worker pool),
  \<open>listener.go\<close> (the read loop) and \<open>writer.go\<close> (throttled writes). A Go panic is the value \<open>None\<close>.
  Package \<open>golang.org/x/time/rate\<close> is outside the repository: waiting for a token is recorded as an
  action of the writer.
\<close>

section \<open>The packet limiter\<close>

record acceptLimit =
  lim_c :: int
  lim_last :: int

record limiter =
  timeDeltaTh :: int
  bound :: int
  lim_m :: "ip \<Rightarrow> acceptLimit option"

text \<open>\<open>time.Since\<close> saturates at the range of \<open>Duration\<close>.\<close>

definition sat64 :: "int \<Rightarrow> int" where
  "sat64 x = max (- (2 ^ 63)) (min (2 ^ 63 - 1) x)"

text \<open>
  \<open>update\<close>: the conversion of \<open>ip.To4()\<close> to \<open>[4]byte\<close> panics for an address that is not IPv4, and the
  division panics when the \<open>int64\<close> product \<open>timeDeltaTh * timeDeltaTh\<close> is 0. \<open>now\<close> and \<open>now'\<close> are the
  two clock readings.
\<close>

definition update :: "int \<Rightarrow> int \<Rightarrow> ip \<Rightarrow> limiter \<Rightarrow> limiter option" where
  "update now now' a l =
     (case To4 a of
        None \<Rightarrow> None
      | Some k \<Rightarrow>
          let v = (case lim_m l k of Some v \<Rightarrow> v | None \<Rightarrow> \<lparr>lim_c = 0, lim_last = 0\<rparr>);
              c1 = wrap64 (lim_c v + 1);
              elapsed = sat64 (now - unix (lim_last v));
              sq = wrap64 (timeDeltaTh l * timeDeltaTh l);
              store = (\<lambda>c. Some (l\<lparr>lim_m := (lim_m l)(k \<mapsto> \<lparr>lim_c = c, lim_last = toUnix now'\<rparr>)\<rparr>))
          in if timeDeltaTh l < elapsed
             then if sq = 0 then None
                  else let c2 = wrap64 (c1 - (go_quot elapsed sq + 1)) in store (if c2 < 0 then 0 else c2)
             else store c1)"

definition isAbove :: "ip \<Rightarrow> limiter \<Rightarrow> bool option" where
  "isAbove a l =
     (case To4 a of None \<Rightarrow> None
      | Some k \<Rightarrow> Some (bound l < (case lim_m l k of Some v \<Rightarrow> lim_c v | None \<Rightarrow> 0)))"

section \<open>The worker pool\<close>

record poolAcceptor =
  pa_limit :: bool
  pa_limiter :: limiter
  pa_workers :: nat
  pa_started :: bool
  pa_chDone :: bool

definition NewPoolAcceptor :: "nat \<Rightarrow> poolAcceptor" where
  "NewPoolAcceptor workers = \<lparr>pa_limit = False, pa_limiter = \<lparr>timeDeltaTh = 0, bound = 0, lim_m = (\<lambda>_. None)\<rparr>,
     pa_workers = workers, pa_started = False, pa_chDone = False\<rparr>"

definition NewPoolAcceptorWithLimits :: "nat \<Rightarrow> int \<Rightarrow> int \<Rightarrow> poolAcceptor" where
  "NewPoolAcceptorWithLimits workers timeframe packetsBound =
     \<lparr>pa_limit = True, pa_limiter = \<lparr>timeDeltaTh = timeframe, bound = packetsBound, lim_m = (\<lambda>_. None)\<rparr>,
      pa_workers = workers, pa_started = False, pa_chDone = False\<rparr>"

text \<open>
  What happens to a packet: refused by the limiter, handed to a worker, dropped because the pool is
  stopped, or blocked (no worker is idle yet). \<open>idle\<close>: a worker is receiving; \<open>pick\<close>: the choice of
  \<open>select\<close> when both cases are ready.
\<close>

datatype accepted = RateLimited | Handed "u8 list" | Dropped | Blocked

definition send :: "bool \<Rightarrow> bool \<Rightarrow> u8 list \<Rightarrow> poolAcceptor \<Rightarrow> accepted" where
  "send idle pick dat a =
     (if pa_chDone a \<and> (\<not> idle \<or> pick) then Dropped
      else if idle then Handed dat else Blocked)"

definition Accept :: "int \<Rightarrow> int \<Rightarrow> bool \<Rightarrow> bool \<Rightarrow> u8 list \<Rightarrow> ip \<Rightarrow> poolAcceptor \<Rightarrow> (accepted \<times> poolAcceptor) option" where
  "Accept now now' idle pick dat from a =
     (let a1 = a\<lparr>pa_started := True\<rparr> in
      if pa_limit a1
      then (case update now now' from (pa_limiter a1) of
              None \<Rightarrow> None
            | Some l \<Rightarrow>
                (case isAbove from l of
                   None \<Rightarrow> None
                 | Some ab \<Rightarrow>
                     let a2 = a1\<lparr>pa_limiter := l\<rparr> in
                     if ab then Some (RateLimited, a2)
                     else Some (send idle pick (go_copy (replicate (length dat) 0) dat) a2, a2)))
      else Some (send idle pick (go_copy (replicate (length dat) 0) dat) a1, a1))"

text \<open>\<open>Stop\<close> hands the stop token to the goroutine that \<open>start\<close> created, which closes \<open>chDone\<close>; before the
  first \<open>Accept\<close> nobody receives and \<open>Stop\<close> blocks.\<close>

definition Stop :: "poolAcceptor \<Rightarrow> poolAcceptor option" where
  "Stop a = (if pa_chDone a then Some a else if pa_started a then Some (a\<lparr>pa_chDone := True\<rparr>) else None)"

text \<open>
  The pool of the acceptor at work: \<open>start\<close> (called once, by the first \<open>Accept\<close>) runs the workers (\<open>listen\<close>) and the
  goroutine that turns the signal of \<open>Stop\<close> into the closed channel. \<open>ar_sending\<close> are the calls of \<open>Accept\<close> in \<open>send\<close>;
  \<open>ar_accepted\<close>, \<open>ar_handled\<close> and \<open>ar_dropped\<close> log the packets that passed the limiter and what became of them.
\<close>

datatype 'j listen_phase = InSelect | InHandler 'j | Returned

record 'j acceptor_run =
  ar_pool :: poolAcceptor
  ar_listeners :: "'j listen_phase list"
  ar_stopping :: bool
  ar_sending :: "'j list"
  ar_accepted :: "'j list"
  ar_handled :: "'j list"
  ar_dropped :: "'j list"

definition acceptor_start :: "'j acceptor_run \<Rightarrow> 'j acceptor_run" where
  "acceptor_start a =
     (if pa_started (ar_pool a) then a
      else a\<lparr>ar_pool := (ar_pool a)\<lparr>pa_started := True\<rparr>, ar_listeners := replicate (pa_workers (ar_pool a)) InSelect\<rparr>)"

inductive acceptor_step :: "'j acceptor_run \<Rightarrow> 'j acceptor_run \<Rightarrow> bool" where
  refuse: "acceptor_step a (acceptor_start a)"
| accept: "acceptor_step a ((acceptor_start a)\<lparr>ar_sending := j # ar_sending a, ar_accepted := j # ar_accepted a\<rparr>)"
| hand: "ar_sending a = xs @ j # ys \<Longrightarrow> ar_listeners a = us @ InSelect # vs \<Longrightarrow>
    acceptor_step a (a\<lparr>ar_sending := xs @ ys, ar_listeners := us @ InHandler j # vs, ar_handled := j # ar_handled a\<rparr>)"
| drop: "ar_sending a = xs @ j # ys \<Longrightarrow> pa_chDone (ar_pool a) \<Longrightarrow>
    acceptor_step a (a\<lparr>ar_sending := xs @ ys, ar_dropped := j # ar_dropped a\<rparr>)"
| handled: "ar_listeners a = us @ InHandler j # vs \<Longrightarrow> acceptor_step a (a\<lparr>ar_listeners := us @ InSelect # vs\<rparr>)"
| return: "ar_listeners a = us @ InSelect # vs \<Longrightarrow> pa_chDone (ar_pool a) \<Longrightarrow>
    acceptor_step a (a\<lparr>ar_listeners := us @ Returned # vs\<rparr>)"
| stop_taken: "pa_started (ar_pool a) \<Longrightarrow> \<not> ar_stopping a \<Longrightarrow> acceptor_step a (a\<lparr>ar_stopping := True\<rparr>)"
| close_done: "ar_stopping a \<Longrightarrow> \<not> pa_chDone (ar_pool a) \<Longrightarrow>
    acceptor_step a (a\<lparr>ar_pool := (ar_pool a)\<lparr>pa_chDone := True\<rparr>\<rparr>)"

definition acceptor_init :: "'j acceptor_run \<Rightarrow> bool" where
  "acceptor_init a \<longleftrightarrow> (\<exists>pool. \<not> pa_started pool \<and> \<not> pa_chDone pool \<and>
     a = \<lparr>ar_pool = pool, ar_listeners = [], ar_stopping = False, ar_sending = [], ar_accepted = [], ar_handled = [], ar_dropped = []\<rparr>)"

section \<open>The listener\<close>

definition maxPacketSize :: nat where "maxPacketSize = 1280"

datatype udp_read = Temporary | Eof | ReadError | Datagram "u8 list" ip

record listener =
  okayPackets :: u64
  invalidPackets :: u64

text \<open>
  The read loop over the results of \<open>ReadFromUDP\<close>; \<open>acc\<close> is the acceptor (with state \<open>'s\<close>), given the
  bytes that fit the buffer; the result says whether the loop has returned.
\<close>

fun listen_loop :: "('s \<Rightarrow> u8 list \<Rightarrow> ip \<Rightarrow> err \<times> 's) \<Rightarrow> udp_read list \<Rightarrow> listener \<Rightarrow> 's \<Rightarrow> bool \<times> listener \<times> 's" where
  "listen_loop acc [] l s = (False, l, s)"
| "listen_loop acc (Temporary # rs) l s = listen_loop acc rs l s"
| "listen_loop acc (Eof # rs) l s = (True, l, s)"
| "listen_loop acc (ReadError # rs) l s = (True, l, s)"
| "listen_loop acc (Datagram b from # rs) l s =
     (case acc s (take maxPacketSize b) from of (e, s') \<Rightarrow>
        listen_loop acc rs
          (if e \<noteq> None then l\<lparr>invalidPackets := invalidPackets l + 1\<rparr> else l\<lparr>okayPackets := okayPackets l + 1\<rparr>) s')"

section \<open>The writer\<close>

record 'k throtter =
  th_amount :: int
  th_interval :: int
  th_cache :: "'k set"
  th_shouldThrottle :: bool

record writer =
  packetThrotter :: "u8 throtter"
  ipThrotter :: "ip throtter"

definition newWriter :: writer where
  "newWriter = \<lparr>packetThrotter = \<lparr>th_amount = 0, th_interval = 0, th_cache = {}, th_shouldThrottle = False\<rparr>,
     ipThrotter = \<lparr>th_amount = 0, th_interval = 0, th_cache = {}, th_shouldThrottle = False\<rparr>\<rparr>"

definition ThrottleIp :: "int \<Rightarrow> int \<Rightarrow> writer \<Rightarrow> writer" where
  "ThrottleIp timeframe amount w = w\<lparr>ipThrotter := (ipThrotter w)\<lparr>th_interval := timeframe, th_amount := amount,
     th_shouldThrottle := True\<rparr>\<rparr>"

definition ThrottlePackets :: "int \<Rightarrow> int \<Rightarrow> writer \<Rightarrow> writer" where
  "ThrottlePackets timeframe amount w = w\<lparr>packetThrotter := (packetThrotter w)\<lparr>th_interval := timeframe,
     th_amount := amount, th_shouldThrottle := True\<rparr>\<rparr>"

text \<open>\<open>wait\<close>: whether a token of the key's limiter is awaited, and the limiters created so far.\<close>

definition wait :: "'k \<Rightarrow> 'k throtter \<Rightarrow> bool \<times> 'k throtter" where
  "wait k t = (if \<not> th_shouldThrottle t then (False, t) else (True, t\<lparr>th_cache := insert k (th_cache t)\<rparr>))"

datatype write_action = WaitPacket u8 | WaitIp ip | WriteToUDP "u8 list" ip

definition write_udp :: "u8 \<Rightarrow> u8 list \<Rightarrow> ip \<Rightarrow> writer \<Rightarrow> write_action list \<times> writer" where
  "write_udp kind dat addr w =
     (case wait kind (packetThrotter w) of (wp, pt) \<Rightarrow>
      let w1 = w\<lparr>packetThrotter := pt\<rparr>; act1 = (if wp then [WaitPacket kind] else []) in
      case To4 addr of
        None \<Rightarrow> (act1 @ [WriteToUDP dat addr], w1)
      | Some k \<Rightarrow>
          (case wait k (ipThrotter w1) of (wi, it) \<Rightarrow>
             (act1 @ (if wi then [WaitIp k] else []) @ [WriteToUDP dat addr], w1\<lparr>ipThrotter := it\<rparr>)))"

section \<open>Counting packets\<close>

lemma To4_length: "To4 a = Some k \<Longrightarrow> length k = 4"
  by (auto simp: To4_def split: if_splits)

lemma sat64_small: "\<bar>x\<bar> < 2 ^ 63 \<Longrightarrow> sat64 x = x"
  by (auto simp: sat64_def)

text \<open>The counter after a packet: one more inside the time frame; never above the old one outside it.\<close>

definition lim_of :: "limiter \<Rightarrow> ip \<Rightarrow> acceptLimit" where
  "lim_of l k = (case lim_m l k of Some v \<Rightarrow> v | None \<Rightarrow> \<lparr>lim_c = 0, lim_last = 0\<rparr>)"

lemma update_in_frame:
  assumes "To4 a = Some k" "0 \<le> lim_c (lim_of l k)" "lim_c (lim_of l k) < 2 ^ 63 - 1"
    and "sat64 (now - unix (lim_last (lim_of l k))) \<le> timeDeltaTh l"
  shows "update now now' a l = Some (l\<lparr>lim_m := (lim_m l)(k \<mapsto>
     \<lparr>lim_c = lim_c (lim_of l k) + 1, lim_last = toUnix now'\<rparr>)\<rparr>)"
proof -
  have "wrap64 (lim_c (lim_of l k) + 1) = lim_c (lim_of l k) + 1" using assms(2,3) by (intro wrap64_small) simp_all
  with assms show ?thesis by (simp add: update_def lim_of_def Let_def)
qed

text \<open>A run of packets from one address, each with its arrival time.\<close>

fun update_all :: "int list \<Rightarrow> ip \<Rightarrow> limiter \<Rightarrow> limiter option" where
  "update_all [] a l = Some l"
| "update_all (t # ts) a l = (case update t t a l of None \<Rightarrow> None | Some l' \<Rightarrow> update_all ts a l')"

text \<open>\<open>t\<close> lies in the second \<open>S\<close>.\<close>

definition in_second :: "int \<Rightarrow> int \<Rightarrow> bool" where
  "in_second S t \<longleftrightarrow> S * Second \<le> t \<and> t < (S + 1) * Second"

lemma in_second_unix: "in_second S t \<Longrightarrow> toUnix t = S"
  by (auto simp: in_second_def time_defs intro!: int_div_pos_eq[where r = "t - S * 1000000000"])

lemma update_first:
  assumes "To4 a = Some k" "lim_m l k = None" "in_second S t" "timeDeltaTh l < t" "t < 2 ^ 63" "0 \<le> t"
    and "0 < timeDeltaTh l * timeDeltaTh l" "timeDeltaTh l * timeDeltaTh l < 2 ^ 63"
  shows "update t t a l = Some (l\<lparr>lim_m := (lim_m l)(k \<mapsto> \<lparr>lim_c = 0, lim_last = S\<rparr>)\<rparr>)"
proof -
  let ?q = "go_quot t (timeDeltaTh l * timeDeltaTh l)"
  have sq: "wrap64 (timeDeltaTh l * timeDeltaTh l) = timeDeltaTh l * timeDeltaTh l"
    using assms(7,8) by (intro wrap64_small) simp_all
  have "t div (timeDeltaTh l * timeDeltaTh l) \<le> t div 1" using assms(6,7) by (intro zdiv_mono2) simp_all
  then have q: "0 \<le> ?q" "?q \<le> t"
    using assms(6,7) by (auto simp: go_quot_def sgn_if pos_imp_zdiv_nonneg_iff)
  have e: "sat64 (t - unix 0) = t" using assms(5,6) by (simp add: sat64_small unix_def)
  have w: "wrap64 1 = 1" "wrap64 (- ?q) = - ?q"
    using q assms(5) by (auto intro!: wrap64_small)
  show ?thesis
    using assms(1,2,4,7) q in_second_unix[OF assms(3)] by (auto simp: update_def Let_def sq e w)
qed

lemma update_all_same_second:
  assumes "To4 a = Some k" "lim_m l k = Some \<lparr>lim_c = c, lim_last = S\<rparr>" "\<forall>t \<in> set ts. in_second S t"
    and "Second \<le> timeDeltaTh l" "0 \<le> c" "c + int (length ts) < 2 ^ 63"
  shows "\<exists>l'. update_all ts a l = Some l' \<and> bound l' = bound l
    \<and> lim_m l' k = Some \<lparr>lim_c = c + int (length ts), lim_last = S\<rparr>"
  using assms
proof (induction ts arbitrary: l c)
  case (Cons t ts)
  have f: "lim_of l k = \<lparr>lim_c = c, lim_last = S\<rparr>" using Cons.prems(2) by (simp add: lim_of_def)
  have t: "in_second S t" using Cons.prems(3) by simp
  then have "sat64 (t - unix S) \<le> timeDeltaTh l"
    using Cons.prems(4) by (auto simp: in_second_def time_defs sat64_def)
  then have u: "update t t a l = Some (l\<lparr>lim_m := (lim_m l)(k \<mapsto> \<lparr>lim_c = c + 1, lim_last = S\<rparr>)\<rparr>)"
    using update_in_frame[OF Cons.prems(1), of l t t] Cons.prems(5,6) f in_second_unix[OF t] by simp
  have "\<exists>l'. update_all ts a (l\<lparr>lim_m := (lim_m l)(k \<mapsto> \<lparr>lim_c = c + 1, lim_last = S\<rparr>)\<rparr>) = Some l' \<and> bound l' = bound l
    \<and> lim_m l' k = Some \<lparr>lim_c = c + 1 + int (length ts), lim_last = S\<rparr>"
    using Cons.IH[of "l\<lparr>lim_m := (lim_m l)(k \<mapsto> \<lparr>lim_c = c + 1, lim_last = S\<rparr>)\<rparr>" "c + 1"] Cons.prems by simp
  with u show ?case by (simp add: add.assoc)
qed simp

lemma listen_loop_count:
  "listen_loop acc rs l s = (b, l', s') \<Longrightarrow>
   okayPackets l' + invalidPackets l' = okayPackets l + invalidPackets l
     + of_nat (length (filter (\<lambda>r. r \<noteq> Temporary) (takeWhile (\<lambda>r. r \<notin> {Eof, ReadError}) rs)))
   \<and> (b \<longleftrightarrow> Eof \<in> set rs \<or> ReadError \<in> set rs)"
  by (induction acc rs l s rule: listen_loop.induct) (auto split: prod.splits if_splits simp: algebra_simps)

text \<open>No packet that passed the limiter is lost or handled twice; packets are dropped and workers return only after
  \<open>Stop\<close>, and there are always as many workers as asked for.\<close>

definition acceptor_inv :: "'j acceptor_run \<Rightarrow> bool" where
  "acceptor_inv a \<longleftrightarrow> mset (ar_accepted a) = mset (ar_sending a) + mset (ar_handled a) + mset (ar_dropped a)
     \<and> (ar_dropped a \<noteq> [] \<or> Returned \<in> set (ar_listeners a) \<longrightarrow> pa_chDone (ar_pool a)) \<and> (pa_chDone (ar_pool a) \<longrightarrow> ar_stopping a)
     \<and> (if pa_started (ar_pool a) then length (ar_listeners a) = pa_workers (ar_pool a) else ar_listeners a = [])"

interpretation acceptor_sys: inv_system acceptor_init acceptor_step acceptor_inv
proof
  fix a :: "'a acceptor_run" assume "acceptor_init a"
  then show "acceptor_inv a" by (auto simp: acceptor_init_def acceptor_inv_def)
next
  fix a b :: "'a acceptor_run" assume "acceptor_inv a" "acceptor_step a b"
  from this(2,1) show "acceptor_inv b"
    by (induction rule: acceptor_step.induct) (auto simp: acceptor_inv_def acceptor_start_def split: if_splits)
qed

lemma acceptor_handles_once:
  "reach acceptor_init acceptor_step a \<Longrightarrow> \<not> pa_chDone (ar_pool a) \<Longrightarrow>
    mset (ar_accepted a) = mset (ar_sending a) + mset (ar_handled a) \<and> Returned \<notin> set (ar_listeners a)"
  using acceptor_sys.reach_inv[of a] by (auto simp: acceptor_inv_def)

section \<open>Properties\<close>

text \<open>A burst of packets from one IPv4 address within one second, with a time frame of one to three
  seconds: the first packet counts 0 and every further one adds 1, so exactly the packets after the first
  \<open>bound + 1\<close> are refused.\<close>

lemma limiter_burst:
  assumes "To4 a = Some k" and "lim_m l k = None" and "ts \<noteq> []" and "\<forall>t \<in> set ts. in_second S t"
    and "Second \<le> timeDeltaTh l" and "timeDeltaTh l \<le> 3 * Second"
    and "4 \<le> S" and "(S + 1) * Second < 2 ^ 63" and "int (length ts) < 2 ^ 62"
  shows "\<exists>l'. update_all ts a l = Some l' \<and> isAbove a l' = Some (bound l < int (length ts) - 1)"
proof -
  obtain t ts' where ts: "ts = t # ts'" using assms(3) by (cases ts) auto
  have t: "in_second S t" "4 * Second \<le> t" "t < 2 ^ 63"
    using assms(4,7,8) ts by (auto simp: in_second_def time_defs)
  have "timeDeltaTh l * timeDeltaTh l \<le> (3 * Second) * (3 * Second)"
    using assms(5,6) by (intro mult_mono) (auto simp: time_defs)
  moreover have "0 < timeDeltaTh l * timeDeltaTh l" using assms(5) by (auto simp: time_defs zero_less_mult_iff)
  ultimately have u: "update t t a l = Some (l\<lparr>lim_m := (lim_m l)(k \<mapsto> \<lparr>lim_c = 0, lim_last = S\<rparr>)\<rparr>)"
    using assms(6) t by (intro update_first[OF assms(1,2) t(1)]) (auto simp: time_defs)
  obtain l' where "update_all ts' a (l\<lparr>lim_m := (lim_m l)(k \<mapsto> \<lparr>lim_c = 0, lim_last = S\<rparr>)\<rparr>) = Some l'"
    "bound l' = bound l" "lim_m l' k = Some \<lparr>lim_c = int (length ts'), lim_last = S\<rparr>"
    using update_all_same_second[OF assms(1), of "l\<lparr>lim_m := (lim_m l)(k \<mapsto> \<lparr>lim_c = 0, lim_last = S\<rparr>)\<rparr>" 0 S ts'] assms(4,5,9) ts
    by auto
  with ts u assms(1) show ?thesis by (simp add: isAbove_def)
qed

text \<open>The limiter can crash the listener: with limits, a packet from an address that is not IPv4 panics;
  so does the first packet of any address when the square of the time frame vanishes at 64 bits (for example
  a time frame of 2^32 ns, about 4.3 seconds).\<close>

lemma limiter_panics:
  assumes "pa_limit p"
    and "To4 a = None \<or> (wrap64 (timeDeltaTh (pa_limiter p) * timeDeltaTh (pa_limiter p)) = 0
      \<and> lim_m (pa_limiter p) (the (To4 a)) = None \<and> timeDeltaTh (pa_limiter p) < now \<and> 0 \<le> now \<and> now < 2 ^ 63)"
  shows "Accept now now' idle pick dat a p = None"
proof -
  have "sat64 (now - unix 0) = now" if "0 \<le> now" "now < 2 ^ 63" using that by (simp add: sat64_small unix_def)
  then have "update now now' a (pa_limiter p) = None"
    using assms(2) by (cases "To4 a") (auto simp: update_def Let_def)
  with assms(1) show ?thesis by (simp add: Accept_def Let_def)
qed

text \<open>The read loop counts every datagram exactly once, as okay or as invalid, up to the first read error
  that is not temporary; it returns exactly when there is such an error.\<close>

lemma listener_counts:
  "case listen_loop acc rs \<lparr>okayPackets = 0, invalidPackets = 0\<rparr> s of (b, l, s') \<Rightarrow>
     okayPackets l + invalidPackets l
       = of_nat (length (filter (\<lambda>r. r \<noteq> Temporary) (takeWhile (\<lambda>r. r \<notin> {Eof, ReadError}) rs)))
     \<and> (b \<longleftrightarrow> Eof \<in> set rs \<or> ReadError \<in> set rs)"
  using listen_loop_count[of acc rs "\<lparr>okayPackets = 0, invalidPackets = 0\<rparr>" s] by (auto split: prod.splits)

end
