(* ===== verification/Handler.thy ===== *)
theory Handler
  imports Table_Props Lookup Awaiter Udp
begin

text \<open>
  \<open>crawler/net/discovery/handler.go\<close> and \<open>ctx.go\<close>: the packet handler that ties the node table, the
  lookup, the response awaiter and the writer together. \<open>execute\<close> registers a request with the awaiter
  before it is written; \<open>LookupRandom\<close> seeds a lookup from the table.
\<close>

section \<open>Definitions\<close>

definition hook_code :: "HookType \<Rightarrow> u8" where
  "hook_code t = (case t of Added \<Rightarrow> 1 | Seen \<Rightarrow> 2 | Removed \<Rightarrow> 3)"

definition event_String :: "u8 \<Rightarrow> string" where
  "event_String ev =
     (if ev = hook_code Added then ''added''
      else if ev = hook_code Seen then ''seen''
      else if ev = hook_code Removed then ''removed''
      else ''unknown'')"

text \<open>The outcome of \<open>execute\<close>: returned at once, or waiting for the awaitable.\<close>

datatype executed = Finished err | Awaits nat

definition execute :: "'c awaitableRequest \<Rightarrow> bool \<Rightarrow> u8 \<Rightarrow> u8 list \<Rightarrow> ip \<Rightarrow> err \<Rightarrow>
    'c awaiter \<times> writer \<Rightarrow> executed \<times> ('c awaiter \<times> writer) \<times> write_action list" where
  "execute req await kind dat addr wr s =
     (let a = (if await then aw_step (\<lambda>c (r :: unit response). (True, True, c)) (Pending req) (fst s) else fst s) in
      case write_udp kind dat addr (snd s) of (acts, w) \<Rightarrow>
        (case wr of
           Some e \<Rightarrow> (Finished (Some e), (a, w), acts)
         | None \<Rightarrow> (if await then Awaits (rq_ref req) else Finished None, (a, w), acts)))"

text \<open>\<open>Await\<close> then \<open>Error\<close>: returns once the awaitable is marked.\<close>

definition await_result :: "nat \<Rightarrow> 'c awaiter \<Rightarrow> err option" where
  "await_result ref a = map_of (aw_marks a) ref"

definition LookupSelf :: "string + enode list" where
  "LookupSelf = Inl ''not implemented''"

definition LookupRandom :: "'s table_ext \<Rightarrow> (enode \<Rightarrow> string + enode list \<Rightarrow> bool) \<Rightarrow> node_id \<Rightarrow> 's Table \<Rightarrow>
    string + enode list \<Rightarrow> bool" where
  "LookupRandom X Q target tab res =
     (let nodes = FindnodeByID X tab target 16 True in
      if length (nbd_entries nodes) = 0 then res = Inl ''seed failure''
      else \<exists>l'. lookup_run (x_DistCmp X) Q (newLookup (x_DistCmp X) (Enodes nodes) target 3 16 3) l'
             \<and> res = Inr (Enodes (l_result l')))"

definition record_code :: "err \<Rightarrow> int" where
  "record_code e = (if e = None then 200 else 404)"

section \<open>Lemmas\<close>

lemma Enodes_ids: "map e_ID (Enodes h) = map e_ID (nbd_entries h)"
  by (simp add: Enodes_def UnwrapNodes_map)

lemma sort_key_ids: "distinct (map e_ID ns) \<Longrightarrow> distinct (map e_ID (take k (sort_key f ns)))"
  by (metis distinct_take mset_eq_imp_distinct_iff mset_map mset_sort take_map)

lemma seeds_distinct:
  assumes "table_env X cnt lim near" "tab_inv X cnt lim near tab" "dist_order (x_DistCmp X) dist" "0 \<le> k"
  shows "distinct (map e_ID (Enodes (FindnodeByID X tab target k b)))"
    and "set (Enodes (FindnodeByID X tab target k b)) \<subseteq> Unwrap ` set (tab_nodes tab)"
proof -
  let ?ns = "if b \<and> 0 < k \<and> (\<exists>n \<in> set (tab_nodes tab). 0 < GetCount n)
     then filter (\<lambda>n. 0 < GetCount n) (tab_nodes tab) else tab_nodes tab"
  have e: "nbd_entries (FindnodeByID X tab target k b) = take (nat k) (sort_key (\<lambda>n. dist target (e_ID n)) ?ns)"
    using findnode_closest[OF assms(3,4)] .
  have "distinct (map e_ID ?ns)"
    using table_env.tab_nodes_distinct[OF assms(1,2)] by (simp add: distinct_map_filter)
  then show "distinct (map e_ID (Enodes (FindnodeByID X tab target k b)))"
    unfolding Enodes_ids e by (rule sort_key_ids)
  have "set ?ns \<subseteq> set (tab_nodes tab)" by auto
  then show "set (Enodes (FindnodeByID X tab target k b)) \<subseteq> Unwrap ` set (tab_nodes tab)"
    unfolding Enodes_def UnwrapNodes_map e by (auto dest!: in_set_takeD)
qed

section \<open>Properties\<close>

text \<open>A random lookup over a well-formed table always has an outcome. With a non-empty table it returns at most 16
  nodes without duplicates, ordered by their distance to the target, each one from the table or returned by a
  queried peer; with an empty table it fails with \<open>seed failure\<close>.\<close>

lemma LookupRandom_spec:
  assumes "table_env X cnt lim near" and "tab_inv X cnt lim near tab" and "dist_order (x_DistCmp X) dist"
    and "\<forall>n. \<exists>r. Q n r"
  shows "(\<exists>res. LookupRandom X Q target tab res)
    \<and> (\<forall>ns. LookupRandom X Q target tab (Inr ns) \<longrightarrow>
         length ns \<le> 16 \<and> distinct (map e_ID ns) \<and> sorted (map (\<lambda>n. dist target (e_ID n)) ns)
         \<and> set ns \<subseteq> Unwrap ` set (tab_nodes tab) \<union> from_peers Q)
    \<and> (tab_nodes tab = [] \<longrightarrow> LookupRandom X Q target tab (Inl ''seed failure''))"
proof (intro conjI allI impI)
  let ?h = "FindnodeByID X tab target 16 True"
  let ?l = "newLookup (x_DistCmp X) (Enodes ?h) target 3 16 3"
  show "\<exists>res. LookupRandom X Q target tab res"
    using lookup_total[of ?l Q "x_DistCmp X"] assms(4) by (auto simp: LookupRandom_def Let_def newLookup_def push_seeds_eq)
  show "LookupRandom X Q target tab (Inl ''seed failure'')" if "tab_nodes tab = []"
    using findnode_closest[OF assms(3), of 16 tab target True] that by (simp add: LookupRandom_def)
  fix ns assume "LookupRandom X Q target tab (Inr ns)"
  then obtain l' where l': "lookup_run (x_DistCmp X) Q ?l l'" "ns = Enodes (l_result l')"
    by (auto simp: LookupRandom_def Let_def split: if_splits)
  note sd = seeds_distinct[OF assms(1-3), of 16 target True]
  obtain rest where r: "nbd_entries (l_result l') = take 16 (sort_key (\<lambda>n. dist target (e_ID n)) (map WrapNode (Enodes ?h @ rest)))"
    "distinct (map e_ID (Enodes ?h @ rest))" "set rest \<subseteq> from_peers Q"
    using lookup_closest[OF assms(3) _ sd(1) l'(1)] by auto
  have d: "distinct (map e_ID (map WrapNode (Enodes ?h @ rest)))" using r(2) by (simp add: comp_def del: map_append)
  show "length ns \<le> 16" unfolding l'(2) by (simp add: Enodes_def UnwrapNodes_map r(1))
  show "distinct (map e_ID ns)" unfolding l'(2) Enodes_ids r(1) by (rule sort_key_ids[OF d])
  show "sorted (map (\<lambda>n. dist target (e_ID n)) ns)"
  proof -
    have "map (\<lambda>n. dist target (e_ID n)) ns = map (\<lambda>n. dist target (e_ID n)) (nbd_entries (l_result l'))"
      unfolding l'(2) by (simp add: Enodes_def UnwrapNodes_map)
    then show ?thesis unfolding r(1) by (simp add: sorted_wrt_take take_map[symmetric])
  qed
  have "ns = map Unwrap (take 16 (sort_key (\<lambda>n. dist target (e_ID n)) (map WrapNode (Enodes ?h @ rest))))"
    unfolding l'(2) by (simp add: Enodes_def UnwrapNodes_map r(1))
  then have "set ns \<subseteq> Unwrap ` set (map WrapNode (Enodes ?h @ rest))" by (auto dest!: in_set_takeD)
  then have "set ns \<subseteq> set (Enodes ?h @ rest)" by (auto simp: Unwrap_WrapNode)
  with sd(2) r(3) show "set ns \<subseteq> Unwrap ` set (tab_nodes tab) \<union> from_peers Q" by auto
qed

text \<open>A request sent with \<open>await\<close> is registered before it is written, so its reply cannot be missed: when the
  write succeeds the caller waits, and once the awaiter has settled the request (in whatever state it then is)
  the caller gets exactly the error it was settled with; without \<open>await\<close> the awaiter is not touched.\<close>

lemma execute_awaits:
  assumes "execute req True kind dat addr None (a, w) = (res, (a', w'), acts)" and "\<not> aw_done a"
    and "reach (\<lambda>s. s = NewAwaiter) (aw_rel chk) b" and "(rq_ref req, e) \<in> set (aw_marks b)"
  shows "res = Awaits (rq_ref req) \<and> aw_queue a' = aw_queue a @ [req] \<and> await_result (rq_ref req) b = Some e
    \<and> execute req False kind dat addr None (a, w) = (Finished None, (a, w'), acts)"
proof -
  have "distinct (map fst (aw_marks b))" using awaiting.reach_inv[OF assms(3)] by (simp add: aw_inv_def known_refs_def)
  then have "await_result (rq_ref req) b = Some e" using assms(4) by (simp add: await_result_def)
  with assms(1,2) show ?thesis by (auto simp: execute_def Let_def split: prod.splits)
qed

end
