(* ===== verification/Requests.thy ===== *)
theory Requests
  imports V4_Props Handler
begin

text \<open>
  The requests of the v4 handler in the response awaiter: \<open>v4/packet.go\<close> (what a request and a response carry), the requests that
  \<open>generatePing\<close>, \<open>createFindNodesRequest\<close> and \<open>makeEnrRequest\<close> build with their verifiers, and the responses handed to
  \<open>Match\<close>. The awaiter is that of \<open>Awaiter\<close>, with the verifiers as its checkers.
\<close>

section \<open>Packets and requests\<close>

text \<open>The kinds of \<open>v4wire\<close>.\<close>

fun packet_kind :: "v4packet \<Rightarrow> u8" where
  "packet_kind (Ping _ _ _ _) = 1"
| "packet_kind (Pong _ _ _) = 2"
| "packet_kind (Findnode _ _) = 3"
| "packet_kind (Neighbors _ _) = 4"
| "packet_kind (ENRRequest _) = 5"
| "packet_kind (ENRResponse _ _) = 6"
| "packet_kind OtherPacket = 0"

record targetablePacket =
  tp_packet :: v4packet
  tp_exp :: int
  tp_id :: node_id
  tp_ip :: ip

definition GetExpiration :: "targetablePacket \<Rightarrow> int" where "GetExpiration r = unix (tp_exp r)"

text \<open>The private state of a verifier: the hash of a ping and the sequence number its pong brought, the nodes received for a findnode request
  and their number, the hash of a record request and the record received.\<close>

datatype v4_verifier = PingVerifier "u8 list" "u64 option" | FindVerifier ip "enode list" int | EnrVerifier "u8 list" "u8 list option"

text \<open>\<open>Verify\<close>: whether the response is accepted, whether the request is done, and the new state. \<open>None\<close> is a failed type
  assertion.\<close>

fun v4_Verify :: "'s table_ext \<Rightarrow> 'db v4_ext \<Rightarrow> v4_verifier \<Rightarrow> v4packet \<Rightarrow> (bool \<times> bool \<times> v4_verifier) option" where
  "v4_Verify X V (PingVerifier hash got) p =
     (case p of Pong tok ex sq \<Rightarrow> Some (if tok = hash then (True, True, PingVerifier hash (Some sq)) else (False, False, PingVerifier hash got)) | _ \<Rightarrow> None)"
| "v4_Verify X V (FindVerifier sender nodes k) p =
     (case p of
        Neighbors ns ex \<Rightarrow> (case findnode_verify X V sender (nodes, k) ns of (ok, dn, nodes', k') \<Rightarrow> Some (ok, dn, FindVerifier sender nodes' k'))
      | _ \<Rightarrow> None)"
| "v4_Verify X V (EnrVerifier hash got) p =
     (case p of
        ENRResponse tok rec \<Rightarrow> Some (if tok = hash then (True, True, EnrVerifier hash (Some rec)) else (False, False, EnrVerifier hash got))
      | _ \<Rightarrow> None)"

record v4_request =
  vr_target :: targetablePacket
  vr_marshalled :: "u8 list"
  vr_verify :: v4_verifier
  vr_expectedType :: u8

definition ping_request :: "'db v4_ext \<Rightarrow> v4_env \<Rightarrow> node_id \<Rightarrow> ip \<Rightarrow> ('s, 'db) v4_handler \<Rightarrow> string + v4_request" where
  "ping_request V E toid toip s =
     (let req = generatePing E s in
      case vx_Encode V req of
        Inl e \<Rightarrow> Inl e
      | Inr (data, hash) \<Rightarrow>
          Inr \<lparr>vr_target = \<lparr>tp_packet = req, tp_exp = sint (word_of_int (toUnix (ev_now E + expiration)) :: u64), tp_id = toid, tp_ip = toip\<rparr>,
               vr_marshalled = data, vr_verify = PingVerifier hash None, vr_expectedType = 2\<rparr>)"

text \<open>The request of \<open>createFindNodesRequest\<close> with the verifier that \<open>makeFindNodeRequest\<close> installs.\<close>

definition find_request :: "'db v4_ext \<Rightarrow> v4_env \<Rightarrow> node_id \<Rightarrow> ip \<Rightarrow> pubkey \<Rightarrow> string + v4_request" where
  "find_request V E toid toip key =
     (let ex = word_of_int (toUnix (ev_now E + expiration)); req = Findnode key ex in
      case vx_Encode V req of
        Inl e \<Rightarrow> Inl e
      | Inr (data, hash) \<Rightarrow>
          Inr \<lparr>vr_target = \<lparr>tp_packet = req, tp_exp = sint ex, tp_id = toid, tp_ip = toip\<rparr>,
               vr_marshalled = data, vr_verify = FindVerifier toip [] 0, vr_expectedType = 4\<rparr>)"

definition enr_request :: "'db v4_ext \<Rightarrow> v4_env \<Rightarrow> node_id \<Rightarrow> ip \<Rightarrow> string + v4_request" where
  "enr_request V E toid toip =
     (let ex = word_of_int (toUnix (ev_now E + expiration)); req = ENRRequest ex in
      case vx_Encode V req of
        Inl e \<Rightarrow> Inl e
      | Inr (data, hash) \<Rightarrow>
          Inr \<lparr>vr_target = \<lparr>tp_packet = req, tp_exp = sint ex, tp_id = toid, tp_ip = toip\<rparr>,
               vr_marshalled = data, vr_verify = EnrVerifier hash None, vr_expectedType = 6\<rparr>)"

text \<open>A request in the queue of the awaiter, and a packet as a response.\<close>

definition pending :: "nat \<Rightarrow> v4_request \<Rightarrow> v4_verifier awaitableRequest" where
  "pending ref r = \<lparr>rq_ref = ref, rq_Id = tp_id (vr_target r), rq_Ip = tp_ip (vr_target r), rq_ExpectedKind = vr_expectedType r,
     rq_Expiration = GetExpiration (vr_target r), rq_checker = vr_verify r\<rparr>"

definition as_response :: "targetablePacket \<Rightarrow> v4packet response" where
  "as_response p = \<lparr>rs_Id = tp_id p, rs_Ip = tp_ip p, rs_Kind = packet_kind (tp_packet p), rs_payload = tp_packet p\<rparr>"

fun response_of :: "v4_action \<Rightarrow> v4packet response option" where
  "response_of (Match i a p ex) = Some (as_response \<lparr>tp_packet = p, tp_exp = ex, tp_id = i, tp_ip = a\<rparr>)"
| "response_of (Sent i p aw) = None"

text \<open>The checker the awaiter runs; a response of another kind never reaches it.\<close>

definition v4_chk :: "'s table_ext \<Rightarrow> 'db v4_ext \<Rightarrow> v4_verifier \<Rightarrow> v4packet response \<Rightarrow> bool \<times> bool \<times> v4_verifier" where
  "v4_chk X V c r = (case v4_Verify X V c (rs_payload r) of None \<Rightarrow> (False, False, c) | Some x \<Rightarrow> x)"

section \<open>Lemmas\<close>

text \<open>The kind a request expects is that of the packets its verifier takes, so the type assertions in the verifiers hold.\<close>

definition request_ok :: "v4_verifier awaitableRequest \<Rightarrow> bool" where
  "request_ok a \<longleftrightarrow> rq_ExpectedKind a = (case rq_checker a of PingVerifier _ _ \<Rightarrow> 2 | FindVerifier _ _ _ \<Rightarrow> 4 | EnrVerifier _ _ \<Rightarrow> 6)"

lemma made_request_ok:
  "ping_request V E i a s = Inr r \<Longrightarrow> request_ok (pending ref r)"
  "find_request V E i a key = Inr r \<Longrightarrow> request_ok (pending ref r)"
  "enr_request V E i a = Inr r \<Longrightarrow> request_ok (pending ref r)"
  by (auto simp: ping_request_def find_request_def enr_request_def request_ok_def pending_def Let_def split: sum.splits)

lemma packet_kind_iff:
  "packet_kind p = 2 \<longleftrightarrow> (\<exists>t ex sq. p = Pong t ex sq)" "packet_kind p = 4 \<longleftrightarrow> (\<exists>ns ex. p = Neighbors ns ex)"
  "packet_kind p = 6 \<longleftrightarrow> (\<exists>t rec. p = ENRResponse t rec)"
  by (cases p; simp)+

lemma Verify_typed:
  assumes "request_ok a" "matches a (as_response p)"
  shows "v4_Verify X V (rq_checker a) (tp_packet p) \<noteq> None"
proof -
  have "packet_kind (tp_packet p) = rq_ExpectedKind a" using assms(2) by (simp add: matches_def as_response_def)
  then show ?thesis using assms(1)
    by (cases "rq_checker a") (auto simp: request_ok_def packet_kind_iff split: prod.splits)
qed

text \<open>A verifier keeps what it is for, whatever it has received.\<close>

lemma Verify_kind: "v4_Verify X V c p = Some (ok, dn, c') \<Longrightarrow> request_ok (a\<lparr>rq_checker := c'\<rparr>) = request_ok (a\<lparr>rq_checker := c\<rparr>)"
  by (cases c) (auto simp: request_ok_def split: v4packet.splits if_splits prod.splits)

lemma on_reply_request_ok:
  assumes "\<forall>a \<in> set q. request_ok a" "on_reply (v4_chk X V) now r q = (q', m)"
  shows "\<forall>a \<in> set q'. request_ok a"
  using assms
proof (induction q arbitrary: q' m)
  case (Cons a q)
  have "request_ok (a\<lparr>rq_checker := c\<rparr>)" if "v4_chk X V (rq_checker a) r = (ok, dn, c)" for ok dn c
  proof (cases "v4_Verify X V (rq_checker a) (rs_payload r)")
    case None
    with that Cons.prems(1) show ?thesis by (auto simp: v4_chk_def)
  next
    case (Some x)
    with that have "v4_Verify X V (rq_checker a) (rs_payload r) = Some (ok, dn, c)" by (simp add: v4_chk_def)
    from Verify_kind[OF this, of a] Cons.prems(1) show ?thesis by simp
  qed
  with Cons show ?case by (auto split: if_splits prod.splits)
qed simp

lemma chk_ping: "v4_chk X V (PingVerifier hash got) (as_response \<lparr>tp_packet = Pong tok ex sq, tp_exp = x, tp_id = i, tp_ip = a\<rparr>)
  = (if tok = hash then (True, True, PingVerifier hash (Some sq)) else (False, False, PingVerifier hash got))"
  by (simp add: v4_chk_def as_response_def)

text \<open>The first pending request that a pong matches is settled by it, one way or the other.\<close>

lemma pong_settles:
  assumes "\<not> aw_done s" "aw_queue s = xs @ a # ys" "\<forall>b \<in> set xs. \<not> matches b r" "matches a r" "now \<le> rq_Expiration a"
    "rq_checker a = PingVerifier hash got" "r = as_response \<lparr>tp_packet = Pong tok ex sq, tp_exp = x, tp_id = i, tp_ip = p\<rparr>"
  shows "aw_step (v4_chk X V) (Reply now r) s = s\<lparr>aw_queue := xs @ ys,
    aw_marks := aw_marks s @ [(rq_ref a, if tok = hash then None else Some errInvalidResponse)]\<rparr>"
  using reply_first_match[OF assms(3,4), of "v4_chk X V" now ys] assms by (simp add: chk_ping)

lemma ping_request_fields:
  assumes "ping_request V E i a s = Inr r"
  shows "rq_Id (pending ref r) = i" "rq_Ip (pending ref r) = a" "rq_ExpectedKind (pending ref r) = 2" "rq_ref (pending ref r) = ref"
    "rq_checker (pending ref r) = vr_verify r" "rq_Expiration (pending ref r) = unix (sint (word_of_int (toUnix (ev_now E + expiration)) :: u64))"
    "\<exists>hash. vr_verify r = PingVerifier hash None"
  using assms by (auto simp: ping_request_def pending_def GetExpiration_def Let_def split: sum.splits)

definition pong_from :: "node_id \<Rightarrow> ip \<Rightarrow> u8 list \<Rightarrow> u64 \<Rightarrow> u64 \<Rightarrow> v4packet response" where
  "pong_from i a tok ex sq = as_response \<lparr>tp_packet = Pong tok ex sq, tp_exp = sint ex, tp_id = i, tp_ip = a\<rparr>"

lemma pong_matches: "ping_request V E i a s = Inr r \<Longrightarrow> matches (pending ref r) (pong_from i a tok ex sq)"
  by (simp add: matches_def ping_request_fields pong_from_def as_response_def)

lemma matches_pong_any: "matches b (pong_from i a tok ex sq) = matches b (pong_from i a tok' ex' sq')"
  by (simp add: matches_def pong_from_def as_response_def)

lemma ping_settles:
  assumes "ping_request V E i a s = Inr r" "vr_verify r = PingVerifier hash None" "\<not> aw_done w" "aw_queue w = xs @ pending ref r # ys"
    "\<forall>b \<in> set xs. \<not> matches b (pong_from i a [] 0 0)" "now \<le> rq_Expiration (pending ref r)"
  shows "aw_step (v4_chk X V') (Reply now (pong_from i a tok ex sq)) w = w\<lparr>aw_queue := xs @ ys,
    aw_marks := aw_marks w @ [(ref, if tok = hash then None else Some errInvalidResponse)]\<rparr>"
proof -
  have "\<forall>b \<in> set xs. \<not> matches b (pong_from i a tok ex sq)" using assms(5) matches_pong_any by blast
  moreover have "rq_checker (pending ref r) = PingVerifier hash None" using ping_request_fields(5)[OF assms(1)] assms(2) by simp
  ultimately have "aw_step (v4_chk X V') (Reply now (pong_from i a tok ex sq)) w = w\<lparr>aw_queue := xs @ ys,
    aw_marks := aw_marks w @ [(rq_ref (pending ref r), if tok = hash then None else Some errInvalidResponse)]\<rparr>"
    using assms(3,4,6) pong_matches[OF assms(1)] pong_from_def by (intro pong_settles)
  then show ?thesis unfolding ping_request_fields(4)[OF assms(1)] .
qed

text \<open>\<open>execute\<close> leaves a request pending when it could not be written: the answer to a second ping is held against the first one, which was
  never sent, and the second goes on waiting for a pong that has already come.\<close>

lemma unsent_ping_takes_pong:
  assumes "ping_request V E i a s = Inr r1" "vr_verify r1 = PingVerifier h1 None" "h1 \<noteq> h2" "\<not> aw_done w"
    "\<forall>b \<in> set (aw_queue w). \<not> matches b (pong_from i a [] 0 0)" "now \<le> rq_Expiration (pending m r1)"
    and unsent: "execute (pending m r1) True k1 d1 a (Some e) (w, u) = (res1, (w1, u1), acts1)"
    and sent: "execute (pending n r2) True k2 d2 a None (w1, u1) = (res2, (w2, u2), acts2)"
  shows "res1 = Finished (Some e) \<and> res2 = Awaits n \<and> aw_step (v4_chk X V') (Reply now (pong_from i a h2 ex sq)) w2
    = w\<lparr>aw_queue := aw_queue w @ [pending n r2], aw_marks := aw_marks w @ [(m, Some errInvalidResponse)]\<rparr>"
proof -
  have q: "res1 = Finished (Some e)" "res2 = Awaits n" "w2 = w\<lparr>aw_queue := aw_queue w @ pending m r1 # [pending n r2]\<rparr>"
    using unsent sent assms(4) by (auto simp: execute_def pending_def split: prod.splits)
  have "\<not> aw_done w2" "aw_queue w2 = aw_queue w @ pending m r1 # [pending n r2]" using q(3) assms(4) by simp_all
  from ping_settles[OF assms(1,2) this assms(5,6), of X V' h2 ex sq] assms(3) show ?thesis unfolding q
    by (simp add: eq_commute[of h2] del: aw_step.simps)
qed

section \<open>Properties\<close>

text \<open>C14: Two pings to the same node that are pending together get their answers only in the order they were sent: then both succeed. When the
  two pongs arrive the other way round, each is held against the wrong request and both pings fail as invalid, although the
  node has answered both correctly and in time.\<close>

theorem pongs_keep_order:
  assumes "ping_request V E i a s = Inr r1" and "ping_request V' E' i a s' = Inr r2"
    and "vr_verify r1 = PingVerifier h1 None" and "vr_verify r2 = PingVerifier h2 None" and "h1 \<noteq> h2"
    and "\<not> aw_done w" and "aw_queue w = xs @ pending m r1 # ys @ pending n r2 # zs"
    and "\<forall>b \<in> set (xs @ ys). \<not> matches b (pong_from i a [] 0 0)"
    and "now1 \<le> now2" and "now2 \<le> rq_Expiration (pending m r1)" and "now2 \<le> rq_Expiration (pending n r2)"
  shows "aw_step (v4_chk X W) (Reply now2 (pong_from i a h2 ex2 q2)) (aw_step (v4_chk X W) (Reply now1 (pong_from i a h1 ex1 q1)) w)
      = w\<lparr>aw_queue := xs @ ys @ zs, aw_marks := aw_marks w @ [(m, None), (n, None)]\<rparr>
    \<and> aw_step (v4_chk X W) (Reply now2 (pong_from i a h1 ex1 q1)) (aw_step (v4_chk X W) (Reply now1 (pong_from i a h2 ex2 q2)) w)
      = w\<lparr>aw_queue := xs @ ys @ zs, aw_marks := aw_marks w @ [(m, Some errInvalidResponse), (n, Some errInvalidResponse)]\<rparr>"
proof -
  have x: "\<forall>b \<in> set xs. \<not> matches b (pong_from i a [] 0 0)" using assms(8) by simp
  have n1: "now1 \<le> rq_Expiration (pending m r1)" using assms(9,10) by linarith
  have first: "aw_step (v4_chk X W) (Reply now1 (pong_from i a tok ex q)) w = w\<lparr>aw_queue := xs @ ys @ pending n r2 # zs,
    aw_marks := aw_marks w @ [(m, if tok = h1 then None else Some errInvalidResponse)]\<rparr>" for tok ex q
    by (rule ping_settles[OF assms(1,3,6,7) x n1])
  have second: "aw_step (v4_chk X W) (Reply now2 (pong_from i a tok ex q)) u
      = u\<lparr>aw_queue := (xs @ ys) @ zs, aw_marks := aw_marks u @ [(n, if tok = h2 then None else Some errInvalidResponse)]\<rparr>"
    if "\<not> aw_done u" "aw_queue u = (xs @ ys) @ pending n r2 # zs" for tok ex q u
    by (rule ping_settles[OF assms(2,4) that assms(8,11)])
  have open_w: "\<not> aw_done (w\<lparr>aw_queue := q, aw_marks := k\<rparr>)" for q k using assms(6) by simp
  have hs: "(h1 = h2) = False" "(h2 = h1) = False" using assms(5) by auto
  show ?thesis unfolding first
    by (subst (1 2) second) (simp_all add: hs open_w del: aw_step.simps)
qed

text \<open>Two pings sent within a second of each other.\<close>

definition ex_ping :: "u8 list \<Rightarrow> v4_request" where
  "ex_ping hash = projr (ping_request (ex_ext\<lparr>vx_Encode := (\<lambda>p. Inr ([], hash))\<rparr>) (ex_ev (Inl [])) 77 [9,9,9,9] (ex_v4 0))"

definition ex_waiting :: "v4_verifier awaiter" where
  "ex_waiting = NewAwaiter\<lparr>aw_queue := [pending 1 (ex_ping [1]), pending 2 (ex_ping [2])]\<rparr>"

theorem pongs_keep_order_witness:
  "aw_marks (aw_step (v4_chk (ex_env 0) ex_ext) (Reply 1 (pong_from 77 [9,9,9,9] [1] 0 0))
     (aw_step (v4_chk (ex_env 0) ex_ext) (Reply 0 (pong_from 77 [9,9,9,9] [2] 0 0)) ex_waiting))
   = [(1, Some errInvalidResponse), (2, Some errInvalidResponse)]"
proof -
  let ?V = "\<lambda>h. ex_ext\<lparr>vx_Encode := (\<lambda>p. Inr ([], h))\<rparr>"
  have r: "ping_request (?V h) (ex_ev (Inl [])) 77 [9,9,9,9] (ex_v4 0) = Inr (ex_ping h)" and v: "vr_verify (ex_ping h) = PingVerifier h None" for h
    by (simp_all add: ex_ping_def ping_request_def Let_def)
  have e: "1 \<le> rq_Expiration (pending m (ex_ping h))" for m h
    by (simp add: ping_request_fields(6)[OF r] ex_ev_def expiration_def time_defs)
  have q: "aw_queue ex_waiting = [] @ pending 1 (ex_ping [1]) # [] @ pending 2 (ex_ping [2]) # []" "\<not> aw_done ex_waiting" "aw_marks ex_waiting = []"
    by (simp_all add: ex_waiting_def NewAwaiter_def)
  from pongs_keep_order[OF r r v v _ q(2,1), where X = "ex_env 0" and W = ex_ext and ?now1.0 = 0 and ?now2.0 = 1 and ?ex1.0 = 0 and ?ex2.0 = 0 and ?q1.0 = 0 and ?q2.0 = 0] e q(3)
  show ?thesis by (simp del: aw_step.simps)
qed

end
