(* ===== verification/Logging.thy ===== *)
theory Logging
  imports Prelude
begin

text \<open>
  The loggers of the two programs; \<open>crawler/log/logger.go\<close> and \<open>scanner/log/logger.go\<close> are the same file. Package \<open>zap\<close>
  by what it documents: a logger writes an entry whose level is at least the level the logger was made with, and logging
  at the fatal level ends the process. Levels are \<open>int8\<close>; the state is the package's current level and its root logger.
\<close>

section \<open>Fields and levels\<close>

record LogField =
  lf_key :: string
  lf_value :: string

text \<open>\<open>fmt.Sprintf\<close> of a value is the parameter \<open>show\<close>.\<close>

definition NewTField :: "('t \<Rightarrow> string) \<Rightarrow> string \<Rightarrow> 't \<Rightarrow> LogField" where
  "NewTField show key val = \<lparr>lf_key = key, lf_value = show val\<rparr>"

definition NewStringField :: "string \<Rightarrow> string \<Rightarrow> LogField" where
  "NewStringField key val = \<lparr>lf_key = key, lf_value = val\<rparr>"

definition NewByteField :: "(u8 \<Rightarrow> string) \<Rightarrow> string \<Rightarrow> u8 \<Rightarrow> LogField" where
  "NewByteField show key val = \<lparr>lf_key = key, lf_value = show val\<rparr>"

definition NewErrorField :: "err \<Rightarrow> LogField" where
  "NewErrorField e = \<lparr>lf_key = ''error'', lf_value = (case e of None \<Rightarrow> ''nil'' | Some msg \<Rightarrow> msg)\<rparr>"

definition DebugLevel :: int where "DebugLevel = -1"
definition InfoLevel :: int where "InfoLevel = 0"
definition WarnLevel :: int where "WarnLevel = 1"
definition ErrorLevel :: int where "ErrorLevel = 2"
definition FatalLevel :: int where "FatalLevel = 5"

definition TRACE :: int where "TRACE = DebugLevel - 1"
definition DEBUG :: int where "DEBUG = TRACE + 1"
definition INFO :: int where "INFO = DEBUG + 1"
definition WARN :: int where "WARN = INFO + 1"
definition ERROR :: int where "ERROR = WARN + 1"
definition FATAL :: int where "FATAL = FatalLevel"

section \<open>Loggers\<close>

record logger =
  lg_id :: string
  lg_level :: int

record log_state =
  currLvl :: int
  root :: "logger option"

definition log_init :: log_state where
  "log_init = \<lparr>currLvl = InfoLevel, root = None\<rparr>"

definition SetLoggingLvl :: "int \<Rightarrow> log_state \<Rightarrow> log_state" where
  "SetLoggingLvl lvl s = s\<lparr>currLvl := lvl\<rparr>"

definition NewLogger :: "log_state \<Rightarrow> logger" where
  "NewLogger s = \<lparr>lg_id = [], lg_level = currLvl s\<rparr>"

definition NewLoggerWithId :: "string \<Rightarrow> log_state \<Rightarrow> logger" where
  "NewLoggerWithId i s = \<lparr>lg_id = i, lg_level = currLvl s\<rparr>"

text \<open>\<open>Root\<close>: two goroutines may both find no root; the compare-and-swap keeps the first, and each returns what is stored.\<close>

definition Root :: "log_state \<Rightarrow> logger \<times> log_state" where
  "Root s = (case root s of Some l \<Rightarrow> (l, s) | None \<Rightarrow> (NewLogger s, s\<lparr>root := Some (NewLogger s)\<rparr>))"

text \<open>The name of a level: \<open>cyan\<close> colours it, \<open>capital\<close> is \<open>zapcore.CapitalLevelEncoder\<close>.\<close>

definition capitalColorLevelEncoder :: "(string \<Rightarrow> string) \<Rightarrow> (int \<Rightarrow> string) \<Rightarrow> int \<Rightarrow> string" where
  "capitalColorLevelEncoder cyan capital lvl = (if lvl = TRACE then cyan ''TRACE'' else capital lvl)"

text \<open>An entry as it is written, and whether the process ends.\<close>

record entry =
  en_level :: int
  en_msg :: string
  en_fields :: "(string \<times> string) list"

definition logger_log :: "int \<Rightarrow> string \<Rightarrow> LogField list \<Rightarrow> logger \<Rightarrow> entry list \<times> bool" where
  "logger_log lvl msg fs l =
     (let m = (if length (lg_id l) > 0 then ''id:'' @ lg_id l @ ''-msg:'' @ msg else msg)
      in (if lg_level l \<le> lvl then [\<lparr>en_level = lvl, en_msg = m, en_fields = map (\<lambda>f. (lf_key f, lf_value f)) fs\<rparr>] else [],
          lvl = FatalLevel))"

definition Trace :: "string \<Rightarrow> LogField list \<Rightarrow> logger \<Rightarrow> entry list \<times> bool" where "Trace = logger_log TRACE"
definition Debug :: "string \<Rightarrow> LogField list \<Rightarrow> logger \<Rightarrow> entry list \<times> bool" where "Debug = logger_log DebugLevel"
definition Info :: "string \<Rightarrow> LogField list \<Rightarrow> logger \<Rightarrow> entry list \<times> bool" where "Info = logger_log InfoLevel"
definition Warn :: "string \<Rightarrow> LogField list \<Rightarrow> logger \<Rightarrow> entry list \<times> bool" where "Warn = logger_log WarnLevel"
definition Error :: "string \<Rightarrow> LogField list \<Rightarrow> logger \<Rightarrow> entry list \<times> bool" where "Error = logger_log ErrorLevel"
definition Fatal :: "string \<Rightarrow> LogField list \<Rightarrow> logger \<Rightarrow> entry list \<times> bool" where "Fatal = logger_log FatalLevel"

section \<open>What is written\<close>

lemmas level_defs = DebugLevel_def InfoLevel_def WarnLevel_def ErrorLevel_def FatalLevel_def TRACE_def DEBUG_def INFO_def WARN_def ERROR_def FATAL_def

text \<open>The levels fit in \<open>int8\<close> and are those of zap, but for the one below debug.\<close>

lemma levels_int8: "list_all (\<lambda>l. -128 \<le> l \<and> l < 128) [TRACE, DEBUG, INFO, WARN, ERROR, FATAL]"
  "[DEBUG, INFO, WARN, ERROR, FATAL] = [DebugLevel, InfoLevel, WarnLevel, ErrorLevel, FatalLevel]"
  "sorted_wrt (<) [TRACE, DEBUG, INFO, WARN, ERROR, FATAL]"
  by (simp_all add: level_defs)

text \<open>A history of the package: levels set, the root logger fetched, loggers made.\<close>

datatype log_op = OpSet int | OpRoot | OpNew string

fun log_run :: "log_op list \<Rightarrow> log_state \<Rightarrow> logger list \<times> log_state" where
  "log_run [] s = ([], s)"
| "log_run (OpSet l # ops) s = log_run ops (SetLoggingLvl l s)"
| "log_run (OpRoot # ops) s = (case Root s of (l, s') \<Rightarrow> (case log_run ops s' of (ls, t) \<Rightarrow> (l # ls, t)))"
| "log_run (OpNew i # ops) s = (case log_run ops s of (ls, t) \<Rightarrow> (NewLoggerWithId i s # ls, t))"

lemma root_kept: "root s = Some l \<Longrightarrow> root (snd (log_run ops s)) = Some l"
  by (induction ops s rule: log_run.induct) (auto simp: SetLoggingLvl_def Root_def split: prod.splits)

text \<open>The root logger keeps the level of the moment it was first fetched: raising the level afterwards does not reach it.\<close>

lemma Root_twice:
  assumes "log_run ops (snd (Root s)) = (ls, t)"
  shows "Root t = (fst (Root s), t)"
proof -
  have "root (snd (Root s)) = Some (fst (Root s))" by (simp add: Root_def split: option.splits)
  from root_kept[OF this, of ops] assms show ?thesis by (simp add: Root_def[of t])
qed

lemma log_levels:
  "log_run ops s = (ls, t) \<Longrightarrow> root s = None \<or> (\<exists>r. root s = Some r \<and> P (lg_level r)) \<Longrightarrow> P (currLvl s) \<Longrightarrow> (\<And>l. OpSet l \<in> set ops \<Longrightarrow> P l) \<Longrightarrow>
   list_all (\<lambda>l. P (lg_level l)) ls"
proof (induction ops s arbitrary: ls t rule: log_run.induct)
  case (3 ops s)
  obtain l s' where r: "Root s = (l, s')" by (cases "Root s")
  obtain ls' t' where run: "log_run ops s' = (ls', t')" by (cases "log_run ops s'")
  have "P (lg_level l)" "root s' = Some l" "currLvl s' = currLvl s"
    using r 3(3,4) by (auto simp: Root_def NewLogger_def split: option.splits)
  with 3(1)[OF r[symmetric] run] 3(2-5) r run show ?case by auto
next
  case (4 i ops s)
  then show ?case by (auto simp: NewLoggerWithId_def split: prod.splits)
qed (auto simp: SetLoggingLvl_def)

text \<open>As long as no level below debug is set, as in both programs, a trace is never written, whichever logger it is given to, while warnings
  and errors are, unless the level is set above them.\<close>

lemma traces_are_silent:
  assumes "log_run ops log_init = (ls, t)" "\<forall>l. OpSet l \<in> set ops \<longrightarrow> DEBUG \<le> l" "l \<in> set ls"
  shows "fst (Trace msg fs l) = []"
proof -
  have "list_all (\<lambda>l. DEBUG \<le> lg_level l) ls"
    by (rule log_levels[OF assms(1)]) (use assms(2) in \<open>auto simp: log_init_def level_defs\<close>)
  with assms(3) have "DEBUG \<le> lg_level l" by (simp add: list_all_iff)
  then show ?thesis by (simp add: Trace_def logger_log_def level_defs)
qed

lemma warnings_are_written:
  assumes "log_run ops log_init = (ls, t)" "\<forall>l. OpSet l \<in> set ops \<longrightarrow> l \<le> WARN" "l \<in> set ls"
  shows "\<exists>e. fst (Warn msg fs l) = [e] \<and> en_level e = WARN \<and> en_fields e = map (\<lambda>f. (lf_key f, lf_value f)) fs"
proof -
  have "list_all (\<lambda>l. lg_level l \<le> WARN) ls"
    by (rule log_levels[OF assms(1)]) (use assms(2) in \<open>auto simp: log_init_def level_defs\<close>)
  with assms(3) have "lg_level l \<le> WARN" by (simp add: list_all_iff)
  then show ?thesis by (simp add: Warn_def logger_log_def level_defs)
qed

text \<open>A fatal entry ends the process even where it is not written.\<close>

lemma fatal_ends: "snd (Fatal msg fs l)" "lvl \<noteq> FatalLevel \<Longrightarrow> \<not> snd (logger_log lvl msg fs l)"
  by (simp_all add: Fatal_def logger_log_def Let_def)

end
