(* ===== verification/Scanner.thy ===== *)
theory Scanner
  imports Prelude
begin

text \<open>
  The port scanner (\<open>scanner/scanner/scanner.go\<close>, \<open>nodeScanner.go\<close>, \<open>cache.go\<close>): the scan of one
  address, the pool of scanning goroutines of \<open>ScannerController\<close> with its channels, and the loop of
  \<open>nodeScanner.Start\<close>, which takes announced nodes from the broker, suppresses addresses already in the
  redis cache, and stores what a scan found. The rate limiter, \<open>enode.ParseV4\<close>, redis and the outcome of a
  TCP dial are arguments.
\<close>

section \<open>The scan of one address\<close>

definition MaxTcpPort :: nat where "MaxTcpPort = 65535"

record scanItem =
  si_Ip :: ip
  PortStart :: u16
  PortEnd :: u16

record scannedItem =
  Src :: scanItem
  Open :: "u16 list"
  startedAt :: int
  finishedAt :: int

text \<open>
  \<open>IsOpen\<close> dials the address; \<open>dial ip port\<close> is the error of \<open>net.DialTimeout\<close>. The loop of
  \<open>ScanItem\<close> counts in \<open>int\<close>, wide enough for every \<open>uint16\<close>; \<open>lim i\<close> is the error of
  \<open>limiter.Wait\<close> before port \<open>i\<close>. The result is the open ports and, after a limiter error, the port it
  happened at.
\<close>

definition IsOpen :: "(ip \<Rightarrow> nat \<Rightarrow> err) \<Rightarrow> ip \<Rightarrow> nat \<Rightarrow> bool" where
  "IsOpen dial addr port = (case dial addr port of Some _ \<Rightarrow> False | None \<Rightarrow> True)"

function scan_ports :: "(nat \<Rightarrow> err) \<Rightarrow> (nat \<Rightarrow> bool) \<Rightarrow> nat \<Rightarrow> nat \<Rightarrow> u16 list \<Rightarrow> u16 list \<times> nat option" where
  "scan_ports lim is_open i e acc =
     (if i \<le> e then
        (case lim i of
           Some _ \<Rightarrow> (acc, Some i)
         | None \<Rightarrow> scan_ports lim is_open (Suc i) e (if is_open i then acc @ [of_nat i] else acc))
      else (acc, None))"
  by pat_completeness auto
termination
  by (relation "measure (\<lambda>(_, _, i, e, _). Suc e - i)") auto

declare scan_ports.simps [simp del]
declare upt_Suc [simp del]

text \<open>
  \<open>ScanItem\<close>. The clamp of \<open>PortEnd\<close> compares a \<open>uint16\<close> with 65535. The deferred assignment of
  \<open>finishedAt\<close> runs after the (unnamed) result has been copied, so the caller sees the zero value.
\<close>

definition ScanItem ::
  "int \<Rightarrow> (nat \<Rightarrow> err) \<Rightarrow> (ip \<Rightarrow> nat \<Rightarrow> err) \<Rightarrow> scanItem \<Rightarrow> scannedItem \<times> u16" where
  "ScanItem now lim dial item =
     (let src = item;
          item = (if MaxTcpPort < unat (PortEnd item) then item\<lparr>PortEnd := of_nat MaxTcpPort\<rparr> else item);
          (found, stopped) = scan_ports lim (IsOpen dial (si_Ip item)) (unat (PortStart item)) (unat (PortEnd item)) [];
          result = \<lparr>Src = src, Open = found, startedAt = now, finishedAt = 0\<rparr>
      in (case stopped of
            Some i \<Rightarrow> (result, of_nat i)
          | None \<Rightarrow> (result, PortEnd (Src result))))"

text \<open>What \<open>runScanner\<close> does with the result: it is sent to the callback, or the callback is closed and the
  goroutine returns.\<close>

datatype answer = Delivered scannedItem | Cancelled

definition run_item ::
  "int \<Rightarrow> (nat \<Rightarrow> err) \<Rightarrow> (ip \<Rightarrow> nat \<Rightarrow> err) \<Rightarrow> scanItem \<Rightarrow> answer" where
  "run_item now lim dial item =
     (let (result, index) = ScanItem now lim dial item in
      if index \<noteq> PortEnd (Src result) then Cancelled else Delivered result)"

section \<open>The controller\<close>

text \<open>
  \<open>NewScannerController\<close> starts \<open>threads\<close> goroutines on the unbuffered channel \<open>in\<close> and one that waits for
  \<open>sig\<close> and then closes \<open>done\<close>. The channel \<open>done\<close> is never made, so it is the nil channel: receiving from it
  blocks for ever and closing it panics. The fields \<open>c_taken\<close> and \<open>c_answers\<close> record the items accepted and
  answered.
\<close>

record controller =
  c_threads :: nat
  c_idle :: nat
  c_busy :: "scanItem list"
  c_done :: channel
  c_watch :: bool
  c_panic :: bool
  c_taken :: "scanItem list"
  c_answers :: "(scanItem \<times> answer) list"

definition NewScannerController :: "nat \<Rightarrow> controller" where
  "NewScannerController threads =
     \<lparr>c_threads = threads, c_idle = threads, c_busy = [], c_done = Nil_chan, c_watch = True, c_panic = False,
      c_taken = [], c_answers = []\<rparr>"

text \<open>The goroutine that \<open>Stop\<close> wakes: \<open>close(controller.done)\<close>.\<close>

definition close_done :: "controller \<Rightarrow> controller" where
  "close_done c =
     (case go_close (c_done c) of
        Some ch \<Rightarrow> c\<lparr>c_watch := False, c_done := ch\<rparr>
      | None \<Rightarrow> c\<lparr>c_watch := False, c_panic := True\<rparr>)"

inductive ctl_step :: "(ip \<Rightarrow> nat \<Rightarrow> err) \<Rightarrow> controller \<Rightarrow> controller \<Rightarrow> bool" for dial where
  take_item: "\<not> c_panic c \<Longrightarrow> 0 < c_idle c \<Longrightarrow>
    ctl_step dial c (c\<lparr>c_idle := c_idle c - 1, c_busy := c_busy c @ [item], c_taken := c_taken c @ [item]\<rparr>)"
| deliver: "\<not> c_panic c \<Longrightarrow> item \<in> set (c_busy c) \<Longrightarrow> run_item now lim dial item = Delivered r \<Longrightarrow>
    ctl_step dial c (c\<lparr>c_idle := Suc (c_idle c), c_busy := remove1 item (c_busy c), c_answers := c_answers c @ [(item, Delivered r)]\<rparr>)"
| cancel: "\<not> c_panic c \<Longrightarrow> item \<in> set (c_busy c) \<Longrightarrow> run_item now lim dial item = Cancelled \<Longrightarrow>
    ctl_step dial c (c\<lparr>c_busy := remove1 item (c_busy c), c_answers := c_answers c @ [(item, Cancelled)]\<rparr>)"
| quit: "\<not> c_panic c \<Longrightarrow> c_done c = Closed_chan \<Longrightarrow> 0 < c_idle c \<Longrightarrow> ctl_step dial c (c\<lparr>c_idle := c_idle c - 1\<rparr>)"
| stop_sig: "\<not> c_panic c \<Longrightarrow> c_watch c \<Longrightarrow> ctl_step dial c (close_done c)"

inductive_cases ctl_stepE: "ctl_step dial c d"

text \<open>The two selects of \<open>Scan\<close> and the one of \<open>ScanNoWait\<close>, by the case that fires.\<close>

definition ErrScannerStopped :: string where "ErrScannerStopped = ''scanner stopped''"

datatype sent = Sent | SendCtxDone string | SendStopped

datatype got = Got answer | GotCtxDone string | GotStopped

definition Scan :: "sent \<Rightarrow> got \<Rightarrow> string + u16 list" where
  "Scan snt rcv =
     (case snt of
        SendCtxDone e \<Rightarrow> Inl e
      | SendStopped \<Rightarrow> Inl ErrScannerStopped
      | Sent \<Rightarrow>
          (case rcv of
             Got (Delivered r) \<Rightarrow> Inr (Open r)
           | Got Cancelled \<Rightarrow> Inl ''scan failure''
           | GotCtxDone e \<Rightarrow> Inl e
           | GotStopped \<Rightarrow> Inl ErrScannerStopped))"

definition ScanNoWait :: "sent \<Rightarrow> err" where
  "ScanNoWait snt =
     (case snt of Sent \<Rightarrow> None | SendCtxDone e \<Rightarrow> Some e | SendStopped \<Rightarrow> Some ErrScannerStopped)"

section \<open>The scan loop in closed form\<close>

lemma find_upt_None: "find P [i..<j] = None \<longleftrightarrow> (\<forall>k. i \<le> k \<and> k < j \<longrightarrow> \<not> P k)"
  by (auto simp: find_None_iff)

lemma find_upt_Some: "find P [i..<j] = Some k \<longleftrightarrow> i \<le> k \<and> k < j \<and> P k \<and> (\<forall>l. i \<le> l \<and> l < k \<longrightarrow> \<not> P l)"
proof -
  have "(\<exists>n<length [i..<j]. P ([i..<j] ! n) \<and> k = [i..<j] ! n \<and> (\<forall>m<n. \<not> P ([i..<j] ! m)))
      \<longleftrightarrow> i \<le> k \<and> k < j \<and> P k \<and> (\<forall>l. i \<le> l \<and> l < k \<longrightarrow> \<not> P l)" (is "?L \<longleftrightarrow> ?R")
  proof
    assume ?L
    then obtain n where n: "n < j - i" "P (i + n)" "k = i + n" "\<forall>m<n. \<not> P ([i..<j] ! m)" by auto
    have "\<not> P l" if "i \<le> l" "l < k" for l
      using n that(1,2) spec[OF n(4), of "l - i"] by auto
    then show ?R using n by auto
  next
    assume r: ?R
    then show ?L by - (rule exI[of _ "k - i"], auto)
  qed
  then show ?thesis unfolding find_Some_iff .
qed

lemma scan_ports_closed:
  "scan_ports lim is_open i e acc =
     (case find (\<lambda>k. lim k \<noteq> None) [i..<Suc e] of
        None \<Rightarrow> (acc @ map of_nat (filter is_open [i..<Suc e]), None)
      | Some k \<Rightarrow> (acc @ map of_nat (filter is_open [i..<k]), Some k))"
proof (induction lim is_open i e acc rule: scan_ports.induct)
  case (1 lim is_open i e acc)
  show ?case
  proof (cases "i \<le> e")
    case True
    have up: "[i..<Suc e] = i # [Suc i..<Suc e]" using True by (simp add: upt_conv_Cons)
    have mid: "[i..<k] = i # [Suc i..<k]" if "find (\<lambda>k. lim k \<noteq> None) [Suc i..<Suc e] = Some k" for k
      using that by (simp add: find_upt_Some upt_conv_Cons)
    show ?thesis
    proof (cases "lim i")
      case None
      have "scan_ports lim is_open i e acc = scan_ports lim is_open (Suc i) e (if is_open i then acc @ [of_nat i] else acc)"
        using True None by (subst scan_ports.simps) simp
      moreover have "find (\<lambda>k. lim k \<noteq> None) [i..<Suc e] = find (\<lambda>k. lim k \<noteq> None) [Suc i..<Suc e]"
        unfolding up using None by simp
      ultimately show ?thesis
        unfolding "1.IH"[OF True None] by (cases "find (\<lambda>k. lim k \<noteq> None) [Suc i..<Suc e]") (simp_all add: up mid)
    next
      case (Some a)
      then show ?thesis using True by (subst scan_ports.simps) (simp add: up)
    qed
  qed (simp add: scan_ports.simps)
qed

text \<open>The ports the scan of \<open>item\<close> reaches before the limiter fails at \<open>last\<close>.\<close>

definition open_between :: "(ip \<Rightarrow> nat \<Rightarrow> err) \<Rightarrow> ip \<Rightarrow> nat \<Rightarrow> nat \<Rightarrow> u16 list" where
  "open_between dial addr i j = map of_nat (filter (\<lambda>p. dial addr p = None) [i..<j])"

lemma IsOpen_fun [simp]: "IsOpen dial addr = (\<lambda>p. dial addr p = None)"
  by (rule ext) (simp add: IsOpen_def split: option.splits)

lemma no_clamp: "\<not> MaxTcpPort < unat (p :: u16)"
proof -
  have "unat p < 2 ^ LENGTH(16)" by (rule unsigned_less)
  then show ?thesis by (simp add: MaxTcpPort_def)
qed

lemma ScanItem_closed:
  "ScanItem now lim dial item =
     (case find (\<lambda>k. lim k \<noteq> None) [unat (PortStart item)..<Suc (unat (PortEnd item))] of
        None \<Rightarrow> (\<lparr>Src = item, Open = open_between dial (si_Ip item) (unat (PortStart item)) (Suc (unat (PortEnd item))),
                  startedAt = now, finishedAt = 0\<rparr>, PortEnd item)
      | Some k \<Rightarrow> (\<lparr>Src = item, Open = open_between dial (si_Ip item) (unat (PortStart item)) k,
                  startedAt = now, finishedAt = 0\<rparr>, of_nat k))"
  by (simp add: ScanItem_def no_clamp scan_ports_closed open_between_def Let_def split: option.splits)

lemma of_nat_port: "k \<le> unat (e :: u16) \<Longrightarrow> of_nat k = e \<longleftrightarrow> k = unat e"
  using le_unat_uoi[of k e] by auto

lemma run_item_cases:
  "run_item now lim dial item =
     (case find (\<lambda>k. lim k \<noteq> None) [unat (PortStart item)..<Suc (unat (PortEnd item))] of
        None \<Rightarrow> Delivered (fst (ScanItem now lim dial item))
      | Some k \<Rightarrow> if k = unat (PortEnd item) then Delivered (fst (ScanItem now lim dial item)) else Cancelled)"
proof (cases "find (\<lambda>k. lim k \<noteq> None) [unat (PortStart item)..<Suc (unat (PortEnd item))]")
  case (Some k)
  then have "k \<le> unat (PortEnd item)" by (simp add: find_upt_Some)
  with Some show ?thesis by (simp add: run_item_def ScanItem_closed of_nat_port)
qed (simp add: run_item_def ScanItem_closed)

lemma set_open_between:
  "j \<le> Suc (unat (e :: u16)) \<Longrightarrow> p \<in> set (open_between dial addr i j) \<longleftrightarrow> i \<le> unat p \<and> unat p < j \<and> dial addr (unat p) = None"
proof -
  assume j: "j \<le> Suc (unat e)"
  have u: "unat (of_nat k :: u16) = k" if "k < j" for k
    using that j le_unat_uoi[of k e] by simp
  have "p \<in> set (open_between dial addr i j) \<longleftrightarrow> (\<exists>k. i \<le> k \<and> k < j \<and> dial addr k = None \<and> p = of_nat k)"
    by (auto simp: open_between_def)
  also have "\<dots> \<longleftrightarrow> i \<le> unat p \<and> unat p < j \<and> dial addr (unat p) = None" using u by (metis of_nat_unat_id)
  finally show ?thesis .
qed

lemma sorted_open_between: "j \<le> Suc (unat (e :: u16)) \<Longrightarrow> sorted_wrt (<) (map unat (open_between dial addr i j))"
proof -
  assume j: "j \<le> Suc (unat e)"
  have "map unat (open_between dial addr i j) = filter (\<lambda>p. dial addr p = None) [i..<j]"
    unfolding open_between_def map_map
    by (rule map_idI) (use j le_unat_uoi[where z = e] in auto)
  then show ?thesis by (simp add: sorted_wrt_filter)
qed

section \<open>What a scan reports\<close>

text \<open>The last port is scanned unless the limiter fails there.\<close>

definition scanned_to :: "(nat \<Rightarrow> err) \<Rightarrow> scanItem \<Rightarrow> nat" where
  "scanned_to lim item = (if lim (unat (PortEnd item)) = None then Suc (unat (PortEnd item)) else unat (PortEnd item))"

lemma run_item_Delivered:
  "run_item now lim dial item = Delivered r \<longleftrightarrow>
     (\<forall>k. unat (PortStart item) \<le> k \<and> k < unat (PortEnd item) \<longrightarrow> lim k = None)
     \<and> r = \<lparr>Src = item, Open = open_between dial (si_Ip item) (unat (PortStart item)) (scanned_to lim item),
           startedAt = now, finishedAt = 0\<rparr>"
  (is "_ \<longleftrightarrow> ?quiet \<and> _")
proof (cases "find (\<lambda>k. lim k \<noteq> None) [unat (PortStart item)..<Suc (unat (PortEnd item))]")
  case None
  then have q: "?quiet" and e: "unat (PortStart item) \<le> unat (PortEnd item) \<Longrightarrow> lim (unat (PortEnd item)) = None"
    by (auto simp: find_upt_None)
  have "open_between dial a (unat (PortStart item)) (Suc (unat (PortEnd item)))
      = open_between dial a (unat (PortStart item)) (scanned_to lim item)" for a
    using e by (cases "unat (PortStart item) \<le> unat (PortEnd item)") (auto simp: scanned_to_def open_between_def)
  then show ?thesis using None q by (auto simp: run_item_cases ScanItem_closed)
next
  case (Some k)
  then have k: "unat (PortStart item) \<le> k" "k \<le> unat (PortEnd item)" "lim k \<noteq> None"
      "\<And>l. unat (PortStart item) \<le> l \<Longrightarrow> l < k \<Longrightarrow> lim l = None" by (auto simp: find_upt_Some)
  show ?thesis
  proof (cases "k = unat (PortEnd item)")
    case True
    have "?quiet" using k(4) True by blast
    then show ?thesis using Some True k(3) by (auto simp: run_item_cases ScanItem_closed scanned_to_def)
  next
    case False
    then have "\<not> ?quiet" using k by force
    then show ?thesis using Some False by (simp add: run_item_cases)
  qed
qed

lemma scanned_to_le: "scanned_to lim item \<le> Suc (unat (PortEnd item))"
  by (simp add: scanned_to_def)

lemma Delivered_open:
  assumes "run_item now lim dial item = Delivered r"
  shows "Src r = item"
    and "p \<in> set (Open r) \<longleftrightarrow> unat (PortStart item) \<le> unat p \<and> unat p < scanned_to lim item \<and> dial (si_Ip item) (unat p) = None"
    and "sorted_wrt (<) (map unat (Open r))"
proof -
  from assms have r: "r = \<lparr>Src = item, Open = open_between dial (si_Ip item) (unat (PortStart item)) (scanned_to lim item),
           startedAt = now, finishedAt = 0\<rparr>" by (simp add: run_item_Delivered)
  show "Src r = item" by (simp add: r)
  show "p \<in> set (Open r) \<longleftrightarrow> unat (PortStart item) \<le> unat p \<and> unat p < scanned_to lim item \<and> dial (si_Ip item) (unat p) = None"
    by (simp add: r set_open_between[OF scanned_to_le])
  show "sorted_wrt (<) (map unat (Open r))" by (simp add: r sorted_open_between[OF scanned_to_le])
qed

section \<open>The controller's invariant\<close>

definition answer_ok :: "(ip \<Rightarrow> nat \<Rightarrow> err) \<Rightarrow> scanItem \<times> answer \<Rightarrow> bool" where
  "answer_ok dial a =
     (case snd a of
        Cancelled \<Rightarrow> True
      | Delivered r \<Rightarrow> Src r = fst a \<and>
          (\<forall>p. unat (PortStart (fst a)) \<le> unat p \<and> unat p < unat (PortEnd (fst a)) \<longrightarrow>
             (p \<in> set (Open r) \<longleftrightarrow> dial (si_Ip (fst a)) (unat p) = None)))"

definition ctl_inv :: "(ip \<Rightarrow> nat \<Rightarrow> err) \<Rightarrow> controller \<Rightarrow> bool" where
  "ctl_inv dial c \<longleftrightarrow>
     c_done c = Nil_chan \<and> (c_panic c \<longleftrightarrow> \<not> c_watch c) \<and> c_idle c + length (c_busy c) \<le> c_threads c
     \<and> mset (c_taken c) = mset (c_busy c) + mset (map fst (c_answers c))
     \<and> list_all (answer_ok dial) (c_answers c)"

lemma run_item_answer_ok: "run_item now lim dial item = a \<Longrightarrow> answer_ok dial (item, a)"
  by (cases a) (auto simp: answer_ok_def Delivered_open scanned_to_def)

lemma ctl_inv_step: "ctl_inv dial c \<Longrightarrow> ctl_step dial c d \<Longrightarrow> ctl_inv dial d"
proof (erule ctl_stepE)
  fix item now lim r
  assume i: "ctl_inv dial c" and m: "item \<in> set (c_busy c)" and run: "run_item now lim dial item = Delivered r"
    and d: "d = c\<lparr>c_idle := Suc (c_idle c), c_busy := remove1 item (c_busy c), c_answers := c_answers c @ [(item, Delivered r)]\<rparr>"
  have "length (c_busy c) = Suc (length (remove1 item (c_busy c)))" using length_remove1[of item "c_busy c"] length_pos_if_in_set[OF m] m by simp
  then show "ctl_inv dial d" using i m run_item_answer_ok[OF run] by (simp add: ctl_inv_def d)
next
  fix item now lim
  assume i: "ctl_inv dial c" and m: "item \<in> set (c_busy c)" and run: "run_item now lim dial item = Cancelled"
    and d: "d = c\<lparr>c_busy := remove1 item (c_busy c), c_answers := c_answers c @ [(item, Cancelled)]\<rparr>"
  have "length (c_busy c) = Suc (length (remove1 item (c_busy c)))" using length_remove1[of item "c_busy c"] length_pos_if_in_set[OF m] m by simp
  then show "ctl_inv dial d" using i m run_item_answer_ok[OF run] by (simp add: ctl_inv_def d)
qed (auto simp: ctl_inv_def close_done_def go_close_def)

interpretation ctl: inv_system "\<lambda>c. \<exists>n. c = NewScannerController n" "ctl_step dial" "ctl_inv dial" for dial
  by unfold_locales (simp add: ctl_inv_def NewScannerController_def, erule exE, simp, rule ctl_inv_step)

text \<open>C30: A scan is delivered exactly when the limiter fails at no port before the last one; it then lists, in increasing
  order, exactly the ports of the range that accepted a connection, except that the last port is missing when the limiter
  failed there, which the caller cannot tell from a complete scan. The finishing time is never set.\<close>

theorem scan_delivers:
  "case run_item now lim dial item of
     Cancelled \<Rightarrow> \<exists>k. unat (PortStart item) \<le> k \<and> k < unat (PortEnd item) \<and> lim k \<noteq> None
   | Delivered r \<Rightarrow>
       (\<forall>k. unat (PortStart item) \<le> k \<and> k < unat (PortEnd item) \<longrightarrow> lim k = None)
       \<and> set (Open r) = {p. PortStart item \<le> p \<and> p \<le> PortEnd item \<and> dial (si_Ip item) (unat p) = None}
            - (if lim (unat (PortEnd item)) = None then {} else {PortEnd item})
       \<and> sorted_wrt (<) (map unat (Open r)) \<and> finishedAt r = 0"
proof (cases "run_item now lim dial item")
  case (Delivered r)
  have "p \<in> set (Open r) \<longleftrightarrow> p \<in> {p. PortStart item \<le> p \<and> p \<le> PortEnd item \<and> dial (si_Ip item) (unat p) = None}
            - (if lim (unat (PortEnd item)) = None then {} else {PortEnd item})" for p
    unfolding Delivered_open(2)[OF Delivered]
    by (auto simp: scanned_to_def word_le_nat_alt le_less less_Suc_eq_le word_unat_eq_iff)
  then have "set (Open r) = {p. PortStart item \<le> p \<and> p \<le> PortEnd item \<and> dial (si_Ip item) (unat p) = None}
            - (if lim (unat (PortEnd item)) = None then {} else {PortEnd item})" by blast
  moreover have "\<forall>k. unat (PortStart item) \<le> k \<and> k < unat (PortEnd item) \<longrightarrow> lim k = None" and "finishedAt r = 0"
    using Delivered unfolding run_item_Delivered by simp_all
  ultimately show ?thesis unfolding Delivered using Delivered_open(3)[OF Delivered] by simp
next
  case Cancelled
  have "\<not> (\<forall>k. unat (PortStart item) \<le> k \<and> k < unat (PortEnd item) \<longrightarrow> lim k = None)"
    using Cancelled run_item_Delivered[of now lim dial item] by fastforce
  then show ?thesis by (simp add: Cancelled)
qed

text \<open>A scan of the ports 22 to 24 whose limiter fails at the last port: port 24 is open and not reported.\<close>

theorem scan_delivers_witness:
  "\<exists>r. run_item 5 (\<lambda>k. if k = 24 then Some ''deadline'' else None) (\<lambda>_ p. None) \<lparr>si_Ip = [1, 2, 3, 4], PortStart = 22, PortEnd = 24\<rparr> = Delivered r
     \<and> set (Open r) = {22, 23}"
proof -
  let ?lim = "\<lambda>k :: nat. if k = 24 then Some ''deadline'' else None"
  let ?item = "\<lparr>si_Ip = [1, 2, 3, 4], PortStart = 22, PortEnd = 24\<rparr>"
  have iff: "22 \<le> p \<and> p \<le> 24 \<longleftrightarrow> p = 22 \<or> p = 23 \<or> p = 24" for p :: u16
    unfolding word_le_nat_alt word_unat_eq_iff by auto
  have all: "{p :: u16. 22 \<le> p \<and> p \<le> 24} - {24} = {22, 23}" unfolding iff by auto
  note d = scan_delivers[where now = 5 and lim = ?lim and dial = "\<lambda>_ _. None" and item = ?item]
  show ?thesis
  proof (cases "run_item 5 ?lim (\<lambda>_ _. None) ?item")
    case (Delivered r)
    with d have "set (Open r) = {p :: u16. 22 \<le> p \<and> p \<le> 24} - {24}" by simp
    then show ?thesis unfolding all using Delivered by blast
  next
    case Cancelled
    with d have "\<exists>k. 22 \<le> k \<and> k < 24 \<and> ?lim k \<noteq> None" by simp
    then have False by (auto split: if_splits)
    then show ?thesis ..
  qed
qed

text \<open>The scanning pool never runs more goroutines than it was given threads, every item it accepts is answered at most
  once and none is lost, each delivered answer tells every port before the last correctly, and the process panics exactly
  when \<open>Stop\<close> has been taken up: it closes the nil channel \<open>done\<close>.\<close>

lemma controller_sound:
  assumes "reach (\<lambda>c. \<exists>n. c = NewScannerController n) (ctl_step dial) c"
  shows "c_idle c + length (c_busy c) \<le> c_threads c
    \<and> mset (c_taken c) = mset (c_busy c) + mset (map fst (c_answers c))
    \<and> (\<forall>item r. (item, Delivered r) \<in> set (c_answers c) \<longrightarrow>
         (\<forall>p. unat (PortStart item) \<le> unat p \<and> unat p < unat (PortEnd item) \<longrightarrow>
            (p \<in> set (Open r) \<longleftrightarrow> dial (si_Ip item) (unat p) = None)))
    \<and> (c_panic c \<longleftrightarrow> \<not> c_watch c)"
proof -
  from ctl.reach_inv[OF assms] have i: "ctl_inv dial c" .
  then have "answer_ok dial (item, Delivered r)" if "(item, Delivered r) \<in> set (c_answers c)" for item r
    using that by (auto simp: ctl_inv_def list_all_iff)
  then show ?thesis using i unfolding ctl_inv_def answer_ok_def by force
qed

end
