(* ===== verification/Config.thy ===== *)
theory Config
  imports Scanner "HOL-Library.Sublist"
begin

text \<open>
  Configuration: the flags and settings of the scanner (\<open>scanner/app/config.go\<close>, \<open>parse.go\<close>,
  \<open>scanner/cmd/scanner/launcher/launch.go\<close>) and the flag parsers of the crawler (\<open>crawler/app/parse.go\<close>).
  The command-line library is the record \<open>cli\<close> of what its accessors return; \<open>net.ParseIP\<close> and
  \<open>enode.ParseV4\<close> are arguments. \<open>strings.Split\<close>, \<open>strings.HasPrefix\<close> and \<open>strconv.Atoi\<close> are written out.
\<close>

section \<open>Strings and numbers of Go's library\<close>

text \<open>\<open>strings.Split(s, sep)\<close> for a separator of one byte.\<close>

fun go_split :: "char \<Rightarrow> string \<Rightarrow> string list" where
  "go_split c [] = [[]]"
| "go_split c (x # xs) =
     (if x = c then [] # go_split c xs
      else (case go_split c xs of y # ys \<Rightarrow> (x # y) # ys | [] \<Rightarrow> [[x]]))"

definition is_digit :: "char \<Rightarrow> bool" where
  "is_digit c \<longleftrightarrow> 48 \<le> (of_char c :: nat) \<and> (of_char c :: nat) \<le> 57"

definition digit_val :: "char \<Rightarrow> nat" where
  "digit_val c = of_char c - 48"

definition digits_val :: "string \<Rightarrow> nat" where
  "digits_val ds = foldl (\<lambda>n c. 10 * n + digit_val c) 0 ds"

text \<open>\<open>strconv.Atoi\<close>: an optional sign, at least one decimal digit, a value in the range of \<open>int64\<close>.\<close>

definition Atoi :: "string \<Rightarrow> int option" where
  "Atoi s =
     (let neg = (s \<noteq> [] \<and> hd s = CHR ''-'');
          ds = (if s \<noteq> [] \<and> (hd s = CHR ''-'' \<or> hd s = CHR ''+'') then tl s else s);
          v = int (digits_val ds)
      in if ds = [] \<or> \<not> list_all is_digit ds then None
         else if neg then (if v \<le> 2 ^ 63 then Some (- v) else None)
         else (if v < 2 ^ 63 then Some v else None))"

section \<open>Command line\<close>

record cli =
  IsSet :: "string \<Rightarrow> bool"
  cli_Bool :: "string \<Rightarrow> bool"
  cli_String :: "string \<Rightarrow> string"
  cli_StringSlice :: "string \<Rightarrow> string list"
  cli_Int :: "string \<Rightarrow> int"
  cli_Uint :: "string \<Rightarrow> u64"
  cli_Uint64 :: "string \<Rightarrow> u64"

section \<open>The scanner's configuration\<close>

record scan_config =
  Ips :: "ip list"
  Threads :: int
  Burst :: int
  Interval :: int
  cfg_PortStart :: int
  cfg_PortEnd :: int
  Metrics :: bool
  StoreEnabled :: bool
  StoreMigration :: string
  StoreSource :: string
  CacheEnabled :: bool
  CacheEndpoint :: string
  CachePassword :: string
  BrokerEnabled :: bool
  BrokerEndpoint :: string
  BrokerUser :: string
  BrokerPassword :: string

text \<open>\<open>procs\<close> is \<open>runtime.GOMAXPROCS(0)\<close>.\<close>

definition scan_DefaultConfig :: "int \<Rightarrow> scan_config" where
  "scan_DefaultConfig procs =
     \<lparr>Ips = [], Threads = procs, Burst = 10, Interval = Second div 10, cfg_PortStart = 0, cfg_PortEnd = int MaxTcpPort,
      Metrics = False, StoreEnabled = False, StoreMigration = [], StoreSource = [],
      CacheEnabled = False, CacheEndpoint = [], CachePassword = [],
      BrokerEnabled = False, BrokerEndpoint = [], BrokerUser = [], BrokerPassword = []\<rparr>"

text \<open>\<open>Validate\<close>. The last guard writes \<open>PortStart\<close>.\<close>

definition scan_Validate :: "scan_config \<Rightarrow> scan_config \<times> err" where
  "scan_Validate conf =
     (if length (Ips conf) = 0 \<and> \<not> BrokerEnabled conf
      then (conf, Some ''running scanner without broker or ips is useless'')
      else
        let c1 = (if Burst conf \<le> 0 then conf\<lparr>Burst := 1\<rparr> else conf);
            c2 = (if Interval c1 < Millisecond then c1\<lparr>Interval := Millisecond\<rparr> else c1);
            c3 = (if Threads c2 \<le> 0 then c2\<lparr>Threads := 1\<rparr> else c2);
            c4 = (if cfg_PortStart c3 < 0 then c3\<lparr>cfg_PortStart := 0\<rparr> else c3);
            c5 = (if cfg_PortEnd c4 \<le> 0 then c4\<lparr>cfg_PortStart := int MaxTcpPort\<rparr> else c4)
        in (c5, None))"

definition scan_ParseMetrics :: "cli \<Rightarrow> scan_config \<Rightarrow> scan_config" where
  "scan_ParseMetrics ctx cfg =
     (if IsSet ctx ''metrics'' then cfg\<lparr>Metrics := cli_Bool ctx ''metrics''\<rparr> else cfg)"

definition scan_ParseBroker :: "cli \<Rightarrow> scan_config \<Rightarrow> scan_config \<times> err" where
  "scan_ParseBroker ctx cfg =
     (if \<not> IsSet ctx ''broker_enabled'' then (cfg, None)
      else if \<not> IsSet ctx ''broker_user'' then (cfg, Some ''broker enabled without username'')
      else if \<not> IsSet ctx ''broker_password'' then (cfg, Some ''broker enabled without password'')
      else if \<not> IsSet ctx ''broker_endpoint'' then (cfg, Some ''broker enabled without endpoint'')
      else (cfg\<lparr>BrokerEnabled := cli_Bool ctx ''broker_enabled'', BrokerUser := cli_String ctx ''broker_user'',
               BrokerPassword := cli_String ctx ''broker_password'', BrokerEndpoint := cli_String ctx ''broker_endpoint''\<rparr>, None))"

definition scan_ParseDb :: "cli \<Rightarrow> scan_config \<Rightarrow> scan_config \<times> err" where
  "scan_ParseDb ctx cfg =
     (if \<not> IsSet ctx ''db_enabled'' then (cfg, None)
      else if \<not> IsSet ctx ''db_source'' then (cfg, Some ''db enabled without source: db_source'')
      else if \<not> IsSet ctx ''db_migration_url'' then (cfg, Some ''db enabled without migration: db_migration_url'')
      else (cfg\<lparr>StoreEnabled := cli_Bool ctx ''db_enabled'', StoreSource := cli_String ctx ''db_source'',
               StoreMigration := cli_String ctx ''db_migration_url''\<rparr>, None))"

definition scan_ParseCache :: "cli \<Rightarrow> scan_config \<Rightarrow> scan_config \<times> err" where
  "scan_ParseCache ctx cfg =
     (if \<not> IsSet ctx ''cache_enabled'' then (cfg, None)
      else if \<not> IsSet ctx ''cache_endpoint'' then (cfg, Some ''flag missing: cache_endpoint'')
      else if \<not> IsSet ctx ''cache_password'' then (cfg, Some ''flag missing: cache_endpoint'')
      else (cfg\<lparr>CacheEnabled := cli_Bool ctx ''cache_enabled'', CacheEndpoint := cli_String ctx ''cache_endpoint'',
               CachePassword := cli_String ctx ''cache_password''\<rparr>, None))"

fun append_ips :: "(string \<Rightarrow> ip option) \<Rightarrow> string list \<Rightarrow> scan_config \<Rightarrow> scan_config \<times> err" where
  "append_ips ParseIP [] cfg = (cfg, None)"
| "append_ips ParseIP (raw # raws) cfg =
     (case ParseIP raw of
        None \<Rightarrow> (cfg, Some (''invalid ip. ip: '' @ raw))
      | Some a \<Rightarrow> append_ips ParseIP raws (cfg\<lparr>Ips := Ips cfg @ [a]\<rparr>))"

definition scan_ParseIps :: "(string \<Rightarrow> ip option) \<Rightarrow> cli \<Rightarrow> scan_config \<Rightarrow> scan_config \<times> err" where
  "scan_ParseIps ParseIP ctx cfg =
     (if \<not> IsSet ctx ''ips'' then (cfg, None)
      else (case append_ips ParseIP (cli_StringSlice ctx ''ips'') cfg of
              (cfg', Some e) \<Rightarrow> (cfg', Some e)
            | (cfg', None) \<Rightarrow>
                if length (cli_StringSlice ctx ''ips'') = 0 then (cfg', Some ''ips set without ip'') else (cfg', None)))"

definition scan_ParseInterval :: "cli \<Rightarrow> scan_config \<Rightarrow> scan_config" where
  "scan_ParseInterval ctx cfg =
     (if \<not> IsSet ctx ''interval_in_ms'' then cfg
      else cfg\<lparr>Interval := wrap64 (Millisecond * cli_Int ctx ''interval_in_ms'')\<rparr>)"

text \<open>\<open>ParsePorts\<close> tests the start flag twice; nothing calls it.\<close>

definition scan_ParsePorts :: "cli \<Rightarrow> scan_config \<Rightarrow> scan_config" where
  "scan_ParsePorts ctx cfg =
     (let c1 = (if IsSet ctx ''port_start'' then cfg\<lparr>cfg_PortStart := sint (cli_Uint ctx ''port_start'')\<rparr> else cfg)
      in if IsSet ctx ''port_start'' then c1\<lparr>cfg_PortEnd := sint (cli_Uint ctx ''port_end'')\<rparr> else c1)"

text \<open>\<open>Parse\<close>: the error of \<open>ParseIps\<close> is dropped. The flag of the result tells whether \<open>parseLogging\<close> has
  raised the log level.\<close>

definition scan_Parse :: "(string \<Rightarrow> ip option) \<Rightarrow> cli \<Rightarrow> scan_config \<Rightarrow> bool \<times> scan_config \<times> err" where
  "scan_Parse ParseIP ctx cfg =
     (let debug = (IsSet ctx ''verbose'' \<and> cli_Bool ctx ''verbose'');
          c1 = scan_ParseInterval ctx (scan_ParseMetrics ctx cfg);
          c2 = fst (scan_ParseIps ParseIP ctx c1)
      in (debug,
          (case scan_ParseBroker ctx c2 of
             (c3, Some e) \<Rightarrow> (c3, Some e)
           | (c3, None) \<Rightarrow>
               (case scan_ParseDb ctx c3 of
                  (c4, Some e) \<Rightarrow> (c4, Some e)
                | (c4, None) \<Rightarrow> scan_ParseCache ctx c4))))"

text \<open>What \<open>runScanner\<close> passes to \<open>NewScanner\<close>: the burst of the limiter and its interval.\<close>

definition worker_burst :: "scan_config \<Rightarrow> int" where
  "worker_burst cfg = wrap64 (Burst cfg * Threads cfg)"

definition worker_interval :: "scan_config \<Rightarrow> int" where
  "worker_interval cfg = wrap64 (Interval cfg div Threads cfg + 1)"

text \<open>\<open>runIpScanner\<close>: the last error among the scans, in the order their results arrive, or the error of the
  context.\<close>

datatype scan_event = ScanResult err | CtxDone string

fun collect_scans :: "nat \<Rightarrow> scan_event list \<Rightarrow> err \<Rightarrow> err option" where
  "collect_scans 0 evs chError = Some chError"
| "collect_scans (Suc n) [] chError = None"
| "collect_scans (Suc n) (CtxDone e # evs) chError = Some (Some e)"
| "collect_scans (Suc n) (ScanResult e # evs) chError = collect_scans n evs (if e \<noteq> None then e else chError)"

definition runIpScanner :: "(string \<Rightarrow> ip option) \<Rightarrow> int \<Rightarrow> cli \<Rightarrow> scan_event list \<Rightarrow> err option" where
  "runIpScanner ParseIP procs ctx evs =
     (case snd (scan_Parse ParseIP ctx (scan_DefaultConfig procs)) of
        (cfg, Some e) \<Rightarrow> Some (Some e)
      | (cfg, None) \<Rightarrow>
          if length (Ips cfg) = 0 then Some (Some ''running scanner without ip is useless'')
          else collect_scans (length (Ips cfg)) evs None)"

text \<open>The item scanned for an address: the configured ports, converted to \<open>uint16\<close>.\<close>

definition ip_item :: "scan_config \<Rightarrow> ip \<Rightarrow> scanItem" where
  "ip_item cfg a = \<lparr>si_Ip = a, PortStart = word_of_int (cfg_PortStart cfg), PortEnd = word_of_int (cfg_PortEnd cfg)\<rparr>"

section \<open>The crawler's flags\<close>

fun parse_nodes :: "(string \<Rightarrow> string + enode) \<Rightarrow> string list \<Rightarrow> enode list \<Rightarrow> string + enode list" where
  "parse_nodes parse [] acc = Inr acc"
| "parse_nodes parse (r # rs) acc =
     (case parse r of
        Inl e \<Rightarrow> Inl (''invalid bootstrap node: '' @ e)
      | Inr n \<Rightarrow> parse_nodes parse rs (acc @ [n]))"

definition ParseNode :: "(string \<Rightarrow> string + enode) \<Rightarrow> string \<Rightarrow> string + enode" where
  "ParseNode ParseV4 source =
     (if prefix ''enode://'' source then ParseV4 source else Inl ''unsupported node type'')"

definition ParseNodes :: "(string \<Rightarrow> string + enode) \<Rightarrow> cli \<Rightarrow> string + enode list" where
  "ParseNodes ParseV4 ctx =
     (if IsSet ctx ''nodes'' then
        (let input = cli_String ctx ''nodes'' in
         if input = [] then Inr []
         else parse_nodes (ParseNode ParseV4) (go_split CHR '','' input) [])
      else Inr [])"

definition ParseMetrics :: "cli \<Rightarrow> bool" where
  "ParseMetrics ctx = (if IsSet ctx ''metrics'' then cli_Bool ctx ''metrics'' else False)"

definition ParseIdentities :: "cli \<Rightarrow> string list" where
  "ParseIdentities ctx =
     (let s = (if IsSet ctx ''identities'' then cli_StringSlice ctx ''identities'' else [])
      in if length s = 0 then s @ [''*''] else s)"

definition ParseDiscPort :: "cli \<Rightarrow> int" where
  "ParseDiscPort ctx =
     (let port = (if IsSet ctx ''discport'' then cli_Int ctx ''discport'' else 0)
      in if port < 1000 then 10001 else port)"

text \<open>\<open>ParseTimeout\<close>: \<open>None\<close> is the background context without a deadline.\<close>

definition ParseTimeout :: "cli \<Rightarrow> int option" where
  "ParseTimeout ctx =
     (if \<not> IsSet ctx ''timeout'' then None
      else if cli_Uint64 ctx ''timeout'' = 0 then None
      else Some (wrap64 (sint (cli_Uint64 ctx ''timeout'') * Minute)))"

definition ParseConcurrency :: "cli \<Rightarrow> int" where
  "ParseConcurrency ctx = (if \<not> IsSet ctx ''concurrency'' then 8 else sint (cli_Uint64 ctx ''concurrency''))"

definition ParseDir :: "cli \<Rightarrow> string" where
  "ParseDir ctx =
     (if \<not> IsSet ctx ''dir'' then ''.''
      else if cli_String ctx ''dir'' = [] then ''.'' else cli_String ctx ''dir'')"

definition ParseFakeName :: "cli \<Rightarrow> string" where
  "ParseFakeName ctx = (if IsSet ctx ''fakename'' then cli_String ctx ''fakename'' else [])"

text \<open>\<open>p2p.Cap\<close>, the protocols offered by default, and \<open>ParseFakeCaps\<close> over the values NAME:VALUE.\<close>

record Cap =
  cap_Name :: string
  cap_Version :: u64

definition DefaultQuieries :: "Cap list" where
  "DefaultQuieries =
     [\<lparr>cap_Name = ''diff'', cap_Version = 1\<rparr>, \<lparr>cap_Name = ''eth'', cap_Version = 64\<rparr>, \<lparr>cap_Name = ''eth'', cap_Version = 65\<rparr>,
      \<lparr>cap_Name = ''eth'', cap_Version = 66\<rparr>, \<lparr>cap_Name = ''les'', cap_Version = 2\<rparr>, \<lparr>cap_Name = ''les'', cap_Version = 3\<rparr>,
      \<lparr>cap_Name = ''les'', cap_Version = 4\<rparr>, \<lparr>cap_Name = ''snap'', cap_Version = 1\<rparr>]"

fun parse_caps :: "string list \<Rightarrow> string + Cap list" where
  "parse_caps [] = Inr []"
| "parse_caps (flag # flags) =
     (let sflag = go_split CHR '':'' flag in
      if length sflag \<noteq> 2 then Inl (''invalid cap provided. got '' @ flag @ '', wants NAME:VALUE'')
      else (case Atoi (sflag ! 1) of
              None \<Rightarrow> Inl (''strconv.Atoi: '' @ sflag ! 1)
            | Some v \<Rightarrow>
                (case parse_caps flags of
                   Inl e \<Rightarrow> Inl e
                 | Inr cs \<Rightarrow> Inr (\<lparr>cap_Name = sflag ! 0, cap_Version = word_of_int v\<rparr> # cs))))"

definition ParseFakeCaps :: "cli \<Rightarrow> string + Cap list" where
  "ParseFakeCaps ctx =
     (case parse_caps (if IsSet ctx ''fakecaps'' then cli_StringSlice ctx ''fakecaps'' else []) of
        Inl e \<Rightarrow> Inl e
      | Inr flags \<Rightarrow> Inr (if length flags = 0 then DefaultQuieries else flags))"

text \<open>\<open>ParseBroker\<close> returns user, password, endpoint, whether the broker is enabled, and the error.\<close>

definition ParseBroker :: "cli \<Rightarrow> string \<times> string \<times> string \<times> bool \<times> err" where
  "ParseBroker ctx =
     (if \<not> IsSet ctx ''enable_broker'' then ([], [], [], False, None)
      else if \<not> IsSet ctx ''broker_user'' then ([], [], [], True, Some ''broker enabled without username'')
      else if \<not> IsSet ctx ''broker_password'' then ([], [], [], True, Some ''broker enabled without password'')
      else if \<not> IsSet ctx ''broker_endpoint'' then ([], [], [], True, Some ''broker enabled without endpoint'')
      else (cli_String ctx ''broker_user'', cli_String ctx ''broker_password'', cli_String ctx ''broker_endpoint'', True, None))"

text \<open>\<open>ParseDb\<close>; \<open>newStore\<close> is \<open>store.NewStore\<close> on the source and the migration path.\<close>

definition ParseDb :: "(string \<Rightarrow> string \<Rightarrow> string + 's) \<Rightarrow> cli \<Rightarrow> string + 's" where
  "ParseDb newStore ctx =
     (if \<not> IsSet ctx ''db_source'' then Inl ''flag missing: db_source''
      else if \<not> IsSet ctx ''db_migration_url'' then Inl ''flag missing: db_migration_url''
      else newStore (cli_String ctx ''db_source'') (cli_String ctx ''db_migration_url''))"

section \<open>Splitting and numbers\<close>

lemma go_split_nonempty [simp]: "go_split c s \<noteq> []"
  by (induction s) (auto split: list.splits)

lemma go_split_none: "c \<notin> set s \<Longrightarrow> go_split c s = [s]"
  by (induction s) auto

lemma go_split_sep: "c \<notin> set a \<Longrightarrow> go_split c (a @ c # b) = a # go_split c b"
  by (induction a) auto

lemma go_split_no_sep: "s \<in> set (go_split c t) \<Longrightarrow> c \<notin> set s"
  by (induction t arbitrary: s) (auto split: if_splits list.splits)

lemma length_go_split: "length (go_split c s) = Suc (length (filter (\<lambda>x. x = c) s))"
  by (induction s) (auto split: list.splits)

text \<open>Decimal notation, the inverse of \<^const>\<open>digits_val\<close>.\<close>

function dec :: "nat \<Rightarrow> string" where
  "dec n = (if n < 10 then [char_of (48 + n)] else dec (n div 10) @ [char_of (48 + n mod 10)])"
  by pat_completeness auto
termination
  by (relation "measure id") auto

declare dec.simps [simp del]

lemma digits_val_snoc: "digits_val (ds @ [c]) = 10 * digits_val ds + digit_val c"
  by (simp add: digits_val_def)

lemma of_char_digit [simp]: "d < 10 \<Longrightarrow> of_char (char_of (48 + d) :: char) = (48 + d :: nat)"
  by (simp add: of_char_of)

lemma digits_val_dec [simp]: "digits_val (dec n) = n"
proof (induction n rule: dec.induct)
  case (1 n)
  show ?case
  proof (cases "n < 10")
    case True
    then show ?thesis by (simp add: dec.simps[of n] digits_val_def digit_val_def)
  next
    case False
    have d: "digit_val (char_of (48 + n mod 10)) = n mod 10" by (simp add: digit_val_def)
    show ?thesis using 1 False unfolding dec.simps[of n] by (simp add: digits_val_snoc d)
  qed
qed

lemma is_digit_dec: "list_all is_digit (dec n)"
proof (induction n rule: dec.induct)
  case (1 n)
  have "is_digit (char_of (48 + d))" if "d < 10" for d :: nat using that by (simp add: is_digit_def)
  then show ?case using 1 by (simp add: dec.simps[of n])
qed

lemma dec_nonempty [simp]: "dec n \<noteq> []"
  by (subst dec.simps) simp

lemma Atoi_dec: "int n < 2 ^ 63 \<Longrightarrow> Atoi (dec n) = Some (int n)"
proof -
  assume n: "int n < 2 ^ 63"
  obtain c cs where d: "dec n = c # cs" by (cases "dec n") auto
  then have "is_digit c" using is_digit_dec[of n] by simp
  then have "c \<noteq> CHR ''-''" "c \<noteq> CHR ''+''" by (auto simp: is_digit_def)
  then show ?thesis using n is_digit_dec[of n] by (simp add: Atoi_def d[symmetric] Let_def) (simp add: d)
qed

lemma no_colon_dec: "CHR '':'' \<notin> set (dec n)"
  using is_digit_dec[of n] by (auto simp: list_all_iff is_digit_def)

definition print_cap :: "Cap \<Rightarrow> string" where
  "print_cap c = cap_Name c @ CHR '':'' # dec (unat (cap_Version c))"

definition cap_ok :: "Cap \<Rightarrow> bool" where
  "cap_ok c \<longleftrightarrow> CHR '':'' \<notin> set (cap_Name c) \<and> unat (cap_Version c) < 2 ^ 63"

lemma split_print_cap: "cap_ok c \<Longrightarrow> go_split CHR '':'' (print_cap c) = [cap_Name c, dec (unat (cap_Version c))]"
  by (simp add: print_cap_def cap_ok_def go_split_sep go_split_none no_colon_dec)

lemma Atoi_version: "unat (v :: u64) < 2 ^ 63 \<Longrightarrow> Atoi (dec (unat v)) = Some (uint v)"
proof -
  assume "unat v < 2 ^ 63"
  then have "int (unat v) < int (2 ^ 63)" by (simp only: of_nat_less_iff)
  then show ?thesis using Atoi_dec[of "unat v"] by simp
qed

lemma parse_caps_print: "list_all cap_ok cs \<Longrightarrow> parse_caps (map print_cap cs) = Inr cs"
  by (induction cs) (auto simp: split_print_cap cap_ok_def Atoi_version Let_def)

lemma parse_caps_flags: "parse_caps fs = Inr cs \<Longrightarrow> f \<in> set fs \<Longrightarrow> length (filter (\<lambda>x. x = CHR '':'') f) = 1"
  by (induction fs arbitrary: cs) (auto simp: Let_def length_go_split split: if_splits option.splits sum.splits)

section \<open>Validation\<close>

lemma scan_Validate_ok:
  assumes "scan_Validate conf = (cfg, None)"
  shows "1 \<le> Burst cfg" and "1 \<le> Threads cfg" and "Millisecond \<le> Interval cfg"
  using assms by (auto simp: scan_Validate_def Let_def split: if_splits)

lemma worker_interval_pos:
  assumes "1 \<le> Threads cfg" and "Millisecond \<le> Interval cfg" and "Interval cfg < 2 ^ 63 - 1"
  shows "0 < worker_interval cfg"
proof -
  have "0 \<le> Interval cfg div Threads cfg" "Interval cfg div Threads cfg \<le> Interval cfg"
    using assms zdiv_mono2[of "Interval cfg" 1 "Threads cfg"] by (simp_all add: pos_imp_zdiv_nonneg_iff Millisecond_def)
  then show ?thesis using assms(3) by (simp add: worker_interval_def wrap64_small)
qed

text \<open>The settings that are not touched, and the one that \<open>Validate\<close> writes in place of \<open>PortEnd\<close>.\<close>

lemma scan_Validate_ports:
  assumes "scan_Validate conf = (cfg, None)"
  shows "cfg_PortEnd cfg = cfg_PortEnd conf"
    and "cfg_PortEnd conf \<le> 0 \<Longrightarrow> cfg_PortStart cfg = int MaxTcpPort"
    and "0 < cfg_PortEnd conf \<Longrightarrow> cfg_PortStart cfg = max 0 (cfg_PortStart conf)"
  using assms by (auto simp: scan_Validate_def Let_def split: if_splits)

text \<open>C31: After \<open>Validate\<close> no scan of a worker can fail in the limiter: with a limiter that refuses only waits beyond its
  burst (the worker's context is never cancelled and has no deadline), every scan is delivered, complete to its last port.\<close>

theorem validated_scans_complete:
  assumes "scan_Validate conf = (cfg, None)" and "Burst cfg * Threads cfg < 2 ^ 63" and "Interval cfg < 2 ^ 63 - 1"
    and "\<forall>b i. 1 \<le> b \<longrightarrow> lim_wait b i = None"
  shows "\<exists>r. run_item now (lim_wait (worker_burst cfg)) dial item = Delivered r
    \<and> set (Open r) = {p. PortStart item \<le> p \<and> p \<le> PortEnd item \<and> dial (si_Ip item) (unat p) = None}
    \<and> 0 < worker_interval cfg"
proof -
  note v = scan_Validate_ok[OF assms(1)]
  have "1 \<le> Burst cfg * Threads cfg" using v(1,2) mult_mono[of 1 "Burst cfg" 1 "Threads cfg"] by simp
  then have b: "worker_burst cfg = Burst cfg * Threads cfg" "1 \<le> worker_burst cfg"
    using assms(2) by (simp_all add: worker_burst_def wrap64_small)
  then have quiet: "lim_wait (worker_burst cfg) i = None" for i using assms(4) by blast
  define r where "r = \<lparr>Src = item, Open = open_between dial (si_Ip item) (unat (PortStart item)) (Suc (unat (PortEnd item))),
      startedAt = now, finishedAt = 0\<rparr>"
  have d: "run_item now (lim_wait (worker_burst cfg)) dial item = Delivered r"
    unfolding run_item_Delivered by (simp add: quiet scanned_to_def r_def)
  moreover have "set (Open r) = {p. PortStart item \<le> p \<and> p \<le> PortEnd item \<and> dial (si_Ip item) (unat p) = None}"
    unfolding set_eq_iff mem_Collect_eq Delivered_open(2)[OF d] by (simp add: quiet scanned_to_def word_le_nat_alt less_Suc_eq_le)
  ultimately show ?thesis using worker_interval_pos[OF v(2,3) assms(3)] by blast
qed

theorem validated_scans_complete_witness:
  "\<exists>r. run_item 5 (\<lambda>i. if worker_burst (fst (scan_Validate ((scan_DefaultConfig 0)\<lparr>BrokerEnabled := True, Burst := -3\<rparr>))) < 1 then Some ''exceeds'' else None)
       (\<lambda>_ p. None) \<lparr>si_Ip = [1, 2, 3, 4], PortStart = 22, PortEnd = 24\<rparr> = Delivered r"
proof -
  let ?conf = "(scan_DefaultConfig 0)\<lparr>BrokerEnabled := True, Burst := -3\<rparr>"
  let ?cfg = "fst (scan_Validate ?conf)"
  let ?lim = "\<lambda>b (i :: nat). if b < (1 :: int) then Some ''exceeds'' else None"
  have v: "scan_Validate ?conf = (?cfg, None)" by (simp add: scan_Validate_def scan_DefaultConfig_def Let_def)
  have c: "Burst ?cfg = 1" "Threads ?cfg = 1" "Interval ?cfg = Second div 10"
    by (simp_all add: scan_Validate_def scan_DefaultConfig_def Let_def time_defs)
  from validated_scans_complete[OF v, of ?lim 5 "\<lambda>_ _. None" "\<lparr>si_Ip = [1, 2, 3, 4], PortStart = 22, PortEnd = 24\<rparr>"]
  show ?thesis by (auto simp: c time_defs)
qed

text \<open>Printing and parsing protocol capabilities: \<open>ParseFakeCaps\<close> reads back any non-empty list of capabilities written
  as NAME:VALUE with names free of colons and versions of at most 63 bits, no flag at all gives the default list, and one
  flag with no or several colons makes the whole list an error.\<close>

lemma ParseFakeCaps_roundtrip:
  "(IsSet ctx ''fakecaps'' \<and> cli_StringSlice ctx ''fakecaps'' = map print_cap cs \<and> list_all cap_ok cs \<longrightarrow>
      ParseFakeCaps ctx = Inr (if cs = [] then DefaultQuieries else cs))
   \<and> (\<not> IsSet ctx ''fakecaps'' \<longrightarrow> ParseFakeCaps ctx = Inr DefaultQuieries)
   \<and> (IsSet ctx ''fakecaps'' \<and> (\<exists>f \<in> set (cli_StringSlice ctx ''fakecaps''). length (filter (\<lambda>x. x = CHR '':'') f) \<noteq> 1) \<longrightarrow>
      isl (ParseFakeCaps ctx))"
proof (intro conjI impI)
  assume "IsSet ctx ''fakecaps'' \<and> (\<exists>f \<in> set (cli_StringSlice ctx ''fakecaps''). length (filter (\<lambda>x. x = CHR '':'') f) \<noteq> 1)"
  then show "isl (ParseFakeCaps ctx)"
    using parse_caps_flags[of "cli_StringSlice ctx ''fakecaps''"] by (fastforce simp: ParseFakeCaps_def split: sum.splits)
qed (auto simp: ParseFakeCaps_def parse_caps_print)

end
