(* ===== verification/App.thy ===== *)
theory App
  imports Config
begin

text \<open>
  The two applications: the setup of the scanner (\<open>scanner/app/application.go\<close>) and the run of the crawler
  (\<open>crawler/app/application.go\<close>) with the wait group of its goroutines.
\<close>

section \<open>The scanner's setup\<close>

text \<open>What the setup has acquired when it returns.\<close>

record scan_app =
  app_http :: bool
  app_broker :: bool
  app_cache :: bool
  app_store :: bool

definition new_scan_app :: scan_app where
  "new_scan_app = \<lparr>app_http = False, app_broker = False, app_cache = False, app_store = False\<rparr>"

definition app_Setup :: "scan_config \<Rightarrow> err \<Rightarrow> err \<Rightarrow> err \<Rightarrow> err \<times> scan_app" where
  "app_Setup cfg broker_err cache_err store_err =
     (let a0 = new_scan_app\<lparr>app_http := Metrics cfg\<rparr> in
      if \<not> BrokerEnabled cfg then (Some ''broker is required'', a0)
      else case broker_err of
        Some e \<Rightarrow> (Some (''broker initializationn failure. error: '' @ e), a0)
      | None \<Rightarrow>
          let a1 = a0\<lparr>app_broker := True\<rparr> in
          if \<not> CacheEnabled cfg then (Some ''cache is required'', a1)
          else case cache_err of
            Some e \<Rightarrow> (Some e, a1)
          | None \<Rightarrow>
              let a2 = a1\<lparr>app_cache := True\<rparr> in
              if \<not> StoreEnabled cfg then (Some ''store is required'', a2)
              else case store_err of
                Some e \<Rightarrow> (Some e, a2)
              | None \<Rightarrow> (None, a2\<lparr>app_store := True\<rparr>))"

lemma app_Setup_ok:
  "fst (app_Setup cfg be ce se) = None \<longleftrightarrow>
     BrokerEnabled cfg \<and> CacheEnabled cfg \<and> StoreEnabled cfg \<and> be = None \<and> ce = None \<and> se = None"
  by (auto simp: app_Setup_def Let_def split: option.splits if_splits)

section \<open>The crawler's goroutines\<close>

text \<open>
  \<open>Run\<close> adds twice to the wait group and starts three goroutines, each of which ends with \<open>Done\<close>; a negative counter
  panics. \<open>Run\<close> returns when the counter is zero.
\<close>

datatype routine = Http | CrawlerRun | HandlerRun

record crawl_app =
  wg :: int
  alive :: "routine set"
  returned :: bool
  wg_panic :: bool

definition app_Run :: crawl_app where
  "app_Run = \<lparr>wg = 2, alive = {Http, CrawlerRun, HandlerRun}, returned = False, wg_panic = False\<rparr>"

definition wg_Done :: "crawl_app \<Rightarrow> crawl_app" where
  "wg_Done a = (if wg a - 1 < 0 then a\<lparr>wg := wg a - 1, wg_panic := True\<rparr> else a\<lparr>wg := wg a - 1\<rparr>)"

inductive app_step :: "crawl_app \<Rightarrow> crawl_app \<Rightarrow> bool" where
  routine_end: "r \<in> alive a \<Longrightarrow> \<not> wg_panic a \<Longrightarrow> app_step a (wg_Done (a\<lparr>alive := alive a - {r}\<rparr>))"
| run_returns: "wg a = 0 \<Longrightarrow> \<not> wg_panic a \<Longrightarrow> app_step a (a\<lparr>returned := True\<rparr>)"

definition app_inv :: "crawl_app \<Rightarrow> bool" where
  "app_inv a \<longleftrightarrow> finite (alive a) \<and> wg a = int (card (alive a)) - 1 \<and> (wg_panic a \<longleftrightarrow> alive a = {})
     \<and> (returned a \<longrightarrow> card (alive a) \<le> 1)"

lemma app_inv_step: "app_inv a \<Longrightarrow> app_step a b \<Longrightarrow> app_inv b"
proof (erule app_step.cases)
  fix r a' assume i: "app_inv a" and a: "a = a'" "b = wg_Done (a'\<lparr>alive := alive a' - {r}\<rparr>)" "r \<in> alive a'" "\<not> wg_panic a'"
  have "card (alive a') = Suc (card (alive a' - {r}))" using i a by (metis app_inv_def card_Suc_Diff1)
  moreover have "finite (alive a' - {r})" using i a by (simp add: app_inv_def)
  note card_0_eq[OF this]
  ultimately show "app_inv b" using i a by (simp add: app_inv_def wg_Done_def) linarith
qed (auto simp: app_inv_def)

interpretation app: inv_system "\<lambda>a. a = app_Run" app_step app_inv
  by unfold_locales (simp add: app_inv_def app_Run_def, rule app_inv_step)

text \<open>The crawler's wait group is one short: \<open>Run\<close> returns once two of its three goroutines have ended, in any order,
  while the third may still run, and the process panics exactly when the third ends too.\<close>

lemma crawler_wait_group:
  assumes "reach (\<lambda>a. a = app_Run) app_step a"
  shows "wg a = int (card (alive a)) - 1 \<and> (returned a \<longrightarrow> card (alive a) \<le> 1) \<and> (wg_panic a \<longleftrightarrow> alive a = {})"
  using app.reach_inv[OF assms] by (simp add: app_inv_def)

end
