(* ===== verification/Node_Handler.thy ===== *)
theory Node_Handler
  imports Handler V4_Props
begin

text \<open>
  \<open>crawler/net/discovery/handler.go\<close> over the v4 sub handler: every entry point of the packet handler takes a
  context with the peer's address, runs the sub handler and records the call. The packet handler is its sub
  handler's state and its recorder (\<open>recorder.go\<close>); the run of packets and requests is a step relation, and the
  random lookup is run with the v4 request as its query.
\<close>

section \<open>The recorder\<close>

record rpc_label =
  lb_method :: string
  lb_code :: int
  lb_external :: bool

text \<open>The histogram keeps what it observed (milliseconds), the counter how often each label was counted; without
  metrics the recorder is \<open>noopRecorder\<close>.\<close>

record recorder =
  rc_enabled :: bool
  rpcHist :: "(rpc_label \<times> int) list"
  rpcCounter :: "rpc_label \<Rightarrow> nat"

definition newRecorder :: "bool \<Rightarrow> recorder" where
  "newRecorder enabled = \<lparr>rc_enabled = enabled, rpcHist = [], rpcCounter = (\<lambda>_. 0)\<rparr>"

definition RecordRpcDuration :: "int \<Rightarrow> rpc_label \<Rightarrow> recorder \<Rightarrow> recorder" where
  "RecordRpcDuration dur l r = (if rc_enabled r then r\<lparr>rpcHist := rpcHist r @ [(l, sgn dur * (\<bar>dur\<bar> div Millisecond))]\<rparr> else r)"

definition RecordRpcRequest :: "rpc_label \<Rightarrow> recorder \<Rightarrow> recorder" where
  "RecordRpcRequest l r = (if rc_enabled r then r\<lparr>rpcCounter := (rpcCounter r)(l := Suc (rpcCounter r l))\<rparr> else r)"

definition record_rpc :: "bool \<Rightarrow> int \<Rightarrow> err \<times> string \<Rightarrow> recorder \<Rightarrow> recorder" where
  "record_rpc ext dur info r =
     (let l = \<lparr>lb_method = snd info, lb_code = record_code (fst info), lb_external = ext\<rparr> in
      RecordRpcRequest l (RecordRpcDuration dur l r))"

section \<open>The packet handler\<close>

record ('s, 'db) PacketHandler =
  ph_sub :: "('s, 'db) v4_handler"
  ph_recorder :: recorder

text \<open>A context from the pool: its address is overwritten before it is used.\<close>

definition getCtx :: "ip \<Rightarrow> int \<Rightarrow> v4_env \<Rightarrow> v4_env" where
  "getCtx a port E = E\<lparr>ev_ip := a, ev_port := port\<rparr>"

definition ph_HandlePacket :: "'s table_ext \<Rightarrow> 'db v4_ext \<Rightarrow> v4_env \<Rightarrow> int \<Rightarrow> u8 list \<Rightarrow>
    string + (v4packet \<times> node_id \<times> pubkey \<times> u8 list) \<Rightarrow> ip \<Rightarrow> int \<Rightarrow> ('s, 'db) PacketHandler \<Rightarrow>
    outcome \<times> ('s, 'db) PacketHandler \<times> v4_action list" where
  "ph_HandlePacket X V E dur rec decoded from port h =
     (case V4.HandlePacket X V (getCtx from port E) rec decoded (ph_sub h) of
        ((Panic, name), s, acts) \<Rightarrow> (Panic, h\<lparr>ph_sub := s\<rparr>, acts)
      | ((Ret e, name), s, acts) \<Rightarrow>
          (Ret e, h\<lparr>ph_sub := s, ph_recorder := record_rpc True dur (e, name) (ph_recorder h)\<rparr>, acts))"

definition MakePingRequest :: "'db v4_ext \<Rightarrow> v4_env \<Rightarrow> node_id \<Rightarrow> ('s, 'db) v4_handler \<Rightarrow>
    (u64 \<times> err \<times> string) \<times> ('s, 'db) v4_handler \<times> v4_action list" where
  "MakePingRequest V E i s =
     (case makePingRequest V E i (\<lambda>s. s) s of ((q, e), s', acts) \<Rightarrow> ((q, e, packet_name (Ping 0 0 0 0)), s', acts))"

definition ph_Ping :: "'db v4_ext \<Rightarrow> v4_env \<Rightarrow> int \<Rightarrow> enode \<Rightarrow> ('s, 'db) PacketHandler \<Rightarrow>
    (u64 \<times> err) \<times> ('s, 'db) PacketHandler \<times> v4_action list" where
  "ph_Ping V E dur n h =
     (case MakePingRequest V (getCtx (e_IP n) (e_UDP n) E) (e_ID n) (ph_sub h) of ((q, info), s, acts) \<Rightarrow>
        ((q, fst info), h\<lparr>ph_sub := s, ph_recorder := record_rpc False dur info (ph_recorder h)\<rparr>, acts))"

text \<open>\<open>now2\<close>, \<open>d2\<close>: clock and database after the wait of \<open>tryBond\<close>; \<open>e\<close>, \<open>replies\<close>: how the awaited request ended.\<close>

definition runNodesQuery :: "'s table_ext \<Rightarrow> 'db v4_ext \<Rightarrow> v4_env \<Rightarrow> int \<Rightarrow> int \<Rightarrow> 'db \<Rightarrow> err \<Rightarrow> rpc_node list list \<Rightarrow>
    ip \<Rightarrow> int \<Rightarrow> node_id \<Rightarrow> pubkey \<Rightarrow> ('s, 'db) PacketHandler \<Rightarrow>
    (enode list \<times> err) \<times> ('s, 'db) PacketHandler \<times> v4_action list" where
  "runNodesQuery X V E dur now2 d2 e replies a port i target h =
     (case MakeFindNodeRequest X V (getCtx a port E) now2 d2 i target e replies (ph_sub h) of ((nodes, er), s, acts) \<Rightarrow>
        ((nodes, er), h\<lparr>ph_sub := s, ph_recorder := record_rpc False dur (er, packet_name (Findnode [] 0)) (ph_recorder h)\<rparr>, acts))"

text \<open>\<open>rand\<close> is the random target.\<close>

definition AskForRandomNodes :: "'s table_ext \<Rightarrow> 'db v4_ext \<Rightarrow> v4_env \<Rightarrow> int \<Rightarrow> int \<Rightarrow> 'db \<Rightarrow> err \<Rightarrow> rpc_node list list \<Rightarrow>
    pubkey \<Rightarrow> enode \<Rightarrow> ('s, 'db) PacketHandler \<Rightarrow> (enode list \<times> err) \<times> ('s, 'db) PacketHandler \<times> v4_action list" where
  "AskForRandomNodes X V E dur now2 d2 e replies rand n h =
     runNodesQuery X V E dur now2 d2 e replies (e_IP n) (e_UDP n) (e_ID n) rand h"

definition ph_RequestENR :: "'db v4_ext \<Rightarrow> v4_env \<Rightarrow> int \<Rightarrow> int \<Rightarrow> 'db \<Rightarrow> string + u8 list \<Rightarrow> enode \<Rightarrow>
    ('s, 'db) PacketHandler \<Rightarrow> (string + enode) \<times> ('s, 'db) PacketHandler \<times> v4_action list" where
  "ph_RequestENR V E dur now2 d2 ans n h =
     (case MakeEnrRequest V (getCtx (e_IP n) (e_UDP n) E) now2 d2 n ans (ph_sub h) of (r, s, acts) \<Rightarrow>
        (r, h\<lparr>ph_sub := s, ph_recorder := record_rpc False dur
               (case r of Inl e \<Rightarrow> Some e | Inr _ \<Rightarrow> None, packet_name (ENRRequest 0)) (ph_recorder h)\<rparr>, acts))"

text \<open>What a query of the lookup may return: the v4 request to the node's own address, in whatever state of the
  handler and with whatever answers of the network.\<close>

definition nodes_query :: "'s table_ext \<Rightarrow> 'db v4_ext \<Rightarrow> pubkey \<Rightarrow> enode \<Rightarrow> string + enode list \<Rightarrow> bool" where
  "nodes_query X V target n r \<longleftrightarrow>
     (\<exists>E dur now2 d2 e replies nodes er (h :: ('s, 'db) PacketHandler).
        fst (runNodesQuery X V E dur now2 d2 e replies (e_IP n) (e_UDP n) (e_ID n) target h) = (nodes, er)
        \<and> r = (case er of None \<Rightarrow> Inr nodes | Some x \<Rightarrow> Inl x))"

definition ph_LookupRandom :: "'s table_ext \<Rightarrow> 'db v4_ext \<Rightarrow> pubkey \<Rightarrow> 's Table \<Rightarrow> string + enode list \<Rightarrow> bool" where
  "ph_LookupRandom X V target tab res = LookupRandom X (nodes_query X V target) (vx_Keccak V target) tab res"

text \<open>\<open>Config\<close>; \<open>None\<close> is a nil slice.\<close>

record disc_config =
  dc_Bootnodes :: "enode list option"
  dc_RunTab :: bool
  dc_IgnoreLimits :: bool

definition config_Verify :: "disc_config \<Rightarrow> disc_config" where
  "config_Verify c = (if dc_Bootnodes c = None then c\<lparr>dc_Bootnodes := Some []\<rparr> else c)"

text \<open>
  The node: the entry points beside the table's main loop, which share the table. \<open>Run\<close> starts the loop only when the
  configuration says so. A ping handler that waits for its own ping is a \<open>packet\<close> step without the answer, followed by an
  \<open>answered\<close> step when the answer came.
\<close>

type_synonym ('s, 'db) discovery = "'s run_state \<times> ('s, 'db) PacketHandler"

definition share :: "'s run_state \<Rightarrow> ('s, 'db) PacketHandler \<Rightarrow> ('s, 'db) discovery" where
  "share r h = (r\<lparr>r_tab := v_tab (ph_sub h)\<rparr>, h)"

definition with_tab :: "'s run_state \<Rightarrow> ('s, 'db) PacketHandler \<Rightarrow> ('s, 'db) discovery" where
  "with_tab r h = (r, h\<lparr>ph_sub := (ph_sub h)\<lparr>v_tab := r_tab r\<rparr>\<rparr>)"

text \<open>\<open>NewHandler\<close> creates the table, and \<open>Setup\<close> hands it with the node database to the sub handler. \<open>seeds\<close> are the seed nodes
  of the database \<open>db\<close>, \<open>metrics\<close> tells whether metrics are enabled.\<close>

definition v4_Setup :: "'s Table \<Rightarrow> 'db \<Rightarrow> ('s, 'db) v4_handler \<Rightarrow> ('s, 'db) v4_handler" where
  "v4_Setup tab db s = s\<lparr>v_tab := tab, v_store := db\<rparr>"

definition NewHandler :: "'s table_ext \<Rightarrow> ip_limits \<Rightarrow> int \<Rightarrow> enode list \<Rightarrow> bool \<Rightarrow> ('s, 'db) v4_handler \<Rightarrow> 'db \<Rightarrow> disc_config \<Rightarrow>
    string + ('s, 'db) PacketHandler" where
  "NewHandler X L now seeds metrics sub db cfg =
     (let c = config_Verify cfg in
      case snd (NewTable X L now seeds (case dc_Bootnodes c of None \<Rightarrow> [] | Some ns \<Rightarrow> ns) (dc_IgnoreLimits c)) of
        Inl e \<Rightarrow> Inl e
      | Inr tab \<Rightarrow> Inr \<lparr>ph_sub = v4_Setup tab db sub, ph_recorder = newRecorder metrics\<rparr>)"

text \<open>The loop's own part of the state before it runs.\<close>

definition loop_start :: "'s Table \<Rightarrow> 's run_state" where
  "loop_start tab = \<lparr>r_tab = tab, r_refresh = RRunning, r_waiting = [0], r_closed = [], r_armed = True, r_reval = VIdle,
     r_loop = Looping\<rparr>"

definition ph_init :: "'s table_ext \<Rightarrow> ip_limits \<Rightarrow> disc_config \<Rightarrow> ('s, 'db) discovery \<Rightarrow> bool" where
  "ph_init X L cfg s \<longleftrightarrow> (\<exists>now seeds metrics sub db h. NewHandler X L now seeds metrics sub db cfg = Inr h
     \<and> s = (loop_start (v_tab (ph_sub h)), h))"

inductive ph_step :: "'s table_ext \<Rightarrow> 'db v4_ext \<Rightarrow> disc_config \<Rightarrow> ('s, 'db) discovery \<Rightarrow> ('s, 'db) discovery \<Rightarrow> bool"
  for X :: "'s table_ext" and V :: "'db v4_ext" and cfg :: disc_config where
  packet: "ph_step X V cfg (r, h) (share r (fst (snd (ph_HandlePacket X V E dur rec decoded from port h))))"
| answered: "ph_step X V cfg (r, h) (with_tab (r\<lparr>r_tab := AddSeenNode X now (r_tab r) n\<rparr>) h)"
| ping: "ph_step X V cfg (r, h) (share r (fst (snd (ph_Ping V E dur n h))))"
| ask: "ph_step X V cfg (r, h) (share r (fst (snd (runNodesQuery X V E dur now2 d2 e replies a port i target h))))"
| enr: "ph_step X V cfg (r, h) (share r (fst (snd (ph_RequestENR V E dur now2 d2 ans n h))))"
| table_loop: "dc_RunTab cfg \<Longrightarrow> run_step X r r' \<Longrightarrow> ph_step X V cfg (r, h) (with_tab r' h)"

section \<open>Lemmas\<close>

text \<open>The counter and the histogram of the recorder agree.\<close>

definition recorder_ok :: "recorder \<Rightarrow> bool" where
  "recorder_ok r \<longleftrightarrow> (\<forall>l. rpcCounter r l = count_list (map fst (rpcHist r)) l) \<and> lb_code ` fst ` set (rpcHist r) \<subseteq> {200, 404}"

lemma recorder_ok_new: "recorder_ok (newRecorder on)"
  by (simp add: recorder_ok_def newRecorder_def)

lemma recorder_ok_record: "recorder_ok r \<Longrightarrow> recorder_ok (record_rpc ext dur info r)"
  by (auto simp: recorder_ok_def record_rpc_def RecordRpcDuration_def RecordRpcRequest_def Let_def record_code_def)

text \<open>Requests leave the table alone; a packet changes it by a call of \<open>AddSeenNode\<close> only.\<close>

lemma tryBond_tab: "tryBond V E i a now2 d2 s = (ok, s', acts) \<Longrightarrow> s' = s"
  by (auto simp: tryBond_def makePingRequest_def Let_def split: if_splits sum.splits prod.splits)

lemma request_frame:
  "v_tab (ph_sub (fst (snd (ph_Ping V E dur n h)))) = v_tab (ph_sub h)"
  "v_tab (ph_sub (fst (snd (runNodesQuery X V E dur now2 d2 e replies a port i target h)))) = v_tab (ph_sub h)"
  "v_tab (ph_sub (fst (snd (ph_RequestENR V E dur now2 d2 ans n h)))) = v_tab (ph_sub h)"
proof -
  show "v_tab (ph_sub (fst (snd (ph_Ping V E dur n h)))) = v_tab (ph_sub h)"
    by (auto simp: ph_Ping_def MakePingRequest_def makePingRequest_def Let_def split: sum.splits prod.splits)
  show "v_tab (ph_sub (fst (snd (runNodesQuery X V E dur now2 d2 e replies a port i target h)))) = v_tab (ph_sub h)"
    by (auto simp: runNodesQuery_def MakeFindNodeRequest_def dest!: tryBond_tab split: if_splits prod.splits)
  show "v_tab (ph_sub (fst (snd (ph_RequestENR V E dur now2 d2 ans n h)))) = v_tab (ph_sub h)"
    by (auto simp: ph_RequestENR_def MakeEnrRequest_def dest!: tryBond_tab split: if_splits prod.splits)
qed

lemma packet_tab:
  assumes "h' = fst (snd (ph_HandlePacket X V E dur rec decoded from port h))"
  shows "v_tab (ph_sub h') = v_tab (ph_sub h) \<or> (\<exists>now n. v_tab (ph_sub h') = AddSeenNode X now (v_tab (ph_sub h)) n)"
proof -
  obtain r name s acts where p: "V4.HandlePacket X V (getCtx from port E) rec decoded (ph_sub h) = ((r, name), s, acts)"
    by (metis prod.collapse)
  then have "ph_sub h' = s" using assms by (auto simp: ph_HandlePacket_def split: outcome.splits)
  then show ?thesis using HandlePacket_tab[OF p] by auto
qed

lemma recorded:
  "recorder_ok (ph_recorder h) \<Longrightarrow> recorder_ok (ph_recorder (fst (snd (ph_HandlePacket X V E dur rec decoded from port h))))"
  "recorder_ok (ph_recorder h) \<Longrightarrow> recorder_ok (ph_recorder (fst (snd (ph_Ping V E dur n h))))"
  "recorder_ok (ph_recorder h) \<Longrightarrow>
    recorder_ok (ph_recorder (fst (snd (runNodesQuery X V E dur now2 d2 e replies a port i target h))))"
  "recorder_ok (ph_recorder h) \<Longrightarrow> recorder_ok (ph_recorder (fst (snd (ph_RequestENR V E dur now2 d2 ans n h))))"
  by (auto simp: ph_HandlePacket_def ph_Ping_def runNodesQuery_def ph_RequestENR_def recorder_ok_record
      split: prod.splits outcome.splits)

definition ph_inv :: "'s table_ext \<Rightarrow> ip_limits \<Rightarrow> disc_config \<Rightarrow> ('s, 'db) discovery \<Rightarrow> bool" where
  "ph_inv X L cfg s \<longleftrightarrow> reach (run_init X L (dc_IgnoreLimits cfg)) (run_step X) (fst s) \<and> v_tab (ph_sub (snd s)) = r_tab (fst s)
     \<and> recorder_ok (ph_recorder (snd s))"

lemma ph_inv_request:
  "ph_inv X L cfg (r, h) \<Longrightarrow> v_tab (ph_sub h') = v_tab (ph_sub h) \<Longrightarrow> recorder_ok (ph_recorder h') \<Longrightarrow> ph_inv X L cfg (share r h')"
  by (simp add: ph_inv_def share_def)

lemma ph_inv_recorder: "ph_inv X L cfg (r, h) \<Longrightarrow> recorder_ok (ph_recorder h)"
  by (simp add: ph_inv_def)

lemma ph_inv_requests:
  assumes "ph_inv X L cfg (r, h)"
  shows "ph_inv X L cfg (share r (fst (snd (ph_Ping V E dur n h))))"
    and "ph_inv X L cfg (share r (fst (snd (runNodesQuery X V E dur now2 d2 e replies a port i target h))))"
    and "ph_inv X L cfg (share r (fst (snd (ph_RequestENR V E dur now2 d2 ans n h))))"
  by (intro ph_inv_request[OF assms] recorded request_frame ph_inv_recorder[OF assms])+

lemma ph_inv_packet:
  assumes "ph_inv X L cfg (r, h)"
  shows "ph_inv X L cfg (share r (fst (snd (ph_HandlePacket X V E dur rec decoded from port h))))"
proof -
  let ?h = "fst (snd (ph_HandlePacket X V E dur rec decoded from port h))"
  from packet_tab[of ?h X V E dur rec decoded "from" port h]
  consider "v_tab (ph_sub ?h) = v_tab (ph_sub h)" | now n where "v_tab (ph_sub ?h) = AddSeenNode X now (r_tab r) n"
    using assms by (auto simp: ph_inv_def)
  then show ?thesis
  proof cases
    case 1
    then show ?thesis using assms recorded(1) by (intro ph_inv_request) (auto simp: ph_inv_def)
  next
    case (2 now n)
    then have "reach (run_init X L (dc_IgnoreLimits cfg)) (run_step X) (fst (share r ?h))"
      using assms run_step.seen[of X r now n] by (auto simp: ph_inv_def share_def intro: reach_step)
    then show ?thesis using assms recorded(1) by (auto simp: ph_inv_def share_def)
  qed
qed

lemma ph_inv_init: "ph_init X L cfg s \<Longrightarrow> ph_inv X L cfg s"
proof -
  assume "ph_init X L cfg s"
  then obtain now seeds metrics sub db h where h: "NewHandler X L now seeds metrics sub db cfg = Inr h"
    "s = (loop_start (v_tab (ph_sub h)), h)" by (auto simp: ph_init_def)
  have "dc_IgnoreLimits (config_Verify cfg) = dc_IgnoreLimits cfg" by (simp add: config_Verify_def)
  then obtain boot where "snd (NewTable X L now seeds boot (dc_IgnoreLimits cfg)) = Inr (v_tab (ph_sub h))"
    and "ph_recorder h = newRecorder metrics"
    using h(1) by (auto simp: NewHandler_def v4_Setup_def Let_def split: sum.splits)
  moreover from this(1) have "run_init X L (dc_IgnoreLimits cfg) (loop_start (v_tab (ph_sub h)))"
    unfolding run_init_def loop_start_def by blast
  ultimately show ?thesis using h(2) by (auto simp: ph_inv_def loop_start_def recorder_ok_new intro: reach_init)
qed

interpretation discovery_run: inv_system "ph_init X L cfg" "ph_step X V cfg" "ph_inv X L cfg"
proof
  fix s :: "('a, 'b) discovery" assume "ph_init X L cfg s"
  then show "ph_inv X L cfg s" by (rule ph_inv_init)
next
  fix s t :: "('a, 'b) discovery" assume i: "ph_inv X L cfg s" and st: "ph_step X V cfg s t"
  from st show "ph_inv X L cfg t"
  proof cases
    case (table_loop r r' h)
    then show ?thesis using i by (auto simp: ph_inv_def with_tab_def intro: reach_step)
  next
    case (answered r h now n)
    then show ?thesis using i run_step.seen[of X r now n] by (auto simp: ph_inv_def with_tab_def intro: reach_step)
  qed (use i in \<open>auto intro: ph_inv_packet ph_inv_requests\<close>)
qed

text \<open>What the queries of a lookup bring in: nodes that passed the checks on the entries of a neighbours packet.\<close>

definition checked_entry :: "'s table_ext \<Rightarrow> 'db v4_ext \<Rightarrow> enode \<Rightarrow> bool" where
  "checked_entry X V n \<longleftrightarrow> (\<exists>a rn. nodeFromRPC X V a rn = Inr n \<and> 1024 < rn_UDP rn
     \<and> vx_CheckRelayIP V a (rn_IP rn) = None \<and> x_Validate X n = None)"

lemma runNodesQuery_checked:
  assumes "fst (runNodesQuery X V E dur now2 d2 e replies a port i target h) = (nodes, er)" and "n \<in> set nodes"
  shows "checked_entry X V n"
proof -
  obtain acts where "makeFindNodeRequest X V (getCtx a port E) i target e replies = ((nodes, er), acts)"
    using assms by (auto simp: runNodesQuery_def MakeFindNodeRequest_def split: prod.splits if_splits)
  from findnode_request_nodes[OF this assms(2)] show ?thesis unfolding checked_entry_def using nodeFromRPC_ok by metis
qed

lemma from_peers_checked: "n \<in> from_peers (nodes_query X V target) \<Longrightarrow> checked_entry X V n"
  by (auto simp: from_peers_def nodes_query_def split: option.splits dest: runNodesQuery_checked)

lemma nodes_query_total: "\<exists>r. nodes_query X V target n r"
  unfolding nodes_query_def by (metis prod.collapse)

section \<open>Properties\<close>

text \<open>C8: The running node refines the table's main loop: whatever packets arrive and whatever requests are made while the
  loop, its refreshes and its revalidations run, the table goes through states the loop reaches with calls of
  \<open>AddSeenNode\<close> alone, so it keeps its invariant; and the recorder counts every call it timed, as 200 or 404.\<close>

theorem node_run_refines_table:
  assumes "table_env X cnt lim near" and "reach (ph_init X L cfg) (ph_step X V cfg) (r, h)"
  shows "reach (run_init X L (dc_IgnoreLimits cfg)) (run_step X) r \<and> v_tab (ph_sub h) = r_tab r \<and> tab_inv X cnt lim near (v_tab (ph_sub h))
    \<and> (\<forall>l. rpcCounter (ph_recorder h) l = count_list (map fst (rpcHist (ph_recorder h))) l)
    \<and> lb_code ` fst ` set (rpcHist (ph_recorder h)) \<subseteq> {200, 404}"
proof -
  have i: "ph_inv X L cfg (r, h)" by (rule discovery_run.reach_inv[OF assms(2)])
  then have "run_inv X cnt lim near r" using table_env.run_reach[OF assms(1)] unfolding ph_inv_def by auto
  with i show ?thesis by (simp add: ph_inv_def run_inv_def recorder_ok_def)
qed

definition ex_ph :: "bool \<Rightarrow> (prefix_set, ex_db) PacketHandler" where
  "ex_ph on = \<lparr>ph_sub = (ex_v4 0)\<lparr>v_tab := ex_tab0\<rparr>, ph_recorder = newRecorder on\<rparr>"

definition ex_cfg :: disc_config where
  "ex_cfg = \<lparr>dc_Bootnodes = None, dc_RunTab = True, dc_IgnoreLimits = False\<rparr>"

lemma ex_ph_init: "ph_init (ex_env 0) default_limits ex_cfg (loop_start ex_tab0, ex_ph True)"
  unfolding ph_init_def
  by (intro exI[of _ 0] exI[of _ "[]"] exI[of _ True] exI[of _ "ex_v4 0"] exI[of _ "v_store (ex_v4 0)"] exI[of _ "ex_ph True"])
     (simp add: NewHandler_def v4_Setup_def config_Verify_def ex_cfg_def ex_tab0_new ex_ph_def)

theorem node_run_refines_table_witness:
  "let h = fst (snd (ph_Ping ex_ext (ex_ev (Inl ''timeout'')) (3 * Second) (Unwrap (ex_node 5 [1,2,3,4])) (ex_ph True))) in
   tab_inv (ex_env 0) ps_cnt ps_lim ps_near (v_tab (ph_sub h))
   \<and> rpcCounter (ph_recorder h) \<lparr>lb_method = ''PING/v4'', lb_code = 404, lb_external = False\<rparr> = 1"
proof -
  let ?l = "\<lparr>lb_method = ''PING/v4'', lb_code = 404, lb_external = False\<rparr>"
  let ?h = "fst (snd (ph_Ping ex_ext (ex_ev (Inl ''timeout'')) (3 * Second) (Unwrap (ex_node 5 [1,2,3,4])) (ex_ph True)))"
  have "reach (ph_init (ex_env 0) default_limits ex_cfg) (ph_step (ex_env 0) ex_ext ex_cfg) (loop_start ex_tab0, ex_ph True)"
    by (rule reach_init) (rule ex_ph_init)
  then have "reach (ph_init (ex_env 0) default_limits ex_cfg) (ph_step (ex_env 0) ex_ext ex_cfg) (share (loop_start ex_tab0) ?h)"
    by (rule reach_step) (rule ph_step.ping)
  note w = node_run_refines_table[OF ex_table.table_env_axioms this[unfolded share_def]]
  have "map fst (rpcHist (ph_recorder ?h)) = [?l]"
    by (simp add: ex_ph_def newRecorder_def ph_Ping_def MakePingRequest_def makePingRequest_def ex_ext_def ex_ev_def
        getCtx_def record_rpc_def RecordRpcRequest_def RecordRpcDuration_def record_code_def Let_def)
  then have "rpcCounter (ph_recorder ?h) ?l = 1" using w by simp
  with w show ?thesis unfolding Let_def by blast
qed

text \<open>C19: A random lookup over the v4 protocol always has an outcome, and its result is at most 16 distinct nodes ordered by
  their distance to the target; each is a node of the table or was built from an entry of a neighbours packet with a port
  above 1024, an address its sender may relay and a complete record. An empty table gives \<open>seed failure\<close>.\<close>

theorem random_lookup_checked:
  assumes "table_env X cnt lim near" and "tab_inv X cnt lim near tab" and "dist_order (x_DistCmp X) dist"
  shows "(\<exists>res. ph_LookupRandom X V target tab res)
    \<and> (\<forall>ns. ph_LookupRandom X V target tab (Inr ns) \<longrightarrow>
         length ns \<le> 16 \<and> distinct (map e_ID ns) \<and> sorted (map (\<lambda>n. dist (vx_Keccak V target) (e_ID n)) ns)
         \<and> (\<forall>n \<in> set ns. n \<in> Unwrap ` set (tab_nodes tab) \<or> (\<exists>a rn. nodeFromRPC X V a rn = Inr n \<and> 1024 < rn_UDP rn
              \<and> vx_CheckRelayIP V a (rn_IP rn) = None \<and> x_Validate X n = None)))
    \<and> (tab_nodes tab = [] \<longrightarrow> ph_LookupRandom X V target tab (Inl ''seed failure''))"
proof -
  note spec = LookupRandom_spec[OF assms, of "nodes_query X V target" "vx_Keccak V target"]
  have "\<forall>n. \<exists>r. nodes_query X V target n r" using nodes_query_total by blast
  note s = spec[OF this]
  have "n \<in> Unwrap ` set (tab_nodes tab) \<or> checked_entry X V n" if "ph_LookupRandom X V target tab (Inr ns)" "n \<in> set ns" for n ns
    using s that from_peers_checked unfolding ph_LookupRandom_def by blast
  with s show ?thesis unfolding ph_LookupRandom_def checked_entry_def by blast
qed

theorem random_lookup_checked_witness:
  "\<exists>res. ph_LookupRandom (ex_env 0) ex_ext [1] ex_tab res"
proof -
  have "dist_order (x_DistCmp (ex_env 0)) xor_dist" using xor_metric.dist_order_axioms by (simp add: ex_env_def)
  from random_lookup_checked[OF ex_table.table_env_axioms ex_tab_inv this, of ex_ext "[1]"] show ?thesis by blast
qed

text \<open>C24: A record request that succeeds was made over a bond: the peer pinged us within 24 hours (now or after the grace
  period), and we had its pong within 24 hours with few enough failures or it answered the ping sent now. The record is of
  the node asked for, never older than the one known, and a new one only with an address the sender may relay; the request
  leaves the sub handler as it was and is recorded as internal, with code 200.\<close>

theorem RequestENR_sound:
  assumes "ph_RequestENR V E dur now2 d2 ans n h = (Inr r, h', acts)"
  shows "(ev_now E - db_LastPing V (v_store (ph_sub h)) (e_ID n) (e_IP n) < bondExpiration
          \<or> now2 - db_LastPing V d2 (e_ID n) (e_IP n) < bondExpiration)
    \<and> (checkBond V (ev_now E) (e_ID n) (e_IP n) (v_store (ph_sub h))
          \<and> db_FindFails V (v_store (ph_sub h)) (e_ID n) (e_IP n) \<le> maxFindnodeFailures \<or> (\<exists>q. ev_ping E = Inr q))
    \<and> e_ID r = e_ID n \<and> e_Seq n \<le> e_Seq r \<and> (r = n \<or> vx_CheckRelayIP V (e_IP n) (e_IP r) = None)
    \<and> ph_sub h' = ph_sub h \<and> ph_recorder h' = record_rpc False dur (None, ''ENRREQUEST/v4'') (ph_recorder h)"
proof -
  let ?E = "getCtx (e_IP n) (e_UDP n) E"
  obtain s1 acts1 where b: "tryBond V ?E (e_ID n) (ev_ip ?E) now2 d2 (ph_sub h) = (True, s1, acts1)"
    and q: "fst (makeEnrRequest V ?E n ans) = Inr r" "ph_sub h' = s1"
      "ph_recorder h' = record_rpc False dur (None, ''ENRREQUEST/v4'') (ph_recorder h)"
    using assms by (auto simp: ph_RequestENR_def MakeEnrRequest_def split: prod.splits if_splits)
  obtain rec where "enr_result V (ev_ip ?E) n rec = Inr r"
    using q(1) by (auto simp: makeEnrRequest_def Let_def split: sum.splits)
  from enr_result_checked[OF this] tryBond_sound[OF b] q(2,3) show ?thesis by (auto simp: getCtx_def)
qed

theorem RequestENR_sound_witness:
  "let V = ex_ext\<lparr>vx_New := (\<lambda>r. Inr (Unwrap (ex_node 5 [1,2,3,4])))\<rparr>; h = \<lparr>ph_sub = ex_v4 (99 * Hour), ph_recorder = newRecorder True\<rparr> in
   checkBond V (100 * Hour) 5 [2] (v_store (ph_sub h))
   \<and> ph_sub (fst (snd (ph_RequestENR V (ex_ev (Inl [])) 0 0 (\<lambda>_. 0, \<lambda>_. 0) (Inr []) (Unwrap (ex_node 5 [2])) h))) = ph_sub h"
proof -
  let ?V = "ex_ext\<lparr>vx_New := (\<lambda>r. Inr (Unwrap (ex_node 5 [1,2,3,4])))\<rparr>"
  let ?h = "\<lparr>ph_sub = ex_v4 (99 * Hour), ph_recorder = newRecorder True\<rparr>"
  let ?n = "Unwrap (ex_node 5 [2])"
  let ?q = "ph_RequestENR ?V (ex_ev (Inl [])) 0 0 (\<lambda>_. 0, \<lambda>_. 0) (Inr []) ?n ?h"
  have r: "fst ?q = Inr (Unwrap (ex_node 5 [1,2,3,4]))"
    by (simp add: ph_RequestENR_def MakeEnrRequest_def makeEnrRequest_def enr_result_def tryBond_def checkBond_def getCtx_def ex_ext_def
        ex_ev_def ex_v4_def ex_node_def Unwrap_WrapNode time_defs bondExpiration_def maxFindnodeFailures_def)
  then have "?q = (Inr (Unwrap (ex_node 5 [1,2,3,4])), fst (snd ?q), snd (snd ?q))" by (metis prod.collapse)
  from RequestENR_sound[OF this] show ?thesis by (simp add: Let_def ex_ev_def ex_node_def Unwrap_WrapNode)
qed

end
