(* ===== verification/Commands.thy ===== *)
theory Commands
  imports Node_Handler Config
begin

text \<open>
  The commands of \<open>crawler/cmd/disc/v4/disc.go\<close> that make one request to each given node: \<open>discV4Ping\<close>,
  \<open>discV4AskRandom\<close> and \<open>discV4AskEnr\<close>, over the packet handler. A command parses its nodes, makes a handler and stops at
  the first error; what it logs per node is its output.
\<close>

section \<open>Definitions\<close>

fun ask_nodes :: "('n \<Rightarrow> 'h \<Rightarrow> (string + 'v) \<times> 'h) \<Rightarrow> 'n list \<Rightarrow> 'h \<Rightarrow> err \<times> ('n \<times> 'v) list \<times> 'h" where
  "ask_nodes q [] h = (None, [], h)"
| "ask_nodes q (n # ns) h =
     (case q n h of
        (Inl e, h') \<Rightarrow> (Some e, [], h')
      | (Inr v, h') \<Rightarrow> (case ask_nodes q ns h' of (e, out, h'') \<Rightarrow> (e, (n, v) # out, h'')))"

text \<open>\<open>nodes\<close> is the result of \<open>ParseNodes\<close>, \<open>made\<close> that of \<open>makeHandler\<close> (which opens a socket); the last component is the
  handler at the end, when there is one.\<close>

definition disc_command :: "(enode \<Rightarrow> 'h \<Rightarrow> (string + 'v) \<times> 'h) \<Rightarrow> string + enode list \<Rightarrow> string + 'h \<Rightarrow>
    err \<times> (enode \<times> 'v) list \<times> 'h option" where
  "disc_command q nodes made =
     (case nodes of
        Inl e \<Rightarrow> (Some e, [], None)
      | Inr ns \<Rightarrow>
          (case made of
             Inl e \<Rightarrow> (Some e, [], None)
           | Inr h \<Rightarrow> (case ask_nodes q ns h of (e, out, h') \<Rightarrow> (e, out, Some h'))))"

definition err_result :: "'v \<Rightarrow> err \<Rightarrow> string + 'v" where
  "err_result v e = (case e of None \<Rightarrow> Inr v | Some x \<Rightarrow> Inl x)"

text \<open>What the network and the clock give for a request to node \<open>n\<close>.\<close>

record 'db weather =
  wt_env :: "enode \<Rightarrow> v4_env"
  wt_dur :: "enode \<Rightarrow> int"
  wt_now2 :: "enode \<Rightarrow> int"
  wt_db2 :: "enode \<Rightarrow> 'db"
  wt_err :: "enode \<Rightarrow> err"
  wt_replies :: "enode \<Rightarrow> rpc_node list list"
  wt_enr :: "enode \<Rightarrow> string + u8 list"
  wt_rand :: "enode \<Rightarrow> pubkey"

definition ask_ping :: "'db v4_ext \<Rightarrow> 'db weather \<Rightarrow> enode \<Rightarrow> ('s, 'db) PacketHandler \<Rightarrow> (string + u64) \<times> ('s, 'db) PacketHandler" where
  "ask_ping V w n h = (case ph_Ping V (wt_env w n) (wt_dur w n) n h of ((q, e), h', _) \<Rightarrow> (err_result q e, h'))"

definition ask_for_nodes :: "'s table_ext \<Rightarrow> 'db v4_ext \<Rightarrow> 'db weather \<Rightarrow> enode \<Rightarrow> ('s, 'db) PacketHandler \<Rightarrow>
    (string + enode list) \<times> ('s, 'db) PacketHandler" where
  "ask_for_nodes X V w n h =
     (case AskForRandomNodes X V (wt_env w n) (wt_dur w n) (wt_now2 w n) (wt_db2 w n) (wt_err w n) (wt_replies w n) (wt_rand w n) n h of
        ((ns, e), h', _) \<Rightarrow> (err_result ns e, h'))"

definition ask_enr :: "'db v4_ext \<Rightarrow> 'db weather \<Rightarrow> enode \<Rightarrow> ('s, 'db) PacketHandler \<Rightarrow>
    (string + string list) \<times> ('s, 'db) PacketHandler" where
  "ask_enr V w n h =
     (case ph_RequestENR V (wt_env w n) (wt_dur w n) (wt_now2 w n) (wt_db2 w n) (wt_enr w n) n h of
        (r, h', _) \<Rightarrow> (map_sum id e_Keys r, h'))"

definition discV4Ping :: "(string \<Rightarrow> string + enode) \<Rightarrow> 'db v4_ext \<Rightarrow> 'db weather \<Rightarrow> cli \<Rightarrow> string + ('s, 'db) PacketHandler \<Rightarrow>
    err \<times> (enode \<times> u64) list \<times> ('s, 'db) PacketHandler option" where
  "discV4Ping ParseV4 V w ctx made = disc_command (ask_ping V w) (ParseNodes ParseV4 ctx) made"

definition discV4AskRandom :: "(string \<Rightarrow> string + enode) \<Rightarrow> 's table_ext \<Rightarrow> 'db v4_ext \<Rightarrow> 'db weather \<Rightarrow> cli \<Rightarrow>
    string + ('s, 'db) PacketHandler \<Rightarrow> err \<times> (enode \<times> enode list) list \<times> ('s, 'db) PacketHandler option" where
  "discV4AskRandom ParseV4 X V w ctx made = disc_command (ask_for_nodes X V w) (ParseNodes ParseV4 ctx) made"

definition discV4AskEnr :: "(string \<Rightarrow> string + enode) \<Rightarrow> 'db v4_ext \<Rightarrow> 'db weather \<Rightarrow> cli \<Rightarrow> string + ('s, 'db) PacketHandler \<Rightarrow>
    err \<times> (enode \<times> string list) list \<times> ('s, 'db) PacketHandler option" where
  "discV4AskEnr ParseV4 V w ctx made = disc_command (ask_enr V w) (ParseNodes ParseV4 ctx) made"

section \<open>Lemmas\<close>

text \<open>A command answers for a prefix of its nodes, in order, and for all of them exactly when it reports no error.\<close>

lemma ask_nodes_prefix:
  "ask_nodes q ns h = (e, out, h') \<Longrightarrow>
    map fst out = take (length out) ns \<and> length out \<le> length ns \<and> (e = None \<longleftrightarrow> length out = length ns)"
proof (induction ns arbitrary: e out h h')
  case (Cons n ns)
  then show ?case by (fastforce split: prod.splits sum.splits)
qed simp

text \<open>What every answer satisfies, whatever the state of the handler.\<close>

lemma ask_nodes_all:
  assumes "\<And>n h v h'. q n h = (Inr v, h') \<Longrightarrow> P n v"
  shows "ask_nodes q ns h = (e, out, h') \<Longrightarrow> \<forall>(n, v) \<in> set out. P n v"
proof (induction ns arbitrary: e out h h')
  case (Cons n ns)
  then show ?case using assms by (fastforce split: prod.splits sum.splits)
qed simp

lemma disc_commandE:
  assumes "disc_command q nodes made = (e, out, h')"
  obtains x where "e = Some x" "out = []"
  | ns h h'' where "nodes = Inr ns" "made = Inr h" "ask_nodes q ns h = (e, out, h'')"
  using assms by (auto simp: disc_command_def split: sum.splits prod.splits)

text \<open>The random-nodes command prints only nodes that passed the checks on received entries.\<close>

lemma discV4AskRandom_checked:
  assumes "discV4AskRandom ParseV4 X V w ctx made = (e, out, h')" and "(n, ns) \<in> set out" and "m \<in> set ns"
  shows "checked_entry X V m"
proof -
  have "\<forall>m \<in> set v. checked_entry X V m" if "ask_for_nodes X V w n h = (Inr v, h')" for n h v h'
  proof -
    obtain ns er h2 acts where q: "AskForRandomNodes X V (wt_env w n) (wt_dur w n) (wt_now2 w n) (wt_db2 w n) (wt_err w n)
        (wt_replies w n) (wt_rand w n) n h = ((ns, er), h2, acts)" by (metis prod.collapse)
    then have "v = ns" using that by (auto simp: ask_for_nodes_def err_result_def split: option.splits)
    with q show ?thesis unfolding AskForRandomNodes_def by (metis fst_conv runNodesQuery_checked)
  qed
  from ask_nodes_all[of "ask_for_nodes X V w" "\<lambda>n v. \<forall>m \<in> set v. checked_entry X V m", OF this] assms
  show ?thesis unfolding discV4AskRandom_def by (elim disc_commandE) fastforce+
qed

end
