(* ===== verification/Throttle.thy ===== *)
theory Throttle
  imports Udp
begin

text \<open>
  The writer of \<open>crawler/net/discovery/writer.go\<close> in time. Each key (packet kind, IPv4 address) has a limiter of package
  \<open>golang.org/x/time/rate\<close>, made at its first use and kept (\<open>LoadOrStore\<close>); \<open>Wait\<close> returns when the limiter permits
  the event. The limiter is outside the repository: an argument \<open>'l limiter_api\<close>, of which only the documented bound of a
  token bucket is used (\<open>limiter_ok\<close>). Writes run concurrently; the times at which they take the limiters rise.
\<close>

section \<open>Limiters\<close>

text \<open>\<open>rate.NewLimiter(rate.Every(interval), burst)\<close>, and \<open>Wait\<close> called at a time: when it returns, and the limiter then.\<close>

record 'l limiter_api =
  la_New :: "int \<Rightarrow> int \<Rightarrow> 'l"
  la_Wait :: "int \<Rightarrow> 'l \<Rightarrow> int \<times> 'l"

fun waits :: "'l limiter_api \<Rightarrow> 'l \<Rightarrow> int list \<Rightarrow> int list \<times> 'l" where
  "waits A l [] = ([], l)"
| "waits A l (now # nows) =
     (case la_Wait A now l of (t, l1) \<Rightarrow> (case waits A l1 nows of (ts, l2) \<Rightarrow> (t # ts, l2)))"

text \<open>The documented contract: \<open>Wait\<close> does not return before it is called, and of a bucket of \<open>burst\<close> tokens, refilled by one
  every \<open>interval\<close>, at most \<open>burst\<close> plus the elapsed intervals are taken.\<close>

definition limiter_ok :: "'l limiter_api \<Rightarrow> bool" where
  "limiter_ok A \<longleftrightarrow> (\<forall>now l. now \<le> fst (la_Wait A now l))
     \<and> (\<forall>interval burst nows T0 T. 0 < interval \<longrightarrow> 1 \<le> burst \<longrightarrow> sorted (T0 # nows) \<longrightarrow> T0 \<le> T \<longrightarrow>
          int (length (filter (\<lambda>t. t \<le> T) (fst (waits A (la_New A interval burst) nows)))) \<le> burst + (T - T0) div interval)"

section \<open>Throttled keys\<close>

text \<open>\<open>throtter\<close> with its cache of limiters; \<open>tt_log\<close> lists key, time of call and time of return of every wait.\<close>

record ('k, 'l) timed =
  tt_conf :: "'k throtter"
  tt_lims :: "'k \<Rightarrow> 'l option"
  tt_log :: "('k \<times> int \<times> int) list"

definition new_timed :: "'k throtter \<Rightarrow> ('k, 'l) timed" where
  "new_timed c = \<lparr>tt_conf = c, tt_lims = (\<lambda>_. None), tt_log = []\<rparr>"

definition timed_wait :: "'l limiter_api \<Rightarrow> int \<Rightarrow> 'k \<Rightarrow> ('k, 'l) timed \<Rightarrow> int \<times> ('k, 'l) timed" where
  "timed_wait A now k s =
     (if \<not> th_shouldThrottle (tt_conf s) then (now, s)
      else
        let l = (case tt_lims s k of Some l \<Rightarrow> l | None \<Rightarrow> la_New A (th_interval (tt_conf s)) (th_amount (tt_conf s))) in
        case la_Wait A now l of (t, l') \<Rightarrow> (t, s\<lparr>tt_lims := (tt_lims s)(k \<mapsto> l'), tt_log := tt_log s @ [(k, now, t)]\<rparr>))"

section \<open>The writer at work\<close>

text \<open>
  A call of \<open>write\<close> waits for its packet kind, then for the address when it is an IPv4 one, then writes. \<open>tw_passing\<close> are
  the calls past the first limiter with the time it returned; \<open>tw_sent\<close> the packets with the times the two limiters
  returned and the time of writing.
\<close>

record 'l timed_writer =
  tw_packet :: "(u8, 'l) timed"
  tw_ip :: "(ip, 'l) timed"
  tw_clock :: int
  tw_passing :: "(u8 \<times> ip \<times> int) list"
  tw_sent :: "(u8 \<times> ip \<times> int \<times> int \<times> int) list"

definition timed_start :: "writer \<Rightarrow> int \<Rightarrow> 'l timed_writer" where
  "timed_start w T0 = \<lparr>tw_packet = new_timed (packetThrotter w), tw_ip = new_timed (ipThrotter w), tw_clock = T0,
     tw_passing = [], tw_sent = []\<rparr>"

inductive write_step :: "'l limiter_api \<Rightarrow> 'l timed_writer \<Rightarrow> 'l timed_writer \<Rightarrow> bool" for A :: "'l limiter_api" where
  wait_packet: "tw_clock s \<le> now \<Longrightarrow> timed_wait A now kind (tw_packet s) = (t, p) \<Longrightarrow>
    write_step A s (s\<lparr>tw_packet := p, tw_clock := now, tw_passing := tw_passing s @ [(kind, addr, t)]\<rparr>)"
| wait_ip: "tw_passing s = xs @ (kind, addr, t1) # ys \<Longrightarrow> To4 addr = Some k \<Longrightarrow> tw_clock s \<le> now \<Longrightarrow> t1 \<le> now \<Longrightarrow>
    timed_wait A now k (tw_ip s) = (t2, q) \<Longrightarrow> t2 \<le> t \<Longrightarrow>
    write_step A s (s\<lparr>tw_ip := q, tw_clock := now, tw_passing := xs @ ys, tw_sent := tw_sent s @ [(kind, addr, t1, t2, t)]\<rparr>)"
| no_ip: "tw_passing s = xs @ (kind, addr, t1) # ys \<Longrightarrow> To4 addr = None \<Longrightarrow> t1 \<le> t \<Longrightarrow>
    write_step A s (s\<lparr>tw_passing := xs @ ys, tw_sent := tw_sent s @ [(kind, addr, t1, t1, t)]\<rparr>)"

section \<open>Lemmas\<close>

lemma waits_snoc:
  "waits A l (nows @ [now]) =
     (case waits A l nows of (ts, l1) \<Rightarrow> (case la_Wait A now l1 of (t, l2) \<Rightarrow> (ts @ [t], l2)))"
  by (induction nows arbitrary: l) (auto split: prod.splits)

text \<open>What was logged for a key: the times of the calls and of the returns.\<close>

definition calls_of :: "'k \<Rightarrow> ('k, 'l) timed \<Rightarrow> int list" where
  "calls_of k s = map (\<lambda>(_, now, _). now) (filter (\<lambda>e. fst e = k) (tt_log s))"

definition returns_of :: "'k \<Rightarrow> ('k, 'l) timed \<Rightarrow> int list" where
  "returns_of k s = map (\<lambda>(_, _, t). t) (filter (\<lambda>e. fst e = k) (tt_log s))"

text \<open>Every key is served by one limiter, started with the configured interval and burst.\<close>

definition timed_inv :: "'l limiter_api \<Rightarrow> int \<Rightarrow> int \<Rightarrow> ('k, 'l) timed \<Rightarrow> bool" where
  "timed_inv A T0 clock s \<longleftrightarrow>
     (\<forall>k. waits A (la_New A (th_interval (tt_conf s)) (th_amount (tt_conf s))) (calls_of k s)
            = (returns_of k s, case tt_lims s k of Some l \<Rightarrow> l | None \<Rightarrow> la_New A (th_interval (tt_conf s)) (th_amount (tt_conf s)))
        \<and> sorted (T0 # calls_of k s @ [clock]))"

lemma timed_inv_new: "T0 \<le> clock \<Longrightarrow> timed_inv A T0 clock (new_timed c)"
  by (simp add: timed_inv_def new_timed_def calls_of_def returns_of_def)

lemma timed_inv_later: "timed_inv A T0 clock s \<Longrightarrow> clock \<le> now \<Longrightarrow> timed_inv A T0 now s"
  unfolding timed_inv_def by (fastforce simp: sorted_append)

lemma timed_inv_wait:
  assumes "timed_inv A T0 clock s" "clock \<le> now" "timed_wait A now k s = (t, s')"
  shows "timed_inv A T0 now s'" and "tt_conf s' = tt_conf s"
proof -
  show c: "tt_conf s' = tt_conf s" using assms(3) by (auto simp: timed_wait_def Let_def split: if_splits prod.splits)
  note later = timed_inv_later[OF assms(1,2)]
  show "timed_inv A T0 now s'"
  proof (cases "th_shouldThrottle (tt_conf s)")
    case True
    let ?l = "\<lambda>k. case tt_lims s k of Some l \<Rightarrow> l | None \<Rightarrow> la_New A (th_interval (tt_conf s)) (th_amount (tt_conf s))"
    obtain l' where w: "la_Wait A now (?l k) = (t, l')"
      and s': "s' = s\<lparr>tt_lims := (tt_lims s)(k \<mapsto> l'), tt_log := tt_log s @ [(k, now, t)]\<rparr>"
      using assms(3) True by (auto simp: timed_wait_def Let_def split: prod.splits)
    have other: "calls_of j s' = calls_of j s" "returns_of j s' = returns_of j s" if "j \<noteq> k" for j
      using that by (simp_all add: s' calls_of_def returns_of_def)
    have mine: "calls_of k s' = calls_of k s @ [now]" "returns_of k s' = returns_of k s @ [t]"
      by (simp_all add: s' calls_of_def returns_of_def)
    have lims: "tt_lims s' = (tt_lims s)(k \<mapsto> l')" by (simp add: s')
    have old: "waits A (la_New A (th_interval (tt_conf s)) (th_amount (tt_conf s))) (calls_of j s) = (returns_of j s, ?l j)"
      "sorted (T0 # calls_of j s @ [now])" for j using later by (simp_all add: timed_inv_def)
    have "waits A (la_New A (th_interval (tt_conf s)) (th_amount (tt_conf s))) (calls_of k s') = (returns_of k s', l')"
      using old(1)[of k] w by (simp add: mine waits_snoc)
    moreover have "sorted (T0 # calls_of k s' @ [now])" using old(2)[of k] by (auto simp: mine sorted_append)
    ultimately show ?thesis
      unfolding timed_inv_def c lims using old other by (metis fun_upd_apply option.simps(5))
  next
    case False
    then show ?thesis using assms(3) later by (simp add: timed_wait_def)
  qed
qed

lemma timed_bound:
  assumes "limiter_ok A" "timed_inv A T0 clock s" "0 < th_interval (tt_conf s)" "1 \<le> th_amount (tt_conf s)" "T0 \<le> T"
  shows "int (length (filter (\<lambda>t. t \<le> T) (returns_of k s))) \<le> th_amount (tt_conf s) + (T - T0) div th_interval (tt_conf s)"
proof -
  let ?l = "la_New A (th_interval (tt_conf s)) (th_amount (tt_conf s))"
  have "fst (waits A ?l (calls_of k s)) = returns_of k s" "sorted (T0 # calls_of k s)"
    using assms(2) by (simp_all add: timed_inv_def sorted_append)
  then show ?thesis using assms(1,3-5) unfolding limiter_ok_def by metis
qed

text \<open>The packets written and those on their way are what the first limiters let through; the IPv4 packets written are what
  the second let through.\<close>

definition first_pass :: "'l timed_writer \<Rightarrow> (u8 \<times> int) multiset" where
  "first_pass s = mset (map (\<lambda>(k, _, t). (k, t)) (tw_passing s)) + mset (map (\<lambda>(k, _, t1, _). (k, t1)) (tw_sent s))"

definition second_pass :: "'l timed_writer \<Rightarrow> (ip \<times> int) multiset" where
  "second_pass s = mset (map (\<lambda>(_, a, _, t2, _). (the (To4 a), t2)) (filter (\<lambda>e. To4 (fst (snd e)) \<noteq> None) (tw_sent s)))"

definition log_of :: "('k, 'l) timed \<Rightarrow> ('k \<times> int) multiset" where
  "log_of s = mset (map (\<lambda>(k, _, t). (k, t)) (tt_log s))"

definition writer_inv :: "'l limiter_api \<Rightarrow> writer \<Rightarrow> int \<Rightarrow> 'l timed_writer \<Rightarrow> bool" where
  "writer_inv A w T0 s \<longleftrightarrow> T0 \<le> tw_clock s \<and> timed_inv A T0 (tw_clock s) (tw_packet s) \<and> timed_inv A T0 (tw_clock s) (tw_ip s)
     \<and> tt_conf (tw_packet s) = packetThrotter w \<and> tt_conf (tw_ip s) = ipThrotter w
     \<and> first_pass s = log_of (tw_packet s) \<and> second_pass s = log_of (tw_ip s)
     \<and> (\<forall>(k, a, t1, t2, t) \<in> set (tw_sent s). t1 \<le> t \<and> t2 \<le> t)"

lemma log_of_wait:
  "timed_wait A now k s = (t, s') \<Longrightarrow> th_shouldThrottle (tt_conf s) \<Longrightarrow> log_of s' = add_mset (k, t) (log_of s)"
  by (auto simp: timed_wait_def log_of_def Let_def split: prod.splits)

lemma wait_after: "limiter_ok A \<Longrightarrow> timed_wait A now k s = (t, s') \<Longrightarrow> now \<le> t"
  unfolding limiter_ok_def by (auto simp: timed_wait_def Let_def split: if_splits prod.splits) (metis fst_conv)

lemma writer_inv_step:
  assumes "limiter_ok A" "th_shouldThrottle (packetThrotter w)" "th_shouldThrottle (ipThrotter w)"
    and "write_step A s s'" and i: "writer_inv A w T0 s"
  shows "writer_inv A w T0 s'"
  using assms(4)
proof cases
  case (wait_packet now kind t p addr)
  note ti = timed_inv_wait[OF _ wait_packet(2,3), of T0]
  have "log_of p = add_mset (kind, t) (log_of (tw_packet s))"
    using log_of_wait[OF wait_packet(3)] i assms(2) by (simp add: writer_inv_def)
  with i ti wait_packet(2) show ?thesis
    unfolding wait_packet(1) by (auto simp: writer_inv_def first_pass_def second_pass_def intro: timed_inv_later)
next
  case (wait_ip xs kind addr t1 ys k now t2 q t)
  note ti = timed_inv_wait[OF _ wait_ip(4,6), of T0]
  have "log_of q = add_mset (k, t2) (log_of (tw_ip s))"
    using log_of_wait[OF wait_ip(6)] i assms(3) by (simp add: writer_inv_def)
  moreover have "t1 \<le> t" using wait_after[OF assms(1) wait_ip(6)] wait_ip(5,7) by simp
  ultimately show ?thesis
    using i ti wait_ip unfolding wait_ip(1) by (auto simp: writer_inv_def first_pass_def second_pass_def intro: timed_inv_later)
next
  case (no_ip xs kind addr t1 ys t)
  then show ?thesis using i unfolding no_ip(1) by (auto simp: writer_inv_def first_pass_def second_pass_def)
qed


interpretation writer_sys: inv_system "\<lambda>s. s = timed_start w T0" "write_step A"
  "\<lambda>s. limiter_ok A \<longrightarrow> th_shouldThrottle (packetThrotter w) \<longrightarrow> th_shouldThrottle (ipThrotter w) \<longrightarrow> writer_inv A w T0 s"
  for A :: "'l limiter_api" and w T0
proof
  fix s :: "'l timed_writer"
  assume "s = timed_start w T0"
  then show "limiter_ok A \<longrightarrow> th_shouldThrottle (packetThrotter w) \<longrightarrow> th_shouldThrottle (ipThrotter w) \<longrightarrow> writer_inv A w T0 s"
    by (simp add: timed_start_def writer_inv_def timed_inv_new first_pass_def second_pass_def log_of_def new_timed_def[of "packetThrotter w"]
        new_timed_def[of "ipThrotter w"]) (simp add: timed_inv_new flip: new_timed_def)
qed (use writer_inv_step in blast)

text \<open>The waits logged for a key, as a multiset and as a list.\<close>

lemma log_of_returns:
  "size (filter_mset (\<lambda>(j, t). j = k \<and> t \<le> T) (log_of s)) = length (filter (\<lambda>t. t \<le> T) (returns_of k s))"
proof -
  have "size (filter_mset (\<lambda>(j, t). j = k \<and> t \<le> T) (mset (map (\<lambda>(k, _, t). (k, t)) es)))
      = length (filter (\<lambda>t. t \<le> T) (map (\<lambda>(_, _, t). t) (filter (\<lambda>e. fst e = k) es)))" for es :: "('a \<times> int \<times> int) list"
    by (induction es) auto
  then show ?thesis by (simp add: log_of_def returns_of_def)
qed

definition sent_kind :: "u8 \<Rightarrow> int \<Rightarrow> 'l timed_writer \<Rightarrow> nat" where
  "sent_kind kind T s = length (filter (\<lambda>(k, _, _, _, t). k = kind \<and> t \<le> T) (tw_sent s))"

definition sent_to :: "ip \<Rightarrow> int \<Rightarrow> 'l timed_writer \<Rightarrow> nat" where
  "sent_to a T s = length (filter (\<lambda>(_, b, _, _, t). To4 b = To4 a \<and> t \<le> T) (tw_sent s))"

lemma sent_kind_le:
  assumes "writer_inv A w T0 s"
  shows "sent_kind kind T s \<le> length (filter (\<lambda>t. t \<le> T) (returns_of kind (tw_packet s)))"
proof -
  have "length (filter (\<lambda>(k, _, _, _, t). k = kind \<and> t \<le> T) es)
      \<le> size (filter_mset (\<lambda>(j, t). j = kind \<and> t \<le> T) (mset (map (\<lambda>(k, _, t1, _). (k, t1)) es)))"
    if "\<forall>(k, a, t1, t2, t) \<in> set es. t1 \<le> t \<and> t2 \<le> t" for es :: "(u8 \<times> ip \<times> int \<times> int \<times> int) list"
    using that by (induction es) auto
  moreover have "\<forall>(k, a, t1, t2, t) \<in> set (tw_sent s). t1 \<le> t \<and> t2 \<le> t" using assms by (simp add: writer_inv_def)
  ultimately have "sent_kind kind T s \<le> size (filter_mset (\<lambda>(j, t). j = kind \<and> t \<le> T) (first_pass s))"
    unfolding sent_kind_def first_pass_def by (simp add: trans_le_add2)
  then show ?thesis using assms by (simp add: writer_inv_def log_of_returns)
qed

lemma sent_to_le:
  assumes "writer_inv A w T0 s" "To4 a = Some k"
  shows "sent_to a T s \<le> length (filter (\<lambda>t. t \<le> T) (returns_of k (tw_ip s)))"
proof -
  have "length (filter (\<lambda>(_, b, _, _, t). To4 b = To4 a \<and> t \<le> T) es)
      \<le> size (filter_mset (\<lambda>(j, t). j = k \<and> t \<le> T)
          (mset (map (\<lambda>(_, a, _, t2, _). (the (To4 a), t2)) (filter (\<lambda>e. To4 (fst (snd e)) \<noteq> None) es))))"
    if "\<forall>(k, a, t1, t2, t) \<in> set es. t1 \<le> t \<and> t2 \<le> t" for es :: "(u8 \<times> ip \<times> int \<times> int \<times> int) list"
    using that assms(2) by (induction es) auto
  moreover have "\<forall>(k, a, t1, t2, t) \<in> set (tw_sent s). t1 \<le> t \<and> t2 \<le> t" using assms(1) by (simp add: writer_inv_def)
  ultimately have "sent_to a T s \<le> size (filter_mset (\<lambda>(j, t). j = k \<and> t \<le> T) (second_pass s))"
    unfolding sent_to_def second_pass_def by blast
  then show ?thesis using assms(1) by (simp add: writer_inv_def log_of_returns)
qed

section \<open>Throughput\<close>

text \<open>A limiter that grants one event per interval satisfies the contract.\<close>

definition spaced :: "(int \<times> int option) limiter_api" where
  "spaced = \<lparr>la_New = (\<lambda>interval _. (interval, None)),
     la_Wait = (\<lambda>now (i, last). let t = (case last of None \<Rightarrow> now | Some u \<Rightarrow> max now (u + i)) in (t, (i, Some t)))\<rparr>"

lemma spaced_after:
  assumes "0 < i"
  shows "int (length (filter (\<lambda>t. t \<le> T) (fst (waits spaced (i, Some u) nows)))) \<le> max 0 ((T - u) div i)"
proof (induction nows arbitrary: u)
  case (Cons now nows)
  let ?t = "max now (u + i)"
  have "?t \<le> T \<Longrightarrow> 1 + max 0 ((T - ?t) div i) \<le> max 0 ((T - u) div i)"
  proof -
    assume "?t \<le> T"
    then have "0 \<le> (T - ?t) div i" "(T - ?t) div i \<le> (T - (u + i)) div i" using assms by (auto intro: zdiv_mono1 simp: pos_imp_zdiv_nonneg_iff)
    moreover have "(T - u) div i = (T - (u + i)) div i + 1"
      using div_add_self2[of i "T - (u + i)"] assms by (simp add: algebra_simps)
    ultimately show ?thesis by simp
  qed
  moreover have "(T - ?t) div i \<le> (T - u) div i" using assms by (intro zdiv_mono1) auto
  ultimately show ?case using Cons.IH[of ?t] by (auto simp: spaced_def Let_def split: prod.splits)
qed simp

lemma spaced_ok: "limiter_ok spaced"
  unfolding limiter_ok_def
proof (intro conjI allI impI)
  fix interval burst T0 T :: int and nows :: "int list"
  assume a: "0 < interval" "1 \<le> burst" "sorted (T0 # nows)" "T0 \<le> T"
  show "int (length (filter (\<lambda>t. t \<le> T) (fst (waits spaced (la_New spaced interval burst) nows)))) \<le> burst + (T - T0) div interval"
  proof (cases nows)
    case Nil
    then show ?thesis using a by (simp add: pos_imp_zdiv_nonneg_iff)
  next
    case (Cons n ns)
    have "0 \<le> (T - T0) div interval" "(T - n) div interval \<le> (T - T0) div interval"
      using a Cons by (auto intro: zdiv_mono1 simp: pos_imp_zdiv_nonneg_iff)
    then show ?thesis
      using spaced_after[OF a(1), of T n ns] a(2) Cons
      by (auto simp: spaced_def Let_def split: prod.splits)
  qed
qed (auto simp: spaced_def Let_def split: option.splits)

text \<open>C25: Throughput of a writer built with both throttles, in every interleaving of its callers: from \<open>T0\<close> to \<open>T\<close> it writes at most
  \<open>n\<close> packets of a kind plus one per elapsed interval \<open>i\<close>, and to an IPv4 address at most \<open>m\<close> packets plus one per elapsed
  interval \<open>j\<close>.
\<close>

theorem writer_throughput:
  assumes "limiter_ok A" "0 < i" "0 < j" "1 \<le> n" "1 \<le> m" "T0 \<le> T"
    and "reach (\<lambda>s. s = timed_start (ThrottlePackets i n (ThrottleIp j m newWriter)) T0) (write_step A) s"
  shows "int (sent_kind kind T s) \<le> n + (T - T0) div i \<and> (To4 a \<noteq> None \<longrightarrow> int (sent_to a T s) \<le> m + (T - T0) div j)"
proof (intro conjI impI)
  let ?w = "ThrottlePackets i n (ThrottleIp j m newWriter)"
  have w: "writer_inv A ?w T0 s"
    using writer_sys.reach_inv[OF assms(7)] assms(1) by (simp add: ThrottlePackets_def ThrottleIp_def)
  then have c: "timed_inv A T0 (tw_clock s) (tw_packet s)" "timed_inv A T0 (tw_clock s) (tw_ip s)"
    "th_interval (tt_conf (tw_packet s)) = i" "th_amount (tt_conf (tw_packet s)) = n"
    "th_interval (tt_conf (tw_ip s)) = j" "th_amount (tt_conf (tw_ip s)) = m"
    by (simp_all add: writer_inv_def ThrottlePackets_def ThrottleIp_def)
  have "int (length (filter (\<lambda>t. t \<le> T) (returns_of kind (tw_packet s)))) \<le> n + (T - T0) div i"
    using timed_bound[OF assms(1) c(1), of T kind] c(3,4) assms by simp
  then show "int (sent_kind kind T s) \<le> n + (T - T0) div i" using sent_kind_le[OF w, of kind T] by simp
  assume "To4 a \<noteq> None"
  then obtain k where k: "To4 a = Some k" by blast
  have "int (length (filter (\<lambda>t. t \<le> T) (returns_of k (tw_ip s)))) \<le> m + (T - T0) div j"
    using timed_bound[OF assms(1) c(2), of T k] c(5,6) assms by simp
  then show "int (sent_to a T s) \<le> m + (T - T0) div j" using sent_to_le[OF w k, of T] by simp
qed

definition ex_writer :: writer where
  "ex_writer = ThrottlePackets Second 8192 (ThrottleIp Second 32 newWriter)"

definition ex_waiting :: "(int \<times> int option) timed_writer" where
  "ex_waiting = (let s = timed_start ex_writer 0 in s\<lparr>tw_packet := snd (timed_wait spaced 5 1 (tw_packet s)), tw_clock := 5,
     tw_passing := tw_passing s @ [(1, [9,9,9,9], 5)]\<rparr>)"

lemma ex_waiting_reach: "reach (\<lambda>s. s = timed_start ex_writer 0) (write_step spaced) ex_waiting"
proof (rule reach_step)
  show "reach (\<lambda>s. s = timed_start ex_writer 0) (write_step spaced) (timed_start ex_writer 0)" by (rule reach_init) (rule refl)
  have "timed_wait spaced 5 1 (tw_packet (timed_start ex_writer 0)) = (5, snd (timed_wait spaced 5 1 (tw_packet (timed_start ex_writer 0))))"
    by (simp add: timed_wait_def spaced_def timed_start_def new_timed_def ex_writer_def ThrottlePackets_def ThrottleIp_def)
  from write_step.wait_packet[OF _ this, of "[9,9,9,9]"]
  show "write_step spaced (timed_start ex_writer 0) ex_waiting"
    by (simp add: ex_waiting_def Let_def timed_start_def)
qed

lemma ex_sent_reach:
  "\<exists>s. reach (\<lambda>s. s = timed_start ex_writer 0) (write_step spaced) s \<and> tw_sent s = [(1, [9,9,9,9], 5, 6, 7)]"
proof -
  obtain q where q: "timed_wait spaced 6 [9,9,9,9] (tw_ip ex_waiting) = (6, q)"
    by (simp add: ex_waiting_def Let_def timed_wait_def spaced_def timed_start_def new_timed_def ex_writer_def ThrottlePackets_def ThrottleIp_def)
  let ?s = "ex_waiting\<lparr>tw_ip := q, tw_clock := 6, tw_passing := [], tw_sent := tw_sent ex_waiting @ [(1, [9,9,9,9], 5, 6, 7)]\<rparr>"
  have "write_step spaced ex_waiting ?s"
    using write_step.wait_ip[of ex_waiting "[]" 1 "[9,9,9,9]" 5 "[]" "[9,9,9,9]" 6 spaced 6 q 7] q
    by (simp add: To4_def ex_waiting_def Let_def timed_start_def)
  then have "reach (\<lambda>s. s = timed_start ex_writer 0) (write_step spaced) ?s" by (rule reach_step[OF ex_waiting_reach])
  moreover have "tw_sent ?s = [(1, [9,9,9,9], 5, 6, 7)]" by (simp add: ex_waiting_def Let_def timed_start_def)
  ultimately show ?thesis by blast
qed

theorem writer_throughput_witness:
  "\<exists>s. sent_kind 1 Second (s :: (int \<times> int option) timed_writer) = 1 \<and> sent_to [9,9,9,9] Second s = 1
     \<and> int (sent_kind 1 Second s) \<le> 8193 \<and> int (sent_to [9,9,9,9] Second s) \<le> 33"
proof -
  obtain s where s: "reach (\<lambda>s. s = timed_start (ThrottlePackets Second 8192 (ThrottleIp Second 32 newWriter)) 0) (write_step spaced) s"
    "tw_sent s = [(1, [9,9,9,9], 5, 6, 7)]" using ex_sent_reach unfolding ex_writer_def by blast
  have "0 < Second" by (simp add: time_defs)
  note t = writer_throughput[OF spaced_ok this this _ _ _ s(1), of Second 1 "[9,9,9,9]"]
  have "int (sent_kind 1 Second s) \<le> 8193" "int (sent_to [9,9,9,9] Second s) \<le> 33"
    using t by (simp_all add: To4_def time_defs)
  then show ?thesis using s(2) by (intro exI[of _ s]) (simp add: sent_kind_def sent_to_def time_defs To4_def)
qed

end
