(* ===== verification/Flow.thy ===== *)
theory Flow
  imports Handler V4
begin

text \<open>
  From the socket to the awaiter: the pool of packet workers (\<open>acceptor.go\<close>) runs the packet handlers, and a ping handler
  that has to ping back waits inside its worker for the pong (\<open>HandlePingRequest\<close>, \<open>execute\<close>), which itself must pass a worker
  to reach the response awaiter. The composition of \<open>Udp\<close> and \<open>Awaiter\<close> along these calls is a step relation.
\<close>

section \<open>Workers, handlers and the awaiter\<close>

text \<open>\<open>fl_await\<close>: the awaitable on which worker \<open>i\<close> is blocked in \<open>execute\<close>.\<close>

record ('j, 'c) flow =
  fl_acc :: "'j acceptor_run"
  fl_aw :: "'c awaiter"
  fl_await :: "nat \<Rightarrow> nat option"
  fl_clock :: int

definition flow_init :: "nat \<Rightarrow> int \<Rightarrow> ('j, 'c) flow" where
  "flow_init workers T = \<lparr>fl_acc = \<lparr>ar_pool = NewPoolAcceptor workers, ar_listeners = [], ar_stopping = False, ar_sending = [],
     ar_accepted = [], ar_handled = [], ar_dropped = []\<rparr>, fl_aw = NewAwaiter, fl_await = (\<lambda>_. None), fl_clock = T\<rparr>"

text \<open>Worker \<open>i\<close> is inside \<open>HandlePacket\<close> and not blocked.\<close>

definition handling :: "('j, 'c) flow \<Rightarrow> nat \<Rightarrow> bool" where
  "handling s i \<longleftrightarrow> i < length (ar_listeners (fl_acc s)) \<and> (\<exists>j. ar_listeners (fl_acc s) ! i = InHandler j) \<and> fl_await s i = None"

definition fresh_request :: "('j, 'c) flow \<Rightarrow> 'c awaitableRequest \<Rightarrow> bool" where
  "fresh_request s a \<longleftrightarrow> rq_ref a \<notin> set (known_refs (fl_aw s))"

text \<open>
  \<open>pool\<close>: the workers take and finish packets, a blocked one stays where it is. \<open>ping_peer\<close>: a handler sends its ping and
  waits. \<open>match_reply\<close>: a handler passes a reply to the awaiter. \<open>request\<close>: other goroutines make requests. \<open>resume\<close>: the
  awaitable of a blocked worker has been settled.
\<close>

inductive flow_step :: "('c \<Rightarrow> 'p response \<Rightarrow> bool \<times> bool \<times> 'c) \<Rightarrow> ('j, 'c) flow \<Rightarrow> ('j, 'c) flow \<Rightarrow> bool"
  for chk :: "'c \<Rightarrow> 'p response \<Rightarrow> bool \<times> bool \<times> 'c" where
  pool: "acceptor_step (fl_acc s) a \<Longrightarrow> (\<forall>i. fl_await s i \<noteq> None \<longrightarrow> ar_listeners a ! i = ar_listeners (fl_acc s) ! i) \<Longrightarrow>
    flow_step chk s (s\<lparr>fl_acc := a\<rparr>)"
| ping_peer: "handling s i \<Longrightarrow> fresh_request s a \<Longrightarrow> rq_Expiration a = unix (toUnix (fl_clock s + expiration)) \<Longrightarrow>
    flow_step chk s (s\<lparr>fl_aw := aw_step chk (Pending a) (fl_aw s), fl_await := (fl_await s)(i \<mapsto> rq_ref a)\<rparr>)"
| match_reply: "handling s i \<Longrightarrow> flow_step chk s (s\<lparr>fl_aw := aw_step chk (Reply (fl_clock s) r) (fl_aw s)\<rparr>)"
| request: "fresh_request s a \<Longrightarrow> flow_step chk s (s\<lparr>fl_aw := aw_step chk (Pending a) (fl_aw s)\<rparr>)"
| tick: "flow_step chk s (s\<lparr>fl_aw := aw_step chk (Tick (fl_clock s)) (fl_aw s)\<rparr>)"
| time: "fl_clock s \<le> t \<Longrightarrow> flow_step chk s (s\<lparr>fl_clock := t\<rparr>)"
| resume: "fl_await s i = Some ref \<Longrightarrow> ref \<in> fst ` set (aw_marks (fl_aw s)) \<Longrightarrow>
    flow_step chk s (s\<lparr>fl_await := (fl_await s)(i := None)\<rparr>)"

section \<open>A blocked pool\<close>

text \<open>Every worker waits for an answer to a request that is pending and not due before \<open>D\<close>.\<close>

definition stalled :: "int \<Rightarrow> ('j, 'c) flow \<Rightarrow> bool" where
  "stalled D s \<longleftrightarrow> pa_started (ar_pool (fl_acc s)) \<and> aw_inv (fl_aw s)
     \<and> (\<forall>i. fl_await s i \<noteq> None \<longrightarrow> i < length (ar_listeners (fl_acc s)))
     \<and> (\<forall>i < length (ar_listeners (fl_acc s)). (\<exists>j. ar_listeners (fl_acc s) ! i = InHandler j)
          \<and> (\<exists>a \<in> set (aw_queue (fl_aw s)). fl_await s i = Some (rq_ref a) \<and> D \<le> rq_Expiration a))"

lemma checkDeadlines_keeps:
  "checkDeadlines now q = (k, q', m) \<Longrightarrow> a \<in> set q \<Longrightarrow> \<not> overdue now a \<Longrightarrow> a \<in> set q'"
proof -
  have "a \<in> set (dropWhile (overdue now) xs)" if "a \<in> set xs" "\<not> overdue now a" for xs :: "'a awaitableRequest list"
    using that by (metis Un_iff set_append set_takeWhileD takeWhile_dropWhile_id)
  then show "checkDeadlines now q = (k, q', m) \<Longrightarrow> a \<in> set q \<Longrightarrow> \<not> overdue now a \<Longrightarrow> a \<in> set q'"
    by (auto simp: checkDeadlines_def expire_next_split split: list.splits if_splits)
qed

lemma queued_unmarked: "aw_inv s \<Longrightarrow> a \<in> set (aw_queue s) \<Longrightarrow> rq_ref a \<notin> fst ` set (aw_marks s)"
  by (auto simp: aw_inv_def known_refs_def)

text \<open>Requests and ticks before the deadlines leave the pending requests of the workers in the queue.\<close>

lemma stalled_aw:
  assumes "stalled D s" "aw_rel chk (fl_aw s) w" "\<forall>a \<in> set (aw_queue (fl_aw s)). D \<le> rq_Expiration a \<longrightarrow> a \<in> set (aw_queue w)"
  shows "stalled D (s\<lparr>fl_aw := w\<rparr>)"
  using assms aw_inv_step[OF _ assms(2)] unfolding stalled_def by fastforce

lemma stalled_pool:
  assumes "stalled D s" "acceptor_step (fl_acc s) a" "\<forall>i. fl_await s i \<noteq> None \<longrightarrow> ar_listeners a ! i = ar_listeners (fl_acc s) ! i"
  shows "stalled D (s\<lparr>fl_acc := a\<rparr>)" and "ar_handled a = ar_handled (fl_acc s)"
proof -
  have n: "ar_listeners (fl_acc s) \<noteq> us @ InSelect # vs" for us vs
  proof
    assume e: "ar_listeners (fl_acc s) = us @ InSelect # vs"
    then have "length us < length (ar_listeners (fl_acc s))" "ar_listeners (fl_acc s) ! length us = InSelect" by simp_all
    then show False using assms(1) unfolding stalled_def by (metis listen_phase.distinct(1))
  qed
  have h: "ar_listeners a \<noteq> us @ InSelect # vs" if "ar_listeners (fl_acc s) = us @ InHandler j # vs" for us j vs
  proof
    assume e: "ar_listeners a = us @ InSelect # vs"
    have "length us < length (ar_listeners (fl_acc s))" using that by simp
    then have "fl_await s (length us) \<noteq> None" using assms(1) unfolding stalled_def by (metis option.distinct(1))
    then have "ar_listeners a ! length us = ar_listeners (fl_acc s) ! length us" using assms(3) by blast
    then show False using e that by simp
  qed
  have "ar_listeners a = ar_listeners (fl_acc s) \<and> ar_handled a = ar_handled (fl_acc s) \<and> pa_started (ar_pool a)"
    using assms(2)
  proof cases
    case (handled us j vs)
    then show ?thesis using h[of us j vs] by simp
  qed (use assms(1) n in \<open>auto simp: stalled_def acceptor_start_def\<close>)
  then show "stalled D (s\<lparr>fl_acc := a\<rparr>)" and "ar_handled a = ar_handled (fl_acc s)"
    using assms(1) by (auto simp: stalled_def)
qed

lemma stalled_step:
  assumes "stalled D s" "fl_clock s < D" "flow_step chk s t"
  shows "stalled D t \<and> ar_handled (fl_acc t) = ar_handled (fl_acc s) \<and> fl_await t = fl_await s"
  using assms(3)
proof cases
  case (pool a)
  then show ?thesis using stalled_pool[OF assms(1)] by simp
next
  case (ping_peer i a)
  then show ?thesis using assms(1) by (auto simp: handling_def stalled_def)
next
  case (match_reply i r)
  then show ?thesis using assms(1) by (auto simp: handling_def stalled_def)
next
  case (request a)
  let ?w = "aw_step chk (aw_event.Pending a) (fl_aw s)"
  have "aw_rel chk (fl_aw s) ?w" using request(2) by (intro aw_rel.add) (simp add: fresh_request_def)
  from stalled_aw[OF assms(1) this] have "stalled D (s\<lparr>fl_aw := ?w\<rparr>)" by simp
  then show ?thesis unfolding request(1) by (simp del: aw_step.simps)
next
  case tick
  let ?w = "aw_step chk (Tick (fl_clock s)) (fl_aw s)"
  have "\<forall>a \<in> set (aw_queue (fl_aw s)). D \<le> rq_Expiration a \<longrightarrow> a \<in> set (aw_queue ?w)"
    using assms(2) by (auto simp: overdue_def dest: checkDeadlines_keeps split: prod.splits)
  moreover have "aw_rel chk (fl_aw s) ?w" by (rule aw_rel.event) simp
  ultimately have "stalled D (s\<lparr>fl_aw := ?w\<rparr>)" using stalled_aw[OF assms(1)] by blast
  then show ?thesis unfolding tick by (simp del: aw_step.simps)
next
  case (time t')
  then show ?thesis using assms(1) by (simp add: stalled_def)
next
  case (resume i ref)
  then have "i < length (ar_listeners (fl_acc s))" using assms(1) unfolding stalled_def by (metis option.distinct(1))
  then obtain a where "a \<in> set (aw_queue (fl_aw s))" "rq_ref a = ref"
    using assms(1) resume(2) unfolding stalled_def by (metis option.inject)
  then show ?thesis using queued_unmarked[of "fl_aw s" a] assms(1) resume(3) by (auto simp: stalled_def)
qed

text \<open>The state in which \<open>n\<close> workers have each taken the ping of an unbonded peer, and all of them ping back, is reached
  whatever the packets are.\<close>

definition ex_ping_req :: "'c \<Rightarrow> int \<Rightarrow> nat \<Rightarrow> 'c awaitableRequest" where
  "ex_ping_req c T k = \<lparr>rq_ref = k, rq_Id = of_nat k, rq_Ip = [1, 2, 3, 4], rq_ExpectedKind = 2, rq_Expiration = unix (toUnix (T + expiration)),
     rq_checker = c\<rparr>"

definition pinged :: "nat \<Rightarrow> 'c \<Rightarrow> int \<Rightarrow> nat \<Rightarrow> ('j, 'c) flow \<Rightarrow> bool" where
  "pinged n c T k s \<longleftrightarrow> fl_clock s = T \<and> ar_sending (fl_acc s) = [] \<and> pa_started (ar_pool (fl_acc s)) \<and> \<not> aw_done (fl_aw s)
     \<and> (\<exists>js. length js = k \<and> ar_listeners (fl_acc s) = map InHandler js @ replicate (n - k) InSelect)
     \<and> fl_await s = (\<lambda>i. if i < k then Some i else None) \<and> aw_queue (fl_aw s) = map (ex_ping_req c T) [0..<k] \<and> aw_marks (fl_aw s) = [] \<and> aw_current (fl_aw s) = go_quot upper 2
     \<and> ar_pool (fl_acc s) = (NewPoolAcceptor n)\<lparr>pa_started := True\<rparr>"

lemma pinged_first: "pinged n c T 0 (s\<lparr>fl_acc := acceptor_start (fl_acc s)\<rparr>)" if "s = flow_init n T"
  using that by (simp add: pinged_def flow_init_def acceptor_start_def NewPoolAcceptor_def NewAwaiter_def)

lemma pinged_next:
  fixes s :: "('j, 'c) flow" and chk :: "'c \<Rightarrow> 'p response \<Rightarrow> bool \<times> bool \<times> 'c"
  assumes "pinged n c T k s" "k < n" "reach I (flow_step chk) s"
  shows "\<exists>s'. reach I (flow_step chk) s' \<and> pinged n c T (Suc k) s'"
proof -
  obtain js where js: "length js = k" "ar_listeners (fl_acc s) = map InHandler js @ InSelect # replicate (n - Suc k) InSelect"
    using assms(1,2) unfolding pinged_def by (metis Suc_diff_Suc replicate_Suc)
  fix j :: 'j
  let ?a1 = "(fl_acc s)\<lparr>ar_sending := [j], ar_accepted := j # ar_accepted (fl_acc s)\<rparr>"
  let ?a2 = "?a1\<lparr>ar_sending := [], ar_listeners := map InHandler js @ InHandler j # replicate (n - Suc k) InSelect,
    ar_handled := j # ar_handled (fl_acc s)\<rparr>"
  let ?s1 = "s\<lparr>fl_acc := ?a1\<rparr>"
  let ?s2 = "?s1\<lparr>fl_acc := ?a2\<rparr>"
  let ?r = "ex_ping_req c T k"
  let ?s3 = "?s2\<lparr>fl_aw := aw_step chk (aw_event.Pending ?r) (fl_aw ?s2), fl_await := (fl_await ?s2)(k \<mapsto> rq_ref ?r)\<rparr>"
  have st: "acceptor_start (fl_acc s) = fl_acc s" "ar_sending (fl_acc s) = []" using assms(1) by (simp_all add: pinged_def acceptor_start_def)
  have "acceptor_step (fl_acc s) ?a1" using acceptor_step.accept[of "fl_acc s" j] st by simp
  then have "flow_step chk s ?s1" by (rule flow_step.pool) simp
  then have r1: "reach I (flow_step chk) ?s1" by (rule reach_step[OF assms(3)])
  have "acceptor_step ?a1 ?a2"
    using acceptor_step.hand[of ?a1 "[]" j "[]" "map InHandler js" "replicate (n - Suc k) InSelect"] js by simp
  then have "acceptor_step (fl_acc ?s1) ?a2" by simp
  then have "flow_step chk ?s1 ?s2"
    by (rule flow_step.pool) (use assms(1) js in \<open>auto simp: pinged_def nth_append split: if_splits\<close>)
  then have r2: "reach I (flow_step chk) ?s2" by (rule reach_step[OF r1])
  have "handling ?s2 k" using assms(1) js by (auto simp: handling_def pinged_def nth_append)
  moreover have "fresh_request ?s2 ?r" using assms(1) by (auto simp: fresh_request_def known_refs_def pinged_def ex_ping_req_def)
  moreover have "rq_Expiration ?r = unix (toUnix (fl_clock ?s2 + expiration))" using assms(1) by (simp add: ex_ping_req_def pinged_def)
  ultimately have "flow_step chk ?s2 ?s3" by (rule flow_step.ping_peer)
  then have "reach I (flow_step chk) ?s3" by (rule reach_step[OF r2])
  moreover have "pinged n c T (Suc k) ?s3"
    using assms(1) js by (auto simp: pinged_def ex_ping_req_def intro!: exI[of _ "js @ [j]"])
  ultimately show ?thesis by blast
qed

lemma pinged_all:
  assumes "k \<le> n"
  shows "\<exists>s :: ('j, 'c) flow. reach (\<lambda>s. s = flow_init n T) (flow_step chk) s \<and> pinged n c T k s"
  using assms
proof (induction k)
  case 0
  let ?s = "flow_init n T :: ('j, 'c) flow"
  have "flow_step chk ?s (?s\<lparr>fl_acc := acceptor_start (fl_acc ?s)\<rparr>)"
    by (rule flow_step.pool) (auto intro: acceptor_step.refuse simp: flow_init_def)
  moreover have "reach (\<lambda>s. s = flow_init n T) (flow_step chk) ?s" by (rule reach_init) (rule refl)
  ultimately have "reach (\<lambda>s. s = flow_init n T) (flow_step chk) (?s\<lparr>fl_acc := acceptor_start (fl_acc ?s)\<rparr>)"
    by (rule reach_step[rotated])
  then show ?case by (intro exI conjI) (assumption, rule pinged_first[OF refl])
next
  case (Suc k)
  then obtain s :: "('j, 'c) flow" where s: "reach (\<lambda>s. s = flow_init n T) (flow_step chk) s" "pinged n c T k s"
    using Suc_leD by blast
  show ?case by (rule pinged_next[OF s(2) Suc_le_lessD[OF Suc.prems] s(1)])
qed

lemma pinged_stalled: "pinged n c T n s \<Longrightarrow> D \<le> unix (toUnix (T + expiration)) \<Longrightarrow> stalled D s"
proof -
  assume p: "pinged n c T n s" and D: "D \<le> unix (toUnix (T + expiration))"
  then obtain js where js: "length js = n" "ar_listeners (fl_acc s) = map InHandler js" unfolding pinged_def by auto
  have "\<exists>a \<in> set (aw_queue (fl_aw s)). fl_await s i = Some (rq_ref a) \<and> D \<le> rq_Expiration a" if "i < n" for i
    using that p D by (intro bexI[of _ "ex_ping_req c T i"]) (simp_all add: pinged_def ex_ping_req_def)
  moreover have "distinct (map rq_ref (map (ex_ping_req c T) [0..<n]))" by (simp add: ex_ping_req_def comp_def)
  moreover from this have "aw_inv (fl_aw s)"
    using p aw_inv_init by (simp add: pinged_def aw_inv_def known_refs_def NewAwaiter_def)
  moreover have "\<forall>i. fl_await s i \<noteq> None \<longrightarrow> i < n" "pa_started (ar_pool (fl_acc s))" using p by (auto simp: pinged_def)
  ultimately show ?thesis using js by (simp add: stalled_def)
qed

section \<open>Property\<close>

text \<open>C9: Handlers that wait for a pong occupy the pool. When every packet worker is waiting for the answer to its own ping, no
  packet is taken from the socket's queue and no worker goes on before the first of these requests is due, whatever packets
  arrive (the awaited pongs among them) and whatever else the node does; the awaited requests stay pending.\<close>

theorem pings_stall_pool:
  assumes "stalled D s0" "reach (\<lambda>s. s = s0) (flow_step chk) s" "fl_clock s < D"
  shows "ar_handled (fl_acc s) = ar_handled (fl_acc s0) \<and> fl_await s = fl_await s0
    \<and> (\<forall>i < length (ar_listeners (fl_acc s)). \<exists>a \<in> set (aw_queue (fl_aw s)). fl_await s0 i = Some (rq_ref a))"
proof -
  have "stalled D s \<and> ar_handled (fl_acc s) = ar_handled (fl_acc s0) \<and> fl_await s = fl_await s0"
    using assms(2,3)
  proof (induction rule: reach.induct)
    case (reach_init s)
    then show ?case using assms(1) by simp
  next
    case (reach_step s t)
    have "fl_clock s \<le> fl_clock t" using reach_step(2) by (cases rule: flow_step.cases) auto
    then show ?case using reach_step stalled_step[of D s chk t] by auto
  qed
  then show ?thesis by (auto simp: stalled_def) (metis option.distinct(1))
qed

theorem pings_stall_pool_witness:
  "\<exists>(s0 :: (nat, unit) flow) (s :: (nat, unit) flow). reach (\<lambda>s. s = flow_init 4 0) (flow_step (\<lambda>c (r :: unit response). (True, True, c))) s0
     \<and> fl_clock s = 19 * Second \<and> 7 \<in> set (ar_sending (fl_acc s)) \<and> ar_handled (fl_acc s) = ar_handled (fl_acc s0) \<and> fl_await s 3 = Some 3"
proof -
  let ?c = "\<lambda>c (r :: unit response). (True, True, c)"
  obtain s0 :: "(nat, unit) flow" where s0: "reach (\<lambda>s. s = flow_init 4 0) (flow_step ?c) s0" "pinged 4 () 0 4 s0"
    using pinged_all[of 4 4 0 ?c "()"] by auto
  have st: "stalled (20 * Second) s0" by (rule pinged_stalled[OF s0(2)]) (simp add: expiration_def unix_def toUnix_def time_defs)
  let ?a = "(acceptor_start (fl_acc s0))\<lparr>ar_sending := 7 # ar_sending (fl_acc s0), ar_accepted := 7 # ar_accepted (fl_acc s0)\<rparr>"
  let ?s1 = "s0\<lparr>fl_acc := ?a\<rparr>"
  let ?s = "?s1\<lparr>fl_clock := 19 * Second\<rparr>"
  have "reach (\<lambda>s. s = s0) (flow_step ?c) s0" by (rule reach_init) (rule refl)
  moreover have "flow_step ?c s0 ?s1"
    by (rule flow_step.pool, rule acceptor_step.accept) (use s0(2) in \<open>simp add: pinged_def acceptor_start_def\<close>)
  ultimately have "reach (\<lambda>s. s = s0) (flow_step ?c) ?s1" by (rule reach_step)
  moreover have "flow_step ?c ?s1 ?s" by (rule flow_step.time) (use s0(2) in \<open>simp add: pinged_def time_defs\<close>)
  ultimately have r: "reach (\<lambda>s. s = s0) (flow_step ?c) ?s" by (rule reach_step)
  have "fl_clock ?s < 20 * Second" by (simp add: time_defs)
  note w = pings_stall_pool[OF st r this]
  have "fl_await ?s 3 = Some 3" using w s0(2) by (simp add: pinged_def)
  with w s0(1) show ?thesis by - (rule exI[of _ s0], rule exI[of _ ?s], simp)
qed

end
