(* ===== verification/Transport.thy ===== *)
theory Transport
  imports Config
begin

text \<open>
  The RLPx side of the crawler: \<open>crawler/net/transport\<close> (the hello exchange of \<open>Setup\<close>, \<open>Read\<close>) and
  \<open>crawler/net/querier.go\<close>. The connection of package \<open>rlpx\<close> is given by the results of its calls: an error, or the code
  of the frame that was read with the outcome of decoding its payload.
\<close>

section \<open>Messages\<close>

record Hello =
  h_Version :: u64
  h_Name :: string
  h_Caps :: "Cap list"

text \<open>A frame: its code and what RLP decoding gives when it is read as a \<open>Hello\<close> or as a \<open>Disconnect\<close>.\<close>

record Msg =
  m_code :: u64
  m_as_hello :: "string + Hello"
  m_as_disconnect :: "string + string"

definition Hello_Code :: int where "Hello_Code = 0"
definition Disconnect_Code :: int where "Disconnect_Code = 1"

definition Msg_Code :: "Msg \<Rightarrow> int" where
  "Msg_Code m = sint (m_code m)"

record Transport =
  t_Name :: string
  t_Version :: u64
  t_Caps :: "Cap list"

definition newTransport :: Transport where
  "newTransport = \<lparr>t_Name = [], t_Version = 0, t_Caps = []\<rparr>"

section \<open>Operations\<close>

text \<open>\<open>Setup\<close>; \<open>caps\<close> is \<open>None\<close> for a nil slice. An error of the write is dropped: the method returns nil.\<close>

definition Setup :: "Cap list option \<Rightarrow> err \<Rightarrow> string + Msg \<Rightarrow> Transport \<Rightarrow> err \<times> Transport" where
  "Setup caps write_err read_res t =
     (case caps of
        None \<Rightarrow> (Some ''0 len caps'', t)
      | Some _ \<Rightarrow>
          (case write_err of
             Some _ \<Rightarrow> (None, t)
           | None \<Rightarrow>
               (case read_res of
                  Inl e \<Rightarrow> (Some e, t)
                | Inr msg \<Rightarrow>
                    if m_code msg \<noteq> word_of_int Hello_Code then (Some ''not helo'', t)
                    else (case m_as_hello msg of
                            Inl e \<Rightarrow> (Some (''hello failure. error: '' @ e), t)
                          | Inr h \<Rightarrow> (None, t\<lparr>t_Name := h_Name h, t_Version := h_Version h, t_Caps := h_Caps h\<rparr>)))))"

definition transport_Read :: "string + Msg \<Rightarrow> string + Msg" where
  "transport_Read read_res =
     (case read_res of
        Inl e \<Rightarrow> Inl e
      | Inr msg \<Rightarrow>
          if Msg_Code msg = Disconnect_Code then
            (case m_as_disconnect msg of
               Inl e \<Rightarrow> Inl (''disconnect decode failure: '' @ e)
             | Inr reason \<Rightarrow> Inl reason)
          else Inr msg)"

text \<open>\<open>Dial\<close>: connect, set the deadline, shake hands.\<close>

definition Dial :: "err \<Rightarrow> err \<Rightarrow> err \<Rightarrow> string + Transport" where
  "Dial dial_err deadline_err handshake_err =
     (case dial_err of
        Some e \<Rightarrow> Inl e
      | None \<Rightarrow>
          (case deadline_err of
             Some e \<Rightarrow> Inl (''cannot set conn deadline: '' @ e)
           | None \<Rightarrow> (case handshake_err of Some e \<Rightarrow> Inl e | None \<Rightarrow> Inr newTransport)))"

record PeerInfo =
  pi_Name :: string
  pi_Caps :: "string list"
  pi_Version :: int
  pi_Extra :: "(string \<times> string) list"

text \<open>\<open>p2p.Cap.String\<close> writes name/version.\<close>

definition cap_String :: "Cap \<Rightarrow> string" where
  "cap_String c = cap_Name c @ ''/'' @ dec (unat (cap_Version c))"

record PeerQuierier =
  q_caps :: "Cap list option"
  q_extra :: "(Transport \<Rightarrow> (string \<times> string) list) option"

definition AddCap :: "string \<Rightarrow> u64 \<Rightarrow> PeerQuierier \<Rightarrow> PeerQuierier" where
  "AddCap name version p =
     p\<lparr>q_caps := Some ((case q_caps p of None \<Rightarrow> [] | Some cs \<Rightarrow> cs) @ [\<lparr>cap_Name = name, cap_Version = version\<rparr>])\<rparr>"

definition Query :: "string + Transport \<Rightarrow> err \<Rightarrow> string + Msg \<Rightarrow> PeerQuierier \<Rightarrow> string + PeerInfo" where
  "Query dialled write_err read_res p =
     (case dialled of
        Inl e \<Rightarrow> Inl (''failed dial. error: '' @ e)
      | Inr t \<Rightarrow>
          (case Setup (q_caps p) write_err read_res t of
             (Some e, _) \<Rightarrow> Inl (''failed transport setup. error: '' @ e)
           | (None, t') \<Rightarrow>
               Inr \<lparr>pi_Name = t_Name t', pi_Caps = map cap_String (t_Caps t'), pi_Version = sint (t_Version t'),
                    pi_Extra = (case q_extra p of None \<Rightarrow> [] | Some f \<Rightarrow> f t')\<rparr>))"

section \<open>What a query reports\<close>

lemma Setup_ok:
  assumes "Setup caps w rd t = (None, t')"
  shows "caps \<noteq> None"
    and "w \<noteq> None \<and> t' = t \<or> w = None \<and> (\<exists>msg h. rd = Inr msg \<and> m_code msg = 0 \<and> m_as_hello msg = Inr h
            \<and> t' = t\<lparr>t_Name := h_Name h, t_Version := h_Version h, t_Caps := h_Caps h\<rparr>)"
  using assms by (auto simp: Setup_def Hello_Code_def split: option.splits sum.splits if_splits)

text \<open>A query that fails to send its hello reports an anonymous peer of version 0 as found.\<close>

lemma failed_hello_reported:
  "Query (Inr newTransport) (Some e) rd (AddCap name v p\<lparr>q_extra := None\<rparr>) = Inr \<lparr>pi_Name = [], pi_Caps = [], pi_Version = 0, pi_Extra = []\<rparr>"
  by (simp add: Query_def Setup_def AddCap_def newTransport_def)

text \<open>The information a query reports about a peer is that of the hello the peer sent, read from a frame with the hello
  code over a connection whose handshake succeeded, unless our own hello could not be sent: then the error is lost and an
  empty description is reported as if it were the peer's.\<close>

lemma Query_info:
  assumes "Query (Dial d dl hs) w rd p = Inr i"
  shows "d = None \<and> hs = None \<and> q_caps p \<noteq> None
    \<and> (if w = None
       then \<exists>msg h. rd = Inr msg \<and> m_code msg = 0 \<and> m_as_hello msg = Inr h \<and> pi_Name i = h_Name h
              \<and> pi_Caps i = map cap_String (h_Caps h) \<and> pi_Version i = sint (h_Version h)
       else pi_Name i = [] \<and> pi_Caps i = [] \<and> pi_Version i = 0)"
proof -
  from assms obtain t where t: "Dial d dl hs = Inr t" by (cases "Dial d dl hs") (auto simp: Query_def)
  then have d: "d = None" "hs = None" "t = newTransport" by (auto simp: Dial_def split: option.splits)
  from assms t obtain t' where s: "Setup (q_caps p) w rd t = (None, t')"
    and i: "pi_Name i = t_Name t'" "pi_Caps i = map cap_String (t_Caps t')" "pi_Version i = sint (t_Version t')"
    by (auto simp: Query_def split: prod.splits option.splits)
  show ?thesis using d i Setup_ok[OF s] by (auto simp: newTransport_def)
qed

end
