(* ===== verification/Identity.thy ===== *)
theory Identity
  imports Prelude
begin

text \<open>
  \<open>crawler/net/discovery/identity.go\<close>: the local node record, signed again only when an entry changed.
  The methods hold the mutex, so they are atomic. Building and signing the record (\<open>enr\<close>, \<open>enode\<close>,
  outside the repository) is the argument \<open>mk\<close>: the node made of a sequence number and the entries. An
  entry has a key and a value.
\<close>

record ('v, 'n) identity =
  i_name :: string
  i_ip :: ip
  i_tcp :: u16
  i_udp :: u16
  i_dirty :: bool
  i_cur :: "'n option"
  i_entries :: "string \<Rightarrow> 'v option"
  i_seq :: u64

definition FakeName :: "('v, 'n) identity \<Rightarrow> string" where
  "FakeName i = (if i_name i = '''' then ''geth/linux-amd64/go1.18.1'' else i_name i)"

definition GetIp :: "('v, 'n) identity \<Rightarrow> ip" where "GetIp i = i_ip i"
definition GetTcp :: "('v, 'n) identity \<Rightarrow> u16" where "GetTcp i = i_udp i"
definition GetUdp :: "('v, 'n) identity \<Rightarrow> u16" where "GetUdp i = i_tcp i"
definition GetSequence :: "('v, 'n) identity \<Rightarrow> u64" where "GetSequence i = i_seq i"

definition SetEntry :: "string \<times> 'v \<Rightarrow> ('v, 'n) identity \<Rightarrow> ('v, 'n) identity" where
  "SetEntry e i =
     (if i_entries i (fst e) = Some (snd e) then i
      else i\<lparr>i_entries := (i_entries i)(fst e \<mapsto> snd e), i_dirty := True\<rparr>)"

definition sign :: "(u64 \<Rightarrow> (string \<Rightarrow> 'v option) \<Rightarrow> 'n) \<Rightarrow> ('v, 'n) identity \<Rightarrow> 'n \<times> ('v, 'n) identity" where
  "sign mk i =
     (if \<not> i_dirty i then (the (i_cur i), i)
      else let s = i_seq i + 1; n = mk s (i_entries i)
           in (n, i\<lparr>i_seq := s, i_cur := Some n, i_dirty := False\<rparr>))"

definition GetNode :: "(u64 \<Rightarrow> (string \<Rightarrow> 'v option) \<Rightarrow> 'n) \<Rightarrow> ('v, 'n) identity \<Rightarrow> 'n \<times> ('v, 'n) identity" where
  "GetNode mk i = (if \<not> i_dirty i then (the (i_cur i), i) else sign mk i)"

text \<open>\<open>vip\<close> and \<open>vport\<close> build the values of the \<open>ip\<close>, \<open>udp\<close> and \<open>tcp\<close> entries.\<close>

definition NewRandomIdentity :: "(u64 \<Rightarrow> (string \<Rightarrow> 'v option) \<Rightarrow> 'n) \<Rightarrow> (ip \<Rightarrow> 'v) \<Rightarrow> (u16 \<Rightarrow> 'v) \<Rightarrow>
    string \<Rightarrow> ip \<Rightarrow> u16 \<Rightarrow> u16 \<Rightarrow> ('v, 'n) identity" where
  "NewRandomIdentity mk vip vport name a tcp udp =
     (let i = \<lparr>i_name = name, i_ip = a, i_tcp = tcp, i_udp = udp, i_dirty = True, i_cur = None,
               i_entries = (\<lambda>_. None), i_seq = 0\<rparr>
      in snd (sign mk (SetEntry (''tcp'', vport tcp) (SetEntry (''udp'', vport udp) (SetEntry (''ip'', vip a) i)))))"

text \<open>The calls other components make, in any order.\<close>

inductive id_step :: "(u64 \<Rightarrow> (string \<Rightarrow> 'v option) \<Rightarrow> 'n) \<Rightarrow> ('v, 'n) identity \<Rightarrow> ('v, 'n) identity \<Rightarrow> bool"
  for mk :: "u64 \<Rightarrow> (string \<Rightarrow> 'v option) \<Rightarrow> 'n" where
  set_entry: "id_step mk i (SetEntry e i)"
| get_node: "id_step mk i (snd (GetNode mk i))"

definition id_inv :: "(u64 \<Rightarrow> (string \<Rightarrow> 'v option) \<Rightarrow> 'n) \<Rightarrow> ('v, 'n) identity \<Rightarrow> bool" where
  "id_inv mk i \<longleftrightarrow> \<not> i_dirty i \<longrightarrow> i_cur i = Some (mk (i_seq i) (i_entries i))"

definition id_init :: "(u64 \<Rightarrow> (string \<Rightarrow> 'v option) \<Rightarrow> 'n) \<Rightarrow> ('v, 'n) identity \<Rightarrow> bool" where
  "id_init mk i \<longleftrightarrow> (\<exists>vip vport name a tcp udp. i = NewRandomIdentity mk vip vport name a tcp udp)"

lemma id_inv_init: "id_init mk i \<Longrightarrow> id_inv mk i"
  by (auto simp: id_init_def id_inv_def NewRandomIdentity_def SetEntry_def sign_def Let_def)

lemma id_inv_step: "id_inv mk i \<Longrightarrow> id_step mk i j \<Longrightarrow> id_inv mk j"
  by (erule id_step.cases) (auto simp: id_inv_def SetEntry_def GetNode_def sign_def Let_def)

interpretation record_sys: inv_system "id_init mk" "id_step mk" "id_inv mk"
  by unfold_locales (auto intro: id_inv_init id_inv_step)

text \<open>The published record is always current: after any calls, \<open>GetNode\<close> returns the node signed from the
  current entries, with the sequence number it leaves behind; the number rises by one exactly when an entry
  has changed since the last signature, and a second \<open>GetNode\<close> returns the same node.\<close>

lemma GetNode_current:
  assumes "reach (id_init mk) (id_step mk) i"
  shows "fst (GetNode mk i) = mk (i_seq (snd (GetNode mk i))) (i_entries i)
    \<and> i_seq (snd (GetNode mk i)) = (if i_dirty i then i_seq i + 1 else i_seq i)
    \<and> GetNode mk (snd (GetNode mk i)) = GetNode mk i"
  using record_sys.reach_inv[OF assms] by (auto simp: id_inv_def GetNode_def sign_def Let_def)

text \<open>The port getters are exchanged: for every identity, \<open>GetTcp\<close> is the UDP port and \<open>GetUdp\<close> the TCP
  port it was made with, while the \<open>tcp\<close> and \<open>udp\<close> entries of its record hold them the right way round.\<close>

lemma identity_ports_swapped:
  "GetTcp (NewRandomIdentity mk vip vport name a tcp udp) = udp
   \<and> GetUdp (NewRandomIdentity mk vip vport name a tcp udp) = tcp
   \<and> i_entries (NewRandomIdentity mk vip vport name a tcp udp) ''tcp'' = Some (vport tcp)
   \<and> i_entries (NewRandomIdentity mk vip vport name a tcp udp) ''udp'' = Some (vport udp)"
  by (simp add: NewRandomIdentity_def GetTcp_def GetUdp_def SetEntry_def sign_def Let_def)

end
