(* ===== verification/Broker.thy ===== *)
theory Broker
  imports Prelude
begin

text \<open>
  Messaging: the topic feeds of \<open>service/broker/feed.go\<close>, the RabbitMQ broker of \<open>rabbitBroker.go\<close> with its
  consuming loop, and the typed wrappers of the crawler (\<open>crawler/broker/broker.go\<close>, which publishes) and of the
  scanner (\<open>scanner/broker/broker.go\<close>, which receives). AMQP is given by the results of its calls and the queues of its server; \<open>json.Marshal\<close> and
  \<open>json.Unmarshal\<close> are arguments.
\<close>

section \<open>Feeds\<close>

text \<open>
  \<open>Feed[T]\<close>: the counter of listeners, the callback once \<open>consume\<close> has stored it, the balance of subscriptions made
  before; \<open>bf_count\<close> is the variable \<open>count\<close> of \<open>consume\<close>, to which the callback sends.
\<close>

record bfeed =
  bf_listeners :: int
  bf_callback :: bool
  bf_delta :: int
  bf_count :: int

definition newBFeed :: bfeed where
  "newBFeed = \<lparr>bf_listeners = 0, bf_callback = False, bf_delta = 0, bf_count = 0\<rparr>"

definition bf_Subscribe :: "bfeed \<Rightarrow> bfeed" where
  "bf_Subscribe f =
     (let f1 = (if bf_callback f then f\<lparr>bf_count := bf_count f + (1 + bf_delta f)\<rparr> else f\<lparr>bf_delta := bf_delta f + 1\<rparr>)
      in f1\<lparr>bf_listeners := bf_listeners f1 + 1\<rparr>)"

definition bf_Unsubscribe :: "bfeed \<Rightarrow> bfeed" where
  "bf_Unsubscribe f =
     (let f1 = f\<lparr>bf_listeners := bf_listeners f - 1\<rparr>
      in if \<not> bf_callback f1 then f1\<lparr>bf_delta := bf_delta f1 - 1\<rparr> else f1\<lparr>bf_count := bf_count f1 - 1\<rparr>)"

definition bf_store_callback :: "bfeed \<Rightarrow> bfeed" where
  "bf_store_callback f = f\<lparr>bf_callback := True\<rparr>"

text \<open>\<open>subscription.Unsubscribe\<close>: only the first call reaches the wrapped subscription.\<close>

definition sub_Unsubscribe :: "bool \<Rightarrow> bool \<times> bool" where
  "sub_Unsubscribe called = (if called then (False, called) else (True, True))"

section \<open>The broker\<close>

definition ErrBrokerStopped :: string where "ErrBrokerStopped = ''broker stopped''"

record rabbitBroker =
  rb_id :: string
  rb_stopped :: bool
  rb_err :: err
  rb_done :: channel
  rb_feeds :: "string \<Rightarrow> bfeed option"

text \<open>
  \<open>NewRabbitBroker\<close> builds two objects: the first gets the connection and is stopped when it closes, the second is
  returned to the caller. In neither is \<open>done\<close> made.
\<close>

definition NewRabbitBroker :: "string \<Rightarrow> err \<Rightarrow> err \<Rightarrow> string + rabbitBroker \<times> rabbitBroker" where
  "NewRabbitBroker username dial_err chan_err =
     (let watched = \<lparr>rb_id = [], rb_stopped = False, rb_err = None, rb_done = Nil_chan, rb_feeds = (\<lambda>_. None)\<rparr>
      in case dial_err of
           Some e \<Rightarrow> Inl e
         | None \<Rightarrow>
             (case chan_err of
                Some e \<Rightarrow> Inl e
              | None \<Rightarrow> Inr (watched, watched\<lparr>rb_id := username\<rparr>)))"

text \<open>\<open>Stop\<close>; \<open>None\<close> is the panic of \<open>close\<close>.\<close>

definition rb_Stop :: "err \<Rightarrow> rabbitBroker \<Rightarrow> rabbitBroker option" where
  "rb_Stop e b =
     (if rb_stopped b then Some b
      else let b1 = b\<lparr>rb_stopped := True\<rparr>;
               b2 = (case e of Some _ \<Rightarrow> b1\<lparr>rb_err := e\<rparr> | None \<Rightarrow> b1)
           in map_option (\<lambda>ch. b2\<lparr>rb_done := ch\<rparr>) (go_close (rb_done b2)))"

text \<open>The queues of the RabbitMQ server; \<open>None\<close>: no queue of this name is declared. They are not durable and go with their last
  consumer. Declaring an existing queue changes nothing.\<close>

type_synonym queues = "string \<Rightarrow> u8 list list option"

definition QueueDeclare :: "string \<Rightarrow> queues \<Rightarrow> queues" where
  "QueueDeclare topic q = (case q topic of None \<Rightarrow> q(topic \<mapsto> []) | Some _ \<Rightarrow> q)"

text \<open>\<open>SubscribeTopic\<close>; the flag of the result tells whether a consuming goroutine is started.\<close>

definition SubscribeTopic :: "err \<Rightarrow> err \<Rightarrow> string \<Rightarrow> rabbitBroker \<times> queues \<Rightarrow> (string + bool) \<times> rabbitBroker \<times> queues" where
  "SubscribeTopic declare_err consume_err topic s =
     (case s of (b, q) \<Rightarrow>
      if rb_stopped b then (Inl ErrBrokerStopped, b, q)
      else case declare_err of
        Some e \<Rightarrow> (Inl e, b, q)
      | None \<Rightarrow>
          (let q1 = QueueDeclare topic q in
           case consume_err of
             Some e \<Rightarrow> (Inl e, b, q1)
           | None \<Rightarrow>
               (case rb_feeds b topic of
                  None \<Rightarrow> (Inr True, b\<lparr>rb_feeds := (rb_feeds b)(topic \<mapsto> bf_Subscribe newBFeed)\<rparr>, q1)
                | Some f \<Rightarrow> (Inr False, b\<lparr>rb_feeds := (rb_feeds b)(topic \<mapsto> bf_Subscribe f)\<rparr>, q1))))"

text \<open>\<open>consume\<close>, by the cases of its select that fire: the notifications it sends and the cancellations it starts. After
  \<open>done\<close> is closed, messages are discarded until the queue closes.\<close>

datatype consume_event = Delivery "u8 list" | QueueClosed | DoneClosed | DeltaRecv int

datatype consume_action = Notify "u8 list" | CancelTopic

fun consume :: "consume_event list \<Rightarrow> int \<Rightarrow> consume_action list" where
  "consume [] cnt = []"
| "consume (Delivery m # evs) cnt = Notify m # consume evs cnt"
| "consume (QueueClosed # evs) cnt = []"
| "consume (DoneClosed # evs) cnt = [CancelTopic]"
| "consume (DeltaRecv d # evs) cnt =
     (if cnt + d = 0 then CancelTopic # consume evs (cnt + d) else consume evs (cnt + d))"

definition rb_unsubscribe :: "string \<Rightarrow> rabbitBroker \<Rightarrow> rabbitBroker" where
  "rb_unsubscribe topic b = b\<lparr>rb_feeds := (rb_feeds b)(topic := None)\<rparr>"

section \<open>Typed messages\<close>

record NewNode =
  nn_ENR :: string
  nn_Enrs :: "string list"
  nn_Name :: string
  nn_Version :: int
  nn_Caps :: "string list"
  nn_Extras :: "(string \<times> string) list"

record NodeStats =
  ns_ENR :: string
  ns_Queried :: int
  ns_Nodes :: int
  ns_NewNodes :: "string list"

definition newNodesQueue :: string where "newNodesQueue = ''nodes.new''"
definition nodeStatsQueue :: string where "nodeStatsQueue = ''nodes.stats''"

text \<open>A message goes through the default exchange to the queue named as its topic. It is published without the flag \<open>mandatory\<close>: where no
  such queue is declared the server drops it, and the publisher gets no error.\<close>

definition rb_publish :: "err \<Rightarrow> string \<Rightarrow> u8 list \<Rightarrow> queues \<Rightarrow> err \<times> queues" where
  "rb_publish amqp_err topic msg q =
     (case amqp_err of
        Some e \<Rightarrow> (Some e, q)
      | None \<Rightarrow> (None, case q topic of None \<Rightarrow> q | Some ms \<Rightarrow> q(topic \<mapsto> ms @ [msg])))"

definition wrapped_publish :: "('d \<Rightarrow> string + u8 list) \<Rightarrow> err \<Rightarrow> 'd \<Rightarrow> string \<Rightarrow> queues \<Rightarrow> err \<times> queues" where
  "wrapped_publish marshal amqp_err data topic q =
     (case marshal data of Inl e \<Rightarrow> (Some e, q) | Inr raw \<Rightarrow> rb_publish amqp_err topic raw q)"

definition PublishNewNodeFound :: "(NewNode \<Rightarrow> string + u8 list) \<Rightarrow> err \<Rightarrow> NewNode \<Rightarrow> queues \<Rightarrow> err \<times> queues" where
  "PublishNewNodeFound marshal amqp_err data q = wrapped_publish marshal amqp_err data newNodesQueue q"

definition PublishNodeStats :: "(NodeStats \<Rightarrow> string + u8 list) \<Rightarrow> err \<Rightarrow> NodeStats \<Rightarrow> queues \<Rightarrow> err \<times> queues" where
  "PublishNodeStats marshal amqp_err data q = wrapped_publish marshal amqp_err data nodeStatsQueue q"

text \<open>The goroutine of \<open>SubscribeNewNodes\<close>: messages that are not JSON of a node are skipped.\<close>

fun forward_nodes :: "(u8 list \<Rightarrow> string + NewNode) \<Rightarrow> u8 list list \<Rightarrow> NewNode list" where
  "forward_nodes unmarshal [] = []"
| "forward_nodes unmarshal (m # ms) =
     (case unmarshal m of Inl _ \<Rightarrow> forward_nodes unmarshal ms | Inr n \<Rightarrow> n # forward_nodes unmarshal ms)"

section \<open>Lemmas\<close>

text \<open>The crawler's calls, in order, each with the error AMQP reports for it.\<close>

datatype publication = AnnounceNode NewNode err | AnnounceStats NodeStats err

fun publish_all :: "(NewNode \<Rightarrow> string + u8 list) \<Rightarrow> (NodeStats \<Rightarrow> string + u8 list) \<Rightarrow> publication list \<Rightarrow> queues \<Rightarrow> queues" where
  "publish_all mn ms [] q = q"
| "publish_all mn ms (AnnounceNode n e # ps) q = publish_all mn ms ps (snd (PublishNewNodeFound mn e n q))"
| "publish_all mn ms (AnnounceStats s e # ps) q = publish_all mn ms ps (snd (PublishNodeStats ms e s q))"

fun announced :: "publication list \<Rightarrow> NewNode list" where
  "announced [] = []"
| "announced (AnnounceNode n None # ps) = n # announced ps"
| "announced (_ # ps) = announced ps"

fun notified :: "consume_action list \<Rightarrow> u8 list list" where
  "notified [] = []"
| "notified (Notify m # as) = m # notified as"
| "notified (CancelTopic # as) = notified as"

text \<open>The relied-on behaviour of the JSON package, for the given nodes.\<close>

definition json_ok :: "(NewNode \<Rightarrow> string + u8 list) \<Rightarrow> (u8 list \<Rightarrow> string + NewNode) \<Rightarrow> NewNode list \<Rightarrow> bool" where
  "json_ok mn un ns \<longleftrightarrow> (\<forall>n \<in> set ns. \<exists>raw. mn n = Inr raw \<and> un raw = Inr n)"

lemma queue_names [simp]: "newNodesQueue \<noteq> nodeStatsQueue" "nodeStatsQueue \<noteq> newNodesQueue"
  by (simp_all add: newNodesQueue_def nodeStatsQueue_def)

lemma notified_deliveries [simp]: "notified (consume (map Delivery ms) cnt) = ms"
  by (induction ms arbitrary: cnt) auto

lemma forward_append [simp]: "forward_nodes un (xs @ ys) = forward_nodes un xs @ forward_nodes un ys"
  by (induction xs) (auto split: sum.splits)

lemma stats_other_queue [simp]: "snd (PublishNodeStats ms e s q) newNodesQueue = q newNodesQueue"
  by (simp add: PublishNodeStats_def wrapped_publish_def rb_publish_def split: sum.splits option.splits)

text \<open>Publications before the queue is declared are lost; afterwards every announcement without an error is queued, in order.\<close>

lemma publish_all_lost: "q newNodesQueue = None \<Longrightarrow> publish_all mn ms ps q newNodesQueue = None"
proof (induction ps arbitrary: q)
  case (Cons p ps)
  then show ?case by (cases p) (simp_all add: PublishNewNodeFound_def wrapped_publish_def rb_publish_def split: sum.splits option.splits)
qed simp

lemma publish_all_queue:
  assumes "json_ok mn un (announced ps)" and "q newNodesQueue = Some m0"
  shows "\<exists>m. publish_all mn ms ps q newNodesQueue = Some m \<and> forward_nodes un m = forward_nodes un m0 @ announced ps"
  using assms
proof (induction ps arbitrary: q m0)
  case (Cons p ps)
  have ok: "json_ok mn un (announced ps)" using Cons.prems(1) by (cases "(p # ps)" rule: announced.cases) (auto simp: json_ok_def)
  note defs = PublishNewNodeFound_def wrapped_publish_def rb_publish_def
  show ?case
  proof (cases p)
    case (AnnounceNode n e)
    show ?thesis
    proof (cases e)
      case None
      then obtain raw where raw: "mn n = Inr raw" "un raw = Inr n" using Cons.prems(1) AnnounceNode by (auto simp: json_ok_def)
      have "snd (PublishNewNodeFound mn e n q) newNodesQueue = Some (m0 @ [raw])" using raw None Cons.prems(2) by (simp add: defs)
      from Cons.IH[where q = "snd (PublishNewNodeFound mn e n q)", OF ok this] show ?thesis using AnnounceNode None raw by simp
    next
      case (Some m)
      then have "snd (PublishNewNodeFound mn e n q) newNodesQueue = Some m0" using Cons.prems(2) by (simp add: defs split: sum.splits)
      from Cons.IH[where q = "snd (PublishNewNodeFound mn e n q)", OF ok this] show ?thesis using AnnounceNode Some by simp
    qed
  next
    case (AnnounceStats st e)
    have "snd (PublishNodeStats ms e st q) newNodesQueue = Some m0" using Cons.prems(2) by simp
    from Cons.IH[where q = "snd (PublishNodeStats ms e st q)", OF ok this] show ?thesis using AnnounceStats by simp
  qed
qed simp

text \<open>The count of \<open>consume\<close> after \<open>k\<close> subscriptions before and \<open>m\<close> after it stores the callback: the subscriptions made
  before are added again with each one made after, so the count agrees with the listeners only for \<open>k = 0\<close> or \<open>m = 1\<close>.\<close>

lemma subscribe_before: "(bf_Subscribe ^^ k) newBFeed = \<lparr>bf_listeners = int k, bf_callback = False, bf_delta = int k, bf_count = 0\<rparr>"
  by (induction k) (simp_all add: bf_Subscribe_def newBFeed_def)

lemma feed_count:
  "(bf_Subscribe ^^ m) (bf_store_callback ((bf_Subscribe ^^ k) newBFeed))
     = \<lparr>bf_listeners = int (k + m), bf_callback = True, bf_delta = int k, bf_count = int (m * (1 + k))\<rparr>"
proof (induction m)
  case 0 show ?case by (simp add: subscribe_before bf_store_callback_def)
next
  case (Suc m) then show ?case by (simp add: bf_Subscribe_def algebra_simps)
qed

lemma feed_count_exact:
  "bf_count ((bf_Subscribe ^^ m) (bf_store_callback ((bf_Subscribe ^^ k) newBFeed)))
     = bf_listeners ((bf_Subscribe ^^ m) (bf_store_callback ((bf_Subscribe ^^ k) newBFeed))) \<longleftrightarrow> k = 0 \<or> m = 1"
proof -
  have "m * (1 + k) = k + m \<longleftrightarrow> k = 0 \<or> m = 1" by (cases m) auto
  then show ?thesis unfolding feed_count by (simp del: of_nat_mult of_nat_add of_nat_Suc)
qed

text \<open>The first \<open>Stop\<close> of either object panics, so the process dies when the connection to RabbitMQ closes.\<close>

lemma rabbit_stop_panics: "NewRabbitBroker u d c = Inr (watched, b) \<Longrightarrow> rb_Stop e watched = None \<and> rb_Stop e b = None"
  by (auto simp: NewRabbitBroker_def rb_Stop_def go_close_def Let_def split: option.splits)

text \<open>What reaches the scanner's channel when the crawler publishes \<open>before\<close>, the scanner subscribes with the broker \<open>b\<close>, and the crawler
  publishes \<open>after\<close>, while the scanner stays subscribed.\<close>

definition delivered_nodes :: "(NewNode \<Rightarrow> string + u8 list) \<Rightarrow> (NodeStats \<Rightarrow> string + u8 list) \<Rightarrow> (u8 list \<Rightarrow> string + NewNode) \<Rightarrow>
    rabbitBroker \<Rightarrow> queues \<Rightarrow> publication list \<Rightarrow> publication list \<Rightarrow> NewNode list" where
  "delivered_nodes mn ms un b q before after =
     (case SubscribeTopic None None newNodesQueue (b, publish_all mn ms before q) of
        (Inl _, _, _) \<Rightarrow> []
      | (Inr _, _, q1) \<Rightarrow>
          (case publish_all mn ms after q1 newNodesQueue of
             None \<Rightarrow> []
           | Some m \<Rightarrow> forward_nodes un (notified (consume (map Delivery m) 0))))"

text \<open>The nodes the crawler publishes without an error after the scanner has subscribed, interleaved in any way with statistics and
  failed publications, reach the scanner's channel exactly once and in order, through the queue, the consuming loop and the
  decoding goroutine; the nodes published before are lost.\<close>

lemma announcements_arrive:
  assumes "json_ok mn un (announced after)" and "q newNodesQueue = None" and "\<not> rb_stopped b"
  shows "delivered_nodes mn ms un b q before after = announced after"
proof -
  let ?q = "publish_all mn ms before q"
  have "?q newNodesQueue = None" using publish_all_lost[where q = q, OF assms(2)] .
  then have d: "QueueDeclare newNodesQueue ?q newNodesQueue = Some []" by (simp add: QueueDeclare_def)
  obtain r b1 where s: "SubscribeTopic None None newNodesQueue (b, ?q) = (Inr r, b1, QueueDeclare newNodesQueue ?q)"
    using assms(3) by (cases "rb_feeds b newNodesQueue") (simp_all add: SubscribeTopic_def Let_def)
  obtain m where "publish_all mn ms after (QueueDeclare newNodesQueue ?q) newNodesQueue = Some m" "forward_nodes un m = announced after"
    using publish_all_queue[where q = "QueueDeclare newNodesQueue ?q", OF assms(1) d, of ms] by auto
  then show ?thesis by (simp add: delivered_nodes_def s)
qed

definition ex_nn :: "string \<Rightarrow> NewNode" where
  "ex_nn s = \<lparr>nn_ENR = s, nn_Enrs = [], nn_Name = [], nn_Version = 0, nn_Caps = [], nn_Extras = []\<rparr>"

end
