(* ===== verification/Program.thy ===== *)
theory Program
  imports App Commands Throttle Flow Transport Identity Broker
begin

text \<open>
  How the programs are put together: the handler of the crawler and of the discovery commands (\<open>MakeHandler\<close>,
  \<open>makeHandler\<close>), the crawler's application and its launcher (\<open>crawler/app/application.go\<close>,
  \<open>crawler/cmd/crawler/launcher\<close>), the scanner's launcher, versions and signals. The socket, the node database and the
  broker's connection are arguments. Shown: when the launchers start, and what the crawler's choice of configuration
  means for its node table.
\<close>

section \<open>The handler\<close>

definition crawler_writer :: writer where
  "crawler_writer = ThrottlePackets (1 * Second) 8192 (ThrottleIp (1 * Second) 32 newWriter)"

definition crawler_disc :: "enode list \<Rightarrow> disc_config" where
  "crawler_disc boot = \<lparr>dc_Bootnodes = Some boot, dc_RunTab = False, dc_IgnoreLimits = True\<rparr>"

definition MakeHandler :: "'s table_ext \<Rightarrow> ip_limits \<Rightarrow> int \<Rightarrow> enode list \<Rightarrow> bool \<Rightarrow> enode list \<Rightarrow> 'db \<Rightarrow> ('s, 'db) v4_handler \<Rightarrow>
    string + ('s, 'db) PacketHandler \<times> writer \<times> poolAcceptor" where
  "MakeHandler X L now seeds metrics boot db sub =
     (case NewHandler X L now seeds metrics sub db (crawler_disc boot) of
        Inl e \<Rightarrow> Inl e
      | Inr h \<Rightarrow> Inr (h, crawler_writer, NewPoolAcceptor 4))"

text \<open>\<open>v4.NewHandler\<close>: table and database are nil until \<open>Setup\<close> (\<open>tab0\<close>, \<open>db0\<close>); the ports and the sequence number are those the
  identity reports.\<close>

definition v4_NewHandler :: "'s Table \<Rightarrow> 'db \<Rightarrow> ('v, 'n) identity \<Rightarrow> v4_config \<Rightarrow> ('s, 'db) v4_handler" where
  "v4_NewHandler tab0 db0 holder cfg = \<lparr>v_cfg = validate cfg, v_tab = tab0, v_store = db0, v_faults = (\<lambda>_. None),
     v_seq = GetSequence holder, v_udp = GetUdp holder, v_tcp = GetTcp holder\<rparr>"

text \<open>What the identity and the socket need: signing, the values of entries, and \<open>ListenPacket\<close> on a port, which gives the local
  address.\<close>

record ('v, 'n) host =
  ho_sign :: "u64 \<Rightarrow> (string \<Rightarrow> 'v option) \<Rightarrow> 'n"
  ho_ip :: "ip \<Rightarrow> 'v"
  ho_port :: "u16 \<Rightarrow> 'v"
  ho_listen :: "int option \<Rightarrow> string + ip \<times> u16"

definition host_identity :: "('v, 'n) host \<Rightarrow> string \<Rightarrow> ip \<times> u16 \<Rightarrow> ('v, 'n) identity" where
  "host_identity H name addr = NewRandomIdentity (ho_sign H) (ho_ip H) (ho_port H) name (fst addr) (snd addr) (snd addr)"

text \<open>The commands' own \<open>makeHandler\<close>: any free port, no boot nodes.\<close>

definition makeHandler :: "'s table_ext \<Rightarrow> ip_limits \<Rightarrow> ('v, 'n) host \<Rightarrow> int \<Rightarrow> enode list \<Rightarrow> string + 'db \<Rightarrow> 's Table \<Rightarrow> 'db \<Rightarrow>
    string + ('s, 'db) PacketHandler \<times> writer \<times> poolAcceptor" where
  "makeHandler X L H now seeds opened tab0 db0 =
     (case opened of
        Inl e \<Rightarrow> Inl e
      | Inr db \<Rightarrow>
          (case ho_listen H None of
             Inl e \<Rightarrow> Inl e
           | Inr addr \<Rightarrow>
               MakeHandler X L now seeds False [] db (v4_NewHandler tab0 db0 (host_identity H [] addr) DefaultConfig)))"

section \<open>The crawler's application\<close>

record ('s, 'db, 'st) crawl_config =
  cc_Metrics :: bool
  cc_Port :: int
  cc_Bootnodes :: "enode list"
  cc_Handler :: "('s, 'db) v4_handler"
  cc_Qurier :: PeerQuierier
  cc_Keys :: "string list"
  cc_Store :: 'st
  cc_BrokerEnabled :: bool
  cc_BrokerEndpoint :: string
  cc_BrokerUser :: string
  cc_BrokerPassword :: string

datatype base_broker = VoidBroker | RabbitBroker rabbitBroker

record ('s, 'db, 'st) application =
  ap_config :: "('s, 'db, 'st) crawl_config"
  ap_metrics :: bool
  ap_broker :: base_broker
  ap_handler :: "('s, 'db) PacketHandler"
  ap_writer :: writer
  ap_acceptor :: poolAcceptor

text \<open>The outcome of a launcher: an error, a panic, or a running application.\<close>

datatype 'a launched = Failed string | Panicked string | Runs 'a

text \<open>\<open>dial\<close> gives, for endpoint, user and password, how the connection and the channel of the broker end; the node database
  is opened in memory and cannot fail.\<close>

definition setup_broker :: "(string \<Rightarrow> string \<Rightarrow> string \<Rightarrow> err \<times> err) \<Rightarrow> ('s, 'db, 'st) crawl_config \<Rightarrow> string + base_broker" where
  "setup_broker dial cfg =
     (if cc_BrokerEnabled cfg
      then (case dial (cc_BrokerEndpoint cfg) (cc_BrokerUser cfg) (cc_BrokerPassword cfg) of (d, c) \<Rightarrow>
              (case NewRabbitBroker (cc_BrokerUser cfg) d c of
                 Inl e \<Rightarrow> Inl (''rabbit broker initializationn failure. error: '' @ e)
               | Inr (_, b) \<Rightarrow> Inr (RabbitBroker b)))
      else Inr VoidBroker)"

definition NewCrawlApp :: "'s table_ext \<Rightarrow> ip_limits \<Rightarrow> int \<Rightarrow> enode list \<Rightarrow> 'db \<Rightarrow> (string \<Rightarrow> string \<Rightarrow> string \<Rightarrow> err \<times> err) \<Rightarrow>
    ('s, 'db, 'st) crawl_config \<Rightarrow> ('s, 'db, 'st) application launched" where
  "NewCrawlApp X L now seeds db dial cfg =
     (case setup_broker dial cfg of
        Inl e \<Rightarrow> Panicked e
      | Inr b \<Rightarrow>
          (case MakeHandler X L now seeds (cc_Metrics cfg) (cc_Bootnodes cfg) db (cc_Handler cfg) of
             Inl e \<Rightarrow> Panicked (''failed making handler. error: '' @ e)
           | Inr (h, w, acc) \<Rightarrow>
               Runs \<lparr>ap_config = cfg, ap_metrics = cc_Metrics cfg, ap_broker = b, ap_handler = h, ap_writer = w, ap_acceptor = acc\<rparr>))"

section \<open>The launchers\<close>

text \<open>\<open>runCrawler\<close> of the launcher, up to \<open>Run\<close>.\<close>

definition runCrawler :: "'s table_ext \<Rightarrow> ip_limits \<Rightarrow> ('v, 'n) host \<Rightarrow> int \<Rightarrow> enode list \<Rightarrow> 'db \<Rightarrow> 's Table \<Rightarrow> 'db \<Rightarrow>
    (string \<Rightarrow> string \<Rightarrow> string \<Rightarrow> err \<times> err) \<Rightarrow> (string \<Rightarrow> string + enode) \<Rightarrow> (string \<Rightarrow> string \<Rightarrow> string + 'st) \<Rightarrow> cli \<Rightarrow>
    ('s, 'db, 'st) application launched" where
  "runCrawler X L H now seeds db tab0 db0 dial ParseV4 newStore ctx =
     (case ParseNodes ParseV4 ctx of
        Inl e \<Rightarrow> Failed e
      | Inr bootnodes \<Rightarrow>
          if length bootnodes = 0 then Failed ''atleast 1 bootnode required''
          else case ParseFakeCaps ctx of
            Inl e \<Rightarrow> Failed e
          | Inr fakecaps \<Rightarrow>
              (case ParseBroker ctx of
                 (_, _, _, _, Some e) \<Rightarrow> Failed e
               | (user, password, endpoint, enabled, None) \<Rightarrow>
                   (case ParseDb newStore ctx of
                      Inl e \<Rightarrow> Failed e
                    | Inr store \<Rightarrow>
                        (case ho_listen H (Some (ParseDiscPort ctx)) of
                           Inl e \<Rightarrow> Failed e
                         | Inr addr \<Rightarrow>
                             let holder = host_identity H (ParseFakeName ctx) addr;
                                 querier = fold (\<lambda>c. AddCap (cap_Name c) (cap_Version c)) fakecaps \<lparr>q_caps = None, q_extra = None\<rparr>
                             in NewCrawlApp X L now seeds db dial
                                  \<lparr>cc_Metrics = ParseMetrics ctx, cc_Port = 6061, cc_Bootnodes = bootnodes,
                                   cc_Handler = v4_NewHandler tab0 db0 holder DefaultConfig, cc_Qurier = querier,
                                   cc_Keys = ParseIdentities ctx, cc_Store = store, cc_BrokerEnabled = enabled,
                                   cc_BrokerEndpoint = endpoint, cc_BrokerUser = user, cc_BrokerPassword = password\<rparr>))))"

text \<open>The scanner: \<open>run\<close> is the error of \<open>nodeScanner.Start\<close>; the flag tells whether the HTTP server is shut down at the end.\<close>

definition app_Stop :: "scan_app \<Rightarrow> bool" where
  "app_Stop a = app_http a"

definition runEventScanner :: "(string \<Rightarrow> ip option) \<Rightarrow> int \<Rightarrow> cli \<Rightarrow> err \<Rightarrow> err \<Rightarrow> err \<Rightarrow> (scan_config \<Rightarrow> err) \<Rightarrow> err \<times> bool" where
  "runEventScanner ParseIP procs ctx be ce se run =
     (case snd (scan_Parse ParseIP ctx (scan_DefaultConfig procs)) of
        (_, Some e) \<Rightarrow> (Some e, False)
      | (cfg, None) \<Rightarrow>
          (case scan_Validate cfg of
             (_, Some e) \<Rightarrow> (Some e, False)
           | (cfg', None) \<Rightarrow>
               (case app_Setup cfg' be ce se of
                  (Some e, _) \<Rightarrow> (Some e, False)
                | (None, a) \<Rightarrow> (run cfg', app_Stop a))))"

section \<open>Versions, signals and exit\<close>

definition Version :: string where
  "Version = dec 0 @ ''.'' @ dec 0 @ ''.'' @ dec 1"

definition VersionWithMeta :: "string \<Rightarrow> string" where
  "VersionWithMeta meta = (if meta \<noteq> [] then Version @ ''-'' @ meta else Version)"

text \<open>The goroutine of \<open>app.Before\<close>: the loop over the interrupts received so far; in the discovery tool the first interrupt
  cancels the context and nothing else is received.\<close>

datatype sig_action = CancelCtx | PrintLeft int | ExitProc int

fun signal_loop :: "nat \<Rightarrow> bool \<Rightarrow> nat \<Rightarrow> sig_action list" where
  "signal_loop i canceled 0 = (if 10 \<le> i then [ExitProc 1] else [])"
| "signal_loop i canceled (Suc n) =
     (if 10 \<le> i then [ExitProc 1]
      else (if \<not> canceled then [CancelCtx] else []) @ PrintLeft (10 - int i) # signal_loop (Suc i) True n)"

definition disc_signals :: "nat \<Rightarrow> sig_action list" where
  "disc_signals n = (if n = 0 then [] else [CancelCtx])"

text \<open>\<open>exit\<close>: the status of the process and what it prints.\<close>

definition exit_process :: "err \<Rightarrow> int \<times> string" where
  "exit_process e = (case e of None \<Rightarrow> (0, []) | Some m \<Rightarrow> (1, m @ [CHR 10]))"

section \<open>Lemmas\<close>

lemma host_ports: "GetTcp (host_identity H name addr) = snd addr \<and> GetUdp (host_identity H name addr) = snd addr"
  by (simp add: host_identity_def identity_ports_swapped)

text \<open>The exchanged getters do no harm in the programs: both ports are the socket's.\<close>

lemma crawler_ports:
  "v_tcp (v4_NewHandler tab0 db0 (host_identity H name addr) cfg) = snd addr
   \<and> v_udp (v4_NewHandler tab0 db0 (host_identity H name addr) cfg) = snd addr"
  by (simp add: v4_NewHandler_def host_ports)

text \<open>An interrupt cancels the context once, however many follow; the tenth ends the process, having announced one more attempt.\<close>

lemma signal_loop_cancelled:
  "i + n < 10 \<Longrightarrow> signal_loop i True n = map (\<lambda>k. PrintLeft (10 - int k)) [i..<i + n]"
  by (induction n arbitrary: i) (auto simp: upt_rec)

lemma signals_cancel_once: "count_list (signal_loop i c n) CancelCtx = (if \<not> c \<and> 0 < n \<and> i < 10 then 1 else 0)"
  by (induction n arbitrary: i c) auto

lemma signals_exit: "i \<le> 10 \<Longrightarrow> ExitProc k \<in> set (signal_loop i c n) \<longleftrightarrow> k = 1 \<and> 10 - i \<le> n"
  by (induction n arbitrary: i c) auto

lemma tenth_signal: "signal_loop 0 False 10 =
    CancelCtx # map PrintLeft [10, 9, 8, 7, 6, 5, 4, 3, 2, 1] @ [ExitProc 1]"
  by code_simp

text \<open>The launcher panics only over the broker's connection or a boot node that is not complete.\<close>

lemma MakeHandler_error:
  "MakeHandler X L now seeds m boot db sub = Inl e \<longleftrightarrow> firstInvalid (x_Validate X) boot = Some e"
  by (auto simp: MakeHandler_def NewHandler_def NewTable_def setFallbackNodes_def config_Verify_def crawler_disc_def Let_def
      split: option.splits sum.splits)

lemma NewCrawlApp_outcome:
  "(case NewCrawlApp X L now seeds db dial cfg of Failed e \<Rightarrow> False
    | Panicked e \<Rightarrow> (cc_BrokerEnabled cfg \<and> dial (cc_BrokerEndpoint cfg) (cc_BrokerUser cfg) (cc_BrokerPassword cfg) \<noteq> (None, None))
        \<or> firstInvalid (x_Validate X) (cc_Bootnodes cfg) \<noteq> None
    | Runs app \<Rightarrow> ap_config app = cfg \<and> firstInvalid (x_Validate X) (cc_Bootnodes cfg) = None
        \<and> MakeHandler X L now seeds (cc_Metrics cfg) (cc_Bootnodes cfg) db (cc_Handler cfg)
            = Inr (ap_handler app, ap_writer app, ap_acceptor app)
        \<and> (ap_broker app = VoidBroker \<longleftrightarrow> \<not> cc_BrokerEnabled cfg))"
proof (cases "setup_broker dial cfg")
  case (Inl e)
  then have "cc_BrokerEnabled cfg \<and> dial (cc_BrokerEndpoint cfg) (cc_BrokerUser cfg) (cc_BrokerPassword cfg) \<noteq> (None, None)"
    by (auto simp: setup_broker_def NewRabbitBroker_def Let_def split: if_splits)
  then show ?thesis using Inl by (simp add: NewCrawlApp_def)
next
  case (Inr b)
  then have b: "b = VoidBroker \<longleftrightarrow> \<not> cc_BrokerEnabled cfg"
    by (auto simp: setup_broker_def split: if_splits prod.splits sum.splits)
  show ?thesis
  proof (cases "MakeHandler X L now seeds (cc_Metrics cfg) (cc_Bootnodes cfg) db (cc_Handler cfg)")
    case (Inl e)
    then have "firstInvalid (x_Validate X) (cc_Bootnodes cfg) = Some e" by (simp only: MakeHandler_error)
    then show ?thesis using Inl Inr by (simp add: NewCrawlApp_def)
  next
    case m: (Inr r)
    have "firstInvalid (x_Validate X) (cc_Bootnodes cfg) = None"
      using m MakeHandler_error[where boot = "cc_Bootnodes cfg"] by (metis Inl_Inr_False not_Some_eq)
    then show ?thesis using m Inr b by (cases r) (auto simp: NewCrawlApp_def)
  qed
qed

lemma runCrawler_cases:
  fixes newStore :: "string \<Rightarrow> string \<Rightarrow> string + 'st"
  obtains e where "runCrawler X L H now seeds db tab0 db0 dial ParseV4 newStore ctx = Failed e"
  | boot addr name cfg where "ParseNodes ParseV4 ctx = Inr boot" "boot \<noteq> []" "ho_listen H (Some (ParseDiscPort ctx)) = Inr addr"
    "cc_Bootnodes cfg = boot" "cc_Metrics cfg = ParseMetrics ctx" "ParseDb newStore ctx = Inr (cc_Store cfg)"
    "cc_Handler cfg = v4_NewHandler tab0 db0 (host_identity H name addr) DefaultConfig"
    "ParseBroker ctx = (cc_BrokerUser cfg, cc_BrokerPassword cfg, cc_BrokerEndpoint cfg, cc_BrokerEnabled cfg, None)"
    "runCrawler X L H now seeds db tab0 db0 dial ParseV4 newStore ctx = NewCrawlApp X L now seeds db dial cfg"
proof -
  obtain user password endpoint enabled be where b: "ParseBroker ctx = (user, password, endpoint, enabled, be)" by (metis prod_cases5)
  show ?thesis
  proof (cases "ParseNodes ParseV4 ctx")
    case (Inr boot)
    show ?thesis
    proof (cases "boot = [] \<or> be \<noteq> None \<or> isl (ParseFakeCaps ctx) \<or> isl (ParseDb newStore ctx) \<or> isl (ho_listen H (Some (ParseDiscPort ctx)))")
      case True
      then have "\<exists>e. runCrawler X L H now seeds db tab0 db0 dial ParseV4 newStore ctx = Failed e"
        using Inr b by (auto simp: runCrawler_def split: sum.splits option.splits)
      then show ?thesis using that(1) by blast
    next
      case False
      then obtain caps store addr where "ParseFakeCaps ctx = Inr caps" "ParseDb newStore ctx = Inr store"
        "ho_listen H (Some (ParseDiscPort ctx)) = Inr addr" "be = None" "boot \<noteq> []" by (metis sum.collapse(2))
      note facts = this Inr b
      let ?q = "fold (\<lambda>c. AddCap (cap_Name c) (cap_Version c)) caps \<lparr>q_caps = None, q_extra = None\<rparr>"
      show ?thesis
        by (rule that(2)[where boot = boot and addr = addr and name = "ParseFakeName ctx" and cfg = "\<lparr>cc_Metrics = ParseMetrics ctx,
              cc_Port = 6061, cc_Bootnodes = boot, cc_Handler = v4_NewHandler tab0 db0 (host_identity H (ParseFakeName ctx) addr) DefaultConfig,
              cc_Qurier = ?q, cc_Keys = ParseIdentities ctx, cc_Store = store, cc_BrokerEnabled = enabled,
              cc_BrokerEndpoint = endpoint, cc_BrokerUser = user, cc_BrokerPassword = password\<rparr>"])
           (simp_all add: facts runCrawler_def Let_def)
    qed
  qed (use that(1) in \<open>simp add: runCrawler_def\<close>)
qed

text \<open>Without the table's loop, a step of the node appends to the buckets.\<close>

abbreviation bucket_of :: "('s, 'db) discovery \<Rightarrow> nat \<Rightarrow> Node list" where
  "bucket_of s i \<equiv> entries (buckets (v_tab (ph_sub (snd s))) ! i)"

lemma ph_step_grows:
  assumes "ph_step X V cfg s t" "\<not> dc_RunTab cfg" "v_tab (ph_sub (snd s)) = r_tab (fst s)" "i < length (buckets (v_tab (ph_sub (snd s))))"
  shows "prefix (bucket_of s i) (bucket_of t i)"
proof -
  have app: "prefix (bucket_of s i) (entries (buckets (AddSeenNode X now (v_tab (ph_sub (snd s))) n) ! i))" for now n
    using AddSeenNode_appends[of i "v_tab (ph_sub (snd s))" X now n] assms(4) by (auto simp: prefix_def)
  show ?thesis
    using assms(1)
  proof cases
    case (packet r h E dur rec decoded "from" port)
    then show ?thesis using app packet_tab[OF refl, of X V E dur rec decoded "from" port h] by (auto simp: share_def)
  next
    case (answered r h now n)
    then show ?thesis using app[of now n] assms(3) by (simp add: with_tab_def)
  qed (use assms(2) in \<open>auto simp: share_def request_frame\<close>)
qed

section \<open>Properties\<close>

text \<open>C32: What it takes to start the crawler. The launcher runs an application only if the flags name at least one boot node,
  all of them parse and are complete, the store opens, the socket opens, and the broker is connected exactly when it is
  enabled; the handler is then the one of \<open>MakeHandler\<close> over these boot nodes, and what the crawler tells others about
  its ports is the socket's port. It panics only when an enabled broker cannot be reached or a boot node is incomplete.\<close>

theorem crawler_launch:
  "case runCrawler X L H now seeds db tab0 db0 dial ParseV4 newStore ctx of
     Failed e \<Rightarrow> True
   | Panicked e \<Rightarrow> IsSet ctx ''enable_broker'' \<and> dial (cli_String ctx ''broker_endpoint'') (cli_String ctx ''broker_user'')
         (cli_String ctx ''broker_password'') \<noteq> (None, None)
       \<or> (\<exists>boot. ParseNodes ParseV4 ctx = Inr boot \<and> firstInvalid (x_Validate X) boot \<noteq> None)
   | Runs app \<Rightarrow> (\<exists>boot addr. ParseNodes ParseV4 ctx = Inr boot \<and> boot \<noteq> [] \<and> firstInvalid (x_Validate X) boot = None
       \<and> cc_Bootnodes (ap_config app) = boot \<and> ParseDb newStore ctx = Inr (cc_Store (ap_config app))
       \<and> ho_listen H (Some (ParseDiscPort ctx)) = Inr addr
       \<and> v_udp (cc_Handler (ap_config app)) = snd addr \<and> v_tcp (cc_Handler (ap_config app)) = snd addr
       \<and> (ap_broker app = VoidBroker \<longleftrightarrow> \<not> IsSet ctx ''enable_broker'')
       \<and> MakeHandler X L now seeds (ParseMetrics ctx) boot db (cc_Handler (ap_config app))
           = Inr (ap_handler app, ap_writer app, ap_acceptor app))"
proof (cases rule: runCrawler_cases[of X L H now seeds db tab0 db0 dial ParseV4 newStore ctx])
  case (1 e)
  then show ?thesis by simp
next
  case (2 boot addr name cfg)
  have b: "IsSet ctx ''enable_broker'' \<longleftrightarrow> cc_BrokerEnabled cfg"
    "cc_BrokerEnabled cfg \<Longrightarrow> cc_BrokerUser cfg = cli_String ctx ''broker_user'' \<and> cc_BrokerPassword cfg = cli_String ctx ''broker_password''
       \<and> cc_BrokerEndpoint cfg = cli_String ctx ''broker_endpoint''"
    using 2(8) by (auto simp: ParseBroker_def split: if_splits)
  show ?thesis
    using NewCrawlApp_outcome[where cfg = cfg and X = X and L = L and now = now and seeds = seeds and db = db and dial = dial] 2 b crawler_ports[of tab0 db0 H name addr DefaultConfig]
    by (cases "NewCrawlApp X L now seeds db dial cfg") auto
qed

text \<open>C17: The crawler runs without the table's loop (\<open>RunTab\<close> is false), so its table only grows: from any state of the node to
  any later one, the live entries of each bucket are kept in place and at most appended to, up to 16. A full bucket never
  changes again, whether or not its nodes still answer.\<close>

theorem crawler_table_only_grows:
  assumes "table_env X cnt lim near" and "MakeHandler X L now seeds metrics boot db sub = Inr (h0, w, acc)"
    and "reach (\<lambda>s. s = (loop_start (v_tab (ph_sub h0)), h0)) (ph_step X V (crawler_disc boot)) s"
    and "reach (\<lambda>u. u = s) (ph_step X V (crawler_disc boot)) t" and "i < 17"
  shows "prefix (entries (buckets (v_tab (ph_sub (snd s))) ! i)) (entries (buckets (v_tab (ph_sub (snd t))) ! i))
    \<and> length (entries (buckets (v_tab (ph_sub (snd t))) ! i)) \<le> 16
    \<and> (length (entries (buckets (v_tab (ph_sub (snd s))) ! i)) = 16 \<longrightarrow>
         entries (buckets (v_tab (ph_sub (snd t))) ! i) = entries (buckets (v_tab (ph_sub (snd s))) ! i))"
proof -
  let ?c = "crawler_disc boot"
  have "ph_init X L ?c (loop_start (v_tab (ph_sub h0)), h0)"
    using assms(2) unfolding ph_init_def MakeHandler_def by (auto split: sum.splits intro!: exI)
  then have s: "reach (ph_init X L ?c) (ph_step X V ?c) s" by (rule reach_from[OF assms(3)])
  have inv: "tab_inv X cnt lim near (v_tab (ph_sub (snd u))) \<and> v_tab (ph_sub (snd u)) = r_tab (fst u)"
    if "reach (ph_init X L ?c) (ph_step X V ?c) u" for u
    using discovery_run.reach_inv[OF that] table_env.run_reach[OF assms(1)] unfolding ph_inv_def run_inv_def by metis
  have len: "length (bucket_of u i) \<le> 16" "length (buckets (v_tab (ph_sub (snd u)))) = 17"
    if "reach (ph_init X L ?c) (ph_step X V ?c) u" for u
    using inv[OF that] assms(5) by (auto simp: tab_inv_def shape_inv_def bucket_ok_def bucketSize_eq)
  have g: "prefix (bucket_of s i) (bucket_of t i)"
    using assms(4)
  proof (induction rule: reach.induct)
    case (reach_step u t)
    have u: "reach (ph_init X L ?c) (ph_step X V ?c) u" by (rule reach_trans[OF reach_step(1) s])
    then have "prefix (bucket_of u i) (bucket_of t i)"
      using ph_step_grows[OF reach_step(2)] inv[OF u] len(2)[OF u] assms(5) by (simp add: crawler_disc_def)
    with reach_step(3) show ?case by (rule prefix_order.trans)
  qed simp
  have t: "length (bucket_of t i) \<le> 16" by (rule len(1)[OF reach_trans[OF assms(4) s]])
  with g have "length (bucket_of s i) = 16 \<Longrightarrow> bucket_of t i = bucket_of s i" by (metis le_antisym not_equal_is_parallel parallelD1 prefix_length_le)
  with g t show ?thesis by simp
qed

theorem crawler_table_only_grows_witness:
  "\<exists>h0. MakeHandler (ex_env 0) default_limits 0 [] True [] (v_store (ex_v4 0)) (ex_v4 0) = Inr (h0, crawler_writer, NewPoolAcceptor 4)
     \<and> (let tab = v_tab (ph_sub h0); t = AddSeenNode (ex_env 0) 0 tab (ex_node 5 [1,2,3,4]) in
        prefix (entries (buckets tab ! 16)) (entries (buckets t ! 16)) \<and> length (entries (buckets t ! 16)) \<le> 16)"
proof -
  let ?c = "crawler_disc []"
  obtain h0 where h0: "MakeHandler (ex_env 0) default_limits 0 [] True [] (v_store (ex_v4 0)) (ex_v4 0) = Inr (h0, crawler_writer, NewPoolAcceptor 4)"
    by (simp add: MakeHandler_def NewHandler_def NewTable_def setFallbackNodes_def crawler_disc_def config_Verify_def Let_def)
  let ?s = "(loop_start (v_tab (ph_sub h0)), h0)"
  let ?t = "with_tab ((loop_start (v_tab (ph_sub h0)))\<lparr>r_tab := AddSeenNode (ex_env 0) 0 (v_tab (ph_sub h0)) (ex_node 5 [1,2,3,4])\<rparr>) h0"
  have s: "reach (\<lambda>u. u = ?s) (ph_step (ex_env 0) ex_ext ?c) ?s" by (rule reach_init) (rule refl)
  have "ph_step (ex_env 0) ex_ext ?c ?s ?t"
    using ph_step.answered[of "ex_env 0" ex_ext ?c "loop_start (v_tab (ph_sub h0))" h0 0 "ex_node 5 [1,2,3,4]"] by (simp add: loop_start_def)
  then have t: "reach (\<lambda>u. u = ?s) (ph_step (ex_env 0) ex_ext ?c) ?t" by (rule reach_step[OF s])
  have "prefix (bucket_of ?s 16) (bucket_of ?t 16) \<and> length (bucket_of ?t 16) \<le> 16"
    using crawler_table_only_grows[OF ex_table.table_env_axioms h0 s t, of 16] by simp
  with h0 show ?thesis by (auto simp: with_tab_def Let_def)
qed

end
