(* ===== verification/Flags.thy ===== *)
theory Flags
  imports Program
begin

text \<open>
  The flags of the two programs (\<open>crawler/app/flags.go\<close>, \<open>scanner/app/flags.go\<close>) and the commands that declare them. A command
  sees only the flags it declares, each with its type: what the command-line library documents of \<open>IsSet\<close> and of the typed
  accessors is \<open>declared\<close>.
\<close>

section \<open>Flags and commands\<close>

datatype flag_kind = StringFlag | BoolFlag | IntFlag | UintFlag | Uint64Flag | StringSliceFlag

type_synonym flag = "string \<times> flag_kind"

definition NodesFlag :: flag where "NodesFlag = (''nodes'', StringFlag)"
definition TimeOutInMinutesFlag :: flag where "TimeOutInMinutesFlag = (''timeout'', Uint64Flag)"
definition ConcurrencyFactorFlag :: flag where "ConcurrencyFactorFlag = (''concurrency'', Uint64Flag)"
definition DirFlag :: flag where "DirFlag = (''dir'', StringFlag)"
definition MetricsFlag :: flag where "MetricsFlag = (''metrics'', BoolFlag)"
definition IdentitiesFlag :: flag where "IdentitiesFlag = (''identities'', StringSliceFlag)"
definition DiscPort :: flag where "DiscPort = (''discport'', IntFlag)"
definition FakeNameFlag :: flag where "FakeNameFlag = (''fakename'', StringFlag)"
definition FakeCaps :: flag where "FakeCaps = (''fakecaps'', StringSliceFlag)"

definition crawler_broker_flags :: "flag list" where
  "crawler_broker_flags = [(''enable_broker'', BoolFlag), (''broker_endpoint'', StringFlag), (''broker_password'', StringFlag), (''broker_user'', StringFlag)]"

definition crawler_db_flags :: "flag list" where
  "crawler_db_flags = [(''db_source'', StringFlag), (''db_migration_url'', StringFlag)]"

definition CrawlerCommand :: "flag list" where
  "CrawlerCommand = [NodesFlag, MetricsFlag, IdentitiesFlag, DiscPort, FakeNameFlag, FakeCaps] @ crawler_broker_flags @ crawler_db_flags"

definition discv4PingCommand :: "flag list" where "discv4PingCommand = [NodesFlag]"
definition discv4GetRandomNodes :: "flag list" where "discv4GetRandomNodes = [NodesFlag]"
definition discv4GetEnr :: "flag list" where "discv4GetEnr = [NodesFlag]"
definition discv4PeekDb :: "flag list" where
  "discv4PeekDb = [NodesFlag, TimeOutInMinutesFlag, ConcurrencyFactorFlag, DirFlag]"

definition BrokerFlags :: "flag list" where
  "BrokerFlags = [(''broker_enabled'', BoolFlag), (''broker_endpoint'', StringFlag), (''broker_user'', StringFlag), (''broker_password'', StringFlag)]"

definition DbFlags :: "flag list" where
  "DbFlags = [(''db_enabled'', BoolFlag), (''db_source'', StringFlag), (''db_migration_url'', StringFlag)]"

definition CacheFlags :: "flag list" where
  "CacheFlags = [(''cache_enabled'', BoolFlag), (''cache_endpoint'', StringFlag), (''cache_password'', StringFlag)]"

definition baseFlags :: "flag list" where
  "baseFlags = [(''verbose'', BoolFlag), (''interval_in_ms'', UintFlag), (''burst'', StringFlag), (''ips'', StringSliceFlag),
     (''port_start'', UintFlag), (''port_end'', UintFlag)]"

definition EventScanCommand :: "flag list" where
  "EventScanCommand = [(''metrics'', BoolFlag)] @ BrokerFlags @ CacheFlags @ DbFlags @ baseFlags"

definition IpScanCommand :: "flag list" where
  "IpScanCommand = baseFlags"

text \<open>What a command sees of a command line. \<open>Int\<close> parses the text of any integer flag; every other accessor gives the zero
  value for a flag of another type or one that is not declared.\<close>

definition declared :: "flag list \<Rightarrow> cli \<Rightarrow> cli" where
  "declared fs c = \<lparr>IsSet = (\<lambda>n. n \<in> fst ` set fs \<and> IsSet c n),
     cli_Bool = (\<lambda>n. (n, BoolFlag) \<in> set fs \<and> cli_Bool c n),
     cli_String = (\<lambda>n. if (n, StringFlag) \<in> set fs then cli_String c n else []),
     cli_StringSlice = (\<lambda>n. if (n, StringSliceFlag) \<in> set fs then cli_StringSlice c n else []),
     cli_Int = (\<lambda>n. if {(n, IntFlag), (n, UintFlag), (n, Uint64Flag)} \<inter> set fs \<noteq> {} then cli_Int c n else 0),
     cli_Uint = (\<lambda>n. if (n, UintFlag) \<in> set fs then cli_Uint c n else 0),
     cli_Uint64 = (\<lambda>n. if (n, Uint64Flag) \<in> set fs then cli_Uint64 c n else 0)\<rparr>"

section \<open>Lemmas\<close>

lemmas flag_defs = NodesFlag_def TimeOutInMinutesFlag_def ConcurrencyFactorFlag_def DirFlag_def MetricsFlag_def IdentitiesFlag_def
  DiscPort_def FakeNameFlag_def FakeCaps_def crawler_broker_flags_def crawler_db_flags_def CrawlerCommand_def discv4PingCommand_def
  discv4GetRandomNodes_def discv4GetEnr_def discv4PeekDb_def BrokerFlags_def DbFlags_def CacheFlags_def baseFlags_def
  EventScanCommand_def IpScanCommand_def

lemma crawler_flags:
  "ParseNodes p (declared CrawlerCommand c) = ParseNodes p c" "ParseMetrics (declared CrawlerCommand c) = ParseMetrics c"
  "ParseIdentities (declared CrawlerCommand c) = ParseIdentities c" "ParseDiscPort (declared CrawlerCommand c) = ParseDiscPort c"
  "ParseFakeName (declared CrawlerCommand c) = ParseFakeName c" "ParseFakeCaps (declared CrawlerCommand c) = ParseFakeCaps c"
  "ParseBroker (declared CrawlerCommand c) = ParseBroker c" "ParseDb ns (declared CrawlerCommand c) = ParseDb ns c"
  by (simp_all add: ParseNodes_def ParseMetrics_def ParseIdentities_def ParseDiscPort_def ParseFakeName_def ParseFakeCaps_def
      ParseBroker_def ParseDb_def declared_def flag_defs)

lemma disc_flags:
  "ParseNodes p (declared discv4PingCommand c) = ParseNodes p c" "ParseNodes p (declared discv4GetRandomNodes c) = ParseNodes p c"
  "ParseNodes p (declared discv4GetEnr c) = ParseNodes p c" "ParseNodes p (declared discv4PeekDb c) = ParseNodes p c"
  "ParseTimeout (declared discv4PeekDb c) = ParseTimeout c" "ParseConcurrency (declared discv4PeekDb c) = ParseConcurrency c"
  "ParseDir (declared discv4PeekDb c) = ParseDir c"
  by (simp_all add: ParseNodes_def ParseTimeout_def ParseConcurrency_def ParseDir_def declared_def flag_defs)

text \<open>What the two commands of the scanner see of the flags the parsers read.\<close>

lemma event_scan_sees:
  "n \<in> {''metrics'', ''broker_enabled'', ''db_enabled'', ''cache_enabled'', ''verbose''} \<Longrightarrow>
    IsSet (declared EventScanCommand c) n = IsSet c n \<and> cli_Bool (declared EventScanCommand c) n = cli_Bool c n"
  "n \<in> {''broker_endpoint'', ''broker_user'', ''broker_password'', ''db_source'', ''db_migration_url'', ''cache_endpoint'', ''cache_password''} \<Longrightarrow>
    IsSet (declared EventScanCommand c) n = IsSet c n \<and> cli_String (declared EventScanCommand c) n = cli_String c n"
  "IsSet (declared EventScanCommand c) ''ips'' = IsSet c ''ips''" "cli_StringSlice (declared EventScanCommand c) ''ips'' = cli_StringSlice c ''ips''"
  "IsSet (declared EventScanCommand c) ''interval_in_ms'' = IsSet c ''interval_in_ms''"
  "cli_Int (declared EventScanCommand c) ''interval_in_ms'' = cli_Int c ''interval_in_ms''"
  by (auto simp: declared_def flag_defs)

lemma event_scan_parsers:
  "scan_ParseMetrics (declared EventScanCommand c) = scan_ParseMetrics c" "scan_ParseInterval (declared EventScanCommand c) = scan_ParseInterval c"
  "scan_ParseIps p (declared EventScanCommand c) = scan_ParseIps p c" "scan_ParseBroker (declared EventScanCommand c) = scan_ParseBroker c"
  "scan_ParseDb (declared EventScanCommand c) = scan_ParseDb c" "scan_ParseCache (declared EventScanCommand c) = scan_ParseCache c"
  by (simp_all add: fun_eq_iff scan_ParseMetrics_def scan_ParseInterval_def scan_ParseIps_def scan_ParseBroker_def scan_ParseDb_def
      scan_ParseCache_def event_scan_sees)

lemma event_scan_flags: "scan_Parse p (declared EventScanCommand c) cfg = scan_Parse p c cfg"
  by (simp add: scan_Parse_def event_scan_parsers event_scan_sees)

lemma ip_scan_sees:
  "\<not> IsSet (declared IpScanCommand c) ''metrics''" "\<not> IsSet (declared IpScanCommand c) ''broker_enabled''"
  "\<not> IsSet (declared IpScanCommand c) ''db_enabled''" "\<not> IsSet (declared IpScanCommand c) ''cache_enabled''"
  "IsSet (declared IpScanCommand c) ''ips'' = IsSet c ''ips''" "cli_StringSlice (declared IpScanCommand c) ''ips'' = cli_StringSlice c ''ips''"
  "IsSet (declared IpScanCommand c) ''interval_in_ms'' = IsSet c ''interval_in_ms''"
  "cli_Int (declared IpScanCommand c) ''interval_in_ms'' = cli_Int c ''interval_in_ms''"
  by (simp_all add: declared_def flag_defs)

lemma ip_scan_parsers:
  "scan_ParseMetrics (declared IpScanCommand c) cfg = cfg" "scan_ParseBroker (declared IpScanCommand c) cfg = (cfg, None)"
  "scan_ParseDb (declared IpScanCommand c) cfg = (cfg, None)" "scan_ParseCache (declared IpScanCommand c) cfg = (cfg, None)"
  "scan_ParseInterval (declared IpScanCommand c) cfg = scan_ParseInterval c cfg"
  "scan_ParseIps p (declared IpScanCommand c) cfg = scan_ParseIps p c cfg"
  by (simp_all only: scan_ParseMetrics_def scan_ParseBroker_def scan_ParseDb_def scan_ParseCache_def scan_ParseInterval_def scan_ParseIps_def
      ip_scan_sees if_False if_True simp_thms)

text \<open>The parsers of the scanner write the fields they are named after and no others.\<close>

lemma append_ips_frame:
  "\<exists>xs. fst (append_ips p raws cfg) = cfg\<lparr>Ips := Ips cfg @ xs\<rparr>"
proof (induction raws arbitrary: cfg)
  case Nil
  have "cfg = cfg\<lparr>Ips := Ips cfg @ []\<rparr>" by simp
  then show ?case unfolding append_ips.simps fst_conv by blast
next
  case (Cons r rs)
  show ?case
  proof (cases "p r")
    case None
    have "cfg = cfg\<lparr>Ips := Ips cfg @ []\<rparr>" by simp
    then show ?thesis unfolding append_ips.simps None option.case fst_conv by blast
  next
    case (Some a)
    from Cons[of "cfg\<lparr>Ips := Ips cfg @ [a]\<rparr>"] show ?thesis by (auto simp: Some)
  qed
qed

lemma scan_ParseIps_frame: "\<exists>xs. fst (scan_ParseIps p c cfg) = cfg\<lparr>Ips := Ips cfg @ xs\<rparr>"
proof (cases "IsSet c ''ips''")
  case True
  then have "fst (scan_ParseIps p c cfg) = fst (append_ips p (cli_StringSlice c ''ips'') cfg)"
    by (simp add: scan_ParseIps_def split: prod.splits option.splits)
  with append_ips_frame show ?thesis by metis
next
  case False
  then have "fst (scan_ParseIps p c cfg) = cfg\<lparr>Ips := Ips cfg @ []\<rparr>" by (simp add: scan_ParseIps_def)
  then show ?thesis by blast
qed

lemma scan_ParseInterval_frame: "\<exists>d. scan_ParseInterval c cfg = cfg\<lparr>Interval := d\<rparr>"
proof (cases "IsSet c ''interval_in_ms''")
  case True
  then show ?thesis by (auto simp: scan_ParseInterval_def)
next
  case False
  then have "scan_ParseInterval c cfg = cfg\<lparr>Interval := Interval cfg\<rparr>" by (simp add: scan_ParseInterval_def)
  then show ?thesis by blast
qed

lemma ip_scan_config:
  obtains d xs where "snd (scan_Parse p (declared IpScanCommand c) cfg) = (cfg\<lparr>Interval := d, Ips := Ips cfg @ xs\<rparr>, None)"
proof -
  obtain d where d: "scan_ParseInterval c cfg = cfg\<lparr>Interval := d\<rparr>" using scan_ParseInterval_frame by blast
  obtain xs where "fst (scan_ParseIps p c (cfg\<lparr>Interval := d\<rparr>)) = cfg\<lparr>Interval := d, Ips := Ips cfg @ xs\<rparr>"
    using scan_ParseIps_frame[of p c "cfg\<lparr>Interval := d\<rparr>"] by auto
  then have "snd (scan_Parse p (declared IpScanCommand c) cfg) = (cfg\<lparr>Interval := d, Ips := Ips cfg @ xs\<rparr>, None)"
    by (simp add: scan_Parse_def Let_def ip_scan_parsers d)
  then show thesis by (rule that)
qed

lemma other_flags: "scan_Parse p (c\<lparr>IsSet := (IsSet c)(''burst'' := b1, ''port_start'' := b2, ''port_end'' := b3), cli_Uint := u\<rparr>) cfg = scan_Parse p c cfg"
  (is "scan_Parse p ?d cfg = _")
proof -
  have s: "IsSet ?d n = IsSet c n" if "n \<notin> {''burst'', ''port_start'', ''port_end''}" for n using that by simp
  have t: "IsSet ?d ''metrics'' = IsSet c ''metrics''" "IsSet ?d ''broker_enabled'' = IsSet c ''broker_enabled''"
    "IsSet ?d ''db_enabled'' = IsSet c ''db_enabled''" "IsSet ?d ''cache_enabled'' = IsSet c ''cache_enabled''"
    "IsSet ?d ''verbose'' = IsSet c ''verbose''" "IsSet ?d ''broker_endpoint'' = IsSet c ''broker_endpoint''"
    "IsSet ?d ''broker_user'' = IsSet c ''broker_user''" "IsSet ?d ''broker_password'' = IsSet c ''broker_password''"
    "IsSet ?d ''db_source'' = IsSet c ''db_source''" "IsSet ?d ''db_migration_url'' = IsSet c ''db_migration_url''"
    "IsSet ?d ''cache_endpoint'' = IsSet c ''cache_endpoint''" "IsSet ?d ''cache_password'' = IsSet c ''cache_password''"
    "IsSet ?d ''ips'' = IsSet c ''ips''" "IsSet ?d ''interval_in_ms'' = IsSet c ''interval_in_ms''"
    by (rule s, simp)+
  have u: "cli_Bool ?d = cli_Bool c" "cli_String ?d = cli_String c" "cli_StringSlice ?d = cli_StringSlice c" "cli_Int ?d = cli_Int c" by simp_all
  show ?thesis
    unfolding scan_Parse_def scan_ParseMetrics_def scan_ParseInterval_def scan_ParseIps_def scan_ParseBroker_def scan_ParseDb_def
      scan_ParseCache_def t u ..
qed

section \<open>Property\<close>

text \<open>C33: The actions of the commands read the command line as they declare it: the crawler, the commands that ask nodes and the
  event scanner behave as if only the declared flags existed, with their declared types. The address scan parses without
  error and runs without broker, store, cache and metrics whatever is given for them, over the full range of ports; and the
  declared flags \<open>burst\<close>, \<open>port_start\<close> and \<open>port_end\<close> change nothing.\<close>

theorem flags_typed:
  "runCrawler X L H now seeds db tab0 db0 dial ParseV4 newStore (declared CrawlerCommand c) = runCrawler X L H now seeds db tab0 db0 dial ParseV4 newStore c
   \<and> runEventScanner p procs (declared EventScanCommand c) be ce se run = runEventScanner p procs c be ce se run
   \<and> ParseNodes ParseV4 (declared discv4PingCommand c) = ParseNodes ParseV4 c
   \<and> ParseNodes ParseV4 (declared discv4GetRandomNodes c) = ParseNodes ParseV4 c
   \<and> ParseNodes ParseV4 (declared discv4GetEnr c) = ParseNodes ParseV4 c
   \<and> ParseNodes ParseV4 (declared discv4PeekDb c) = ParseNodes ParseV4 c
   \<and> ParseTimeout (declared discv4PeekDb c) = ParseTimeout c
   \<and> ParseConcurrency (declared discv4PeekDb c) = ParseConcurrency c
   \<and> ParseDir (declared discv4PeekDb c) = ParseDir c
   \<and> (\<exists>d xs. snd (scan_Parse p (declared IpScanCommand c) (scan_DefaultConfig procs)) = ((scan_DefaultConfig procs)\<lparr>Interval := d, Ips := xs\<rparr>, None))
   \<and> scan_Parse p (c\<lparr>IsSet := (IsSet c)(''burst'' := b1, ''port_start'' := b2, ''port_end'' := b3), cli_Uint := u\<rparr>) cfg = scan_Parse p c cfg"
proof (intro conjI)
  show "runCrawler X L H now seeds db tab0 db0 dial ParseV4 newStore (declared CrawlerCommand c) = runCrawler X L H now seeds db tab0 db0 dial ParseV4 newStore c"
    unfolding runCrawler_def crawler_flags ..
  show "runEventScanner p procs (declared EventScanCommand c) be ce se run = runEventScanner p procs c be ce se run"
    unfolding runEventScanner_def event_scan_flags ..
  show "\<exists>d xs. snd (scan_Parse p (declared IpScanCommand c) (scan_DefaultConfig procs)) = ((scan_DefaultConfig procs)\<lparr>Interval := d, Ips := xs\<rparr>, None)"
    by (rule ip_scan_config[of p c "scan_DefaultConfig procs"]) blast
qed (rule disc_flags other_flags)+

end
