(* ===== verification/Events.thy ===== *)
theory Events
  imports Prelude
begin

text \<open>
  \<open>crawler/events\<close>: the typed event feed. \<open>Send\<close> starts a goroutine that holds the read lock while it
  sends to every listener in turn; \<open>Subscribe\<close>, \<open>Unsubscribe\<close> and \<open>Stop\<close> hold the write lock, so they
  are steps that need all senders to have finished. A listener is identified by the UUID of its
  subscription. \<open>f_recv\<close> are the listeners whose channel somebody still receives from; a send on an
  unbuffered channel completes only with a receiver. A send on a closed channel, or closing a channel
  twice, sets \<open>f_panic\<close>.
\<close>

section \<open>The feed\<close>

record 'a feed =
  f_listeners :: "nat list"
  f_subs :: int
  f_stopped :: bool
  f_senders :: "('a \<times> bool \<times> nat list) list"
  f_recv :: "nat set"
  f_closed :: "nat list"
  f_delivered :: "(nat \<times> 'a) list"
  f_panic :: bool

definition NewFeed :: "'a feed" where
  "NewFeed = \<lparr>f_listeners = [], f_subs = 0, f_stopped = False, f_senders = [], f_recv = {}, f_closed = [],
     f_delivered = [], f_panic = False\<rparr>"

definition Subscribe :: "nat \<Rightarrow> 'a feed \<Rightarrow> 'a feed" where
  "Subscribe i f =
     (if f_stopped f then f
      else f\<lparr>f_listeners := f_listeners f @ [i], f_subs := f_subs f + 1, f_recv := insert i (f_recv f)\<rparr>)"

text \<open>\<open>wrappedChan.Close\<close>: marks the channel done, waits until no send on it is under way and closes it. \<open>wrappedChan.Send\<close>
  in its two steps: the check of \<open>done\<close>, then the send itself. A sender is the datum, whether the send to
  the first listener has passed the check, and the listeners left.\<close>

definition close_chan :: "nat \<Rightarrow> 'a feed \<Rightarrow> 'a feed" where
  "close_chan i f = f\<lparr>f_panic := f_panic f \<or> i \<in> set (f_closed f), f_closed := i # f_closed f\<rparr>"

definition Unsubscribe :: "nat \<Rightarrow> 'a feed \<Rightarrow> 'a feed" where
  "Unsubscribe i f =
     (if i \<notin> set (f_listeners f) then f
      else close_chan i (f\<lparr>f_subs := f_subs f - 1, f_listeners := remove1 i (f_listeners f)\<rparr>))"

fun close_all :: "nat list \<Rightarrow> 'a feed \<Rightarrow> 'a feed" where
  "close_all [] f = f"
| "close_all (i # is) f = close_all is (close_chan i f)"

definition stop :: "'a feed \<Rightarrow> 'a feed" where
  "stop f = (close_all (f_listeners f) f)\<lparr>f_listeners := []\<rparr>"

inductive chan_send :: "'a feed \<Rightarrow> 'a \<times> bool \<times> nat list \<Rightarrow> 'a \<times> bool \<times> nat list \<Rightarrow> 'a feed \<Rightarrow> bool" where
  chan_done: "i \<in> set (f_closed f) \<Longrightarrow> chan_send f (d, False, i # is) (d, False, is) f"
| chan_open: "i \<notin> set (f_closed f) \<Longrightarrow> chan_send f (d, False, i # is) (d, True, i # is) f"
| chan_sent: "i \<in> f_recv f \<Longrightarrow> i \<notin> set (f_closed f) \<Longrightarrow>
    chan_send f (d, True, i # is) (d, False, is) (f\<lparr>f_delivered := f_delivered f @ [(i, d)]\<rparr>)"
| chan_panic: "i \<in> set (f_closed f) \<Longrightarrow> chan_send f (d, True, i # is) (d, False, is) (f\<lparr>f_panic := True\<rparr>)"

text \<open>Steps; the listeners of a \<open>range\<close> over the map come in any order.\<close>

inductive feed_step :: "'a feed \<Rightarrow> 'a feed \<Rightarrow> bool" where
  subscribe: "f_senders f = [] \<Longrightarrow> i \<notin> set (f_listeners f) \<union> set (f_closed f) \<union> f_recv f \<Longrightarrow> feed_step f (Subscribe i f)"
| unsubscribe: "f_senders f = [] \<Longrightarrow> feed_step f (Unsubscribe i f)"
| stop_cas: "\<not> f_stopped f \<Longrightarrow> feed_step f (f\<lparr>f_stopped := True\<rparr>)"
| stop_lock: "f_stopped f \<Longrightarrow> f_senders f = [] \<Longrightarrow> feed_step f (stop f)"
| send: "f_subs f \<noteq> 0 \<Longrightarrow> mset order = mset (f_listeners f) \<Longrightarrow>
    feed_step f (f\<lparr>f_senders := f_senders f @ [(d, False, order)]\<rparr>)"
| work: "f_senders f = xs @ s # ys \<Longrightarrow> chan_send f s s' f' \<Longrightarrow> feed_step f (f'\<lparr>f_senders := xs @ s' # ys\<rparr>)"
| sent: "f_senders f = xs @ (d, b, []) # ys \<Longrightarrow> feed_step f (f\<lparr>f_senders := xs @ ys\<rparr>)"
| leave: "feed_step f (f\<lparr>f_recv := f_recv f - {i}\<rparr>)"

inductive_cases chan_sendE: "chan_send f s s' f'"
inductive_cases feed_stepE: "feed_step f g"

definition sender_ok :: "nat set \<Rightarrow> 'a \<times> bool \<times> nat list \<Rightarrow> bool" where
  "sender_ok L s \<longleftrightarrow> set (snd (snd s)) \<subseteq> L \<and> distinct (snd (snd s))"

definition feed_inv :: "'a feed \<Rightarrow> bool" where
  "feed_inv f \<longleftrightarrow> \<not> f_panic f \<and> distinct (f_listeners f @ f_closed f)
     \<and> (\<forall>s \<in> set (f_senders f). sender_ok (set (f_listeners f)) s)"

lemma close_all_sel [simp]:
  "f_listeners (close_all is f) = f_listeners f" "f_senders (close_all is f) = f_senders f"
  "f_closed (close_all is f) = rev is @ f_closed f"
  by (induction "is" arbitrary: f) (simp_all add: close_chan_def)

lemma close_all_panic: "distinct (is @ f_closed f) \<Longrightarrow> f_panic (close_all is f) = f_panic f"
  by (induction "is" arbitrary: f) (auto simp: close_chan_def)

lemma chan_send_inv:
  assumes "chan_send f s s' f'" "sender_ok (set (f_listeners f)) s" "set (f_listeners f) \<inter> set (f_closed f) = {}" "\<not> f_panic f"
  shows "sender_ok (set (f_listeners f)) s' \<and> f_listeners f' = f_listeners f \<and> f_closed f' = f_closed f \<and> \<not> f_panic f'"
  using assms by (cases rule: chan_send.cases) (auto simp: sender_ok_def)

lemma feed_inv_step: "feed_inv f \<Longrightarrow> feed_step f g \<Longrightarrow> feed_inv g"
proof (erule feed_stepE, goal_cases)
  case 4
  then show ?case by (auto simp: feed_inv_def stop_def close_all_panic)
next
  case (5 order d)
  then have "set order = set (f_listeners f)" "distinct order"
    by (auto simp: feed_inv_def dest: mset_eq_setD mset_eq_imp_distinct_iff)
  with 5 show ?case by (simp add: feed_inv_def sender_ok_def)
next
  case (6 xs s ys s' f')
  then show ?case using chan_send_inv[OF 6(4)] by (simp add: feed_inv_def)
qed (auto simp: feed_inv_def Subscribe_def Unsubscribe_def close_chan_def distinct_remove1 dest: in_set_remove1[THEN iffD1, rotated])

interpretation feed_sys: inv_system "\<lambda>f. f = NewFeed" feed_step feed_inv
  by unfold_locales (simp add: feed_inv_def NewFeed_def, rule feed_inv_step)

text \<open>A sender blocked on a listener that nobody reads keeps the read lock: the listener stays.\<close>

definition blocked_on :: "nat \<Rightarrow> 'a feed \<Rightarrow> bool" where
  "blocked_on i f \<longleftrightarrow> i \<in> set (f_listeners f) \<and> i \<notin> f_recv f \<and> i \<notin> set (f_closed f)
     \<and> (\<exists>d b is. (d, b, i # is) \<in> set (f_senders f))"

lemma blocked_step: "blocked_on i f \<Longrightarrow> feed_step f g \<Longrightarrow> blocked_on i g"
proof (erule feed_stepE, goal_cases)
  case (6 xs s ys s' f')
  then show ?case by (auto simp: blocked_on_def elim!: chan_sendE)
qed (auto simp: blocked_on_def Subscribe_def)

lemma blocked_forever: "feed_step\<^sup>*\<^sup>* f g \<Longrightarrow> blocked_on i f \<Longrightarrow> blocked_on i g"
  by (induction rule: rtranclp_induct) (auto intro: blocked_step)

lemma blocked_stays: "blocked_on i g \<Longrightarrow> i \<in> set (f_listeners g) \<and> f_senders g \<noteq> []"
  by (auto simp: blocked_on_def)

lemma reach_new: "reach (\<lambda>f. f = NewFeed) feed_step NewFeed"
  by (rule reach_init) simp

section \<open>Properties\<close>

text \<open>However subscriptions, deliveries, unsubscriptions and the stop interleave, the feed never sends on a closed
  channel and never closes a channel twice: the lock keeps closing and sending apart.\<close>

lemma feed_never_panics:
  assumes "reach (\<lambda>f. f = NewFeed) feed_step f"
  shows "\<not> f_panic f \<and> set (f_listeners f) \<inter> set (f_closed f) = {} \<and> distinct (f_closed f)
    \<and> (\<forall>s \<in> set (f_senders f). set (snd (snd s)) \<subseteq> set (f_listeners f))"
  using feed_sys.reach_inv[OF assms] by (simp add: feed_inv_def sender_ok_def)

text \<open>A subscriber that stops receiving before it unsubscribes can block for ever: once a sender waits for it, no
  sequence of steps of the feed removes its subscription or completes that send.\<close>

lemma unsubscribe_blocks_for_ever:
  "\<exists>f :: nat feed. reach (\<lambda>f. f = NewFeed) feed_step f
     \<and> (\<forall>g. feed_step\<^sup>*\<^sup>* f g \<longrightarrow> 1 \<in> set (f_listeners g) \<and> f_senders g \<noteq> [])"
proof -
  let ?f1 = "Subscribe 1 (NewFeed :: nat feed)"
  let ?f2 = "?f1\<lparr>f_senders := [(5, False, [1])]\<rparr>"
  let ?f3 = "?f2\<lparr>f_recv := f_recv ?f2 - {1}\<rparr>"
  have 1: "feed_step NewFeed ?f1" by (rule feed_step.subscribe) (simp_all add: NewFeed_def)
  have 2: "feed_step ?f1 ?f2" using feed_step.send[of ?f1 "[1]" 5] by (simp add: Subscribe_def NewFeed_def)
  have 3: "feed_step ?f2 ?f3" by (rule feed_step.leave)
  have "reach (\<lambda>f. f = NewFeed) feed_step ?f3" by (rule reach_step[OF reach_step[OF reach_step[OF reach_new 1] 2] 3])
  moreover have "blocked_on 1 ?f3" by (simp add: blocked_on_def Subscribe_def NewFeed_def) blast
  then have "\<forall>g. feed_step\<^sup>*\<^sup>* ?f3 g \<longrightarrow> 1 \<in> set (f_listeners g) \<and> f_senders g \<noteq> []"
    using blocked_forever blocked_stays by blast
  ultimately show ?thesis by blast
qed

end
