(* ===== verification/Workers.thy ===== *)
theory Workers
  imports Prelude
begin

text \<open>
  \<open>crawler/workers\<close>: the worker pool (\<open>base/pool.go\<close>) as a transition system of its two goroutines
  \<open>start\<close> and \<open>monitor\<close>, and the loop of the runner's workers (\<open>runner/runner.go\<close>). The system is parametric in the
  workers, with the empty worker that \<open>popWorker\<close> falls back to; \<open>p_active\<close> and \<open>p_finished\<close> are the atomic counters.
\<close>

section \<open>The pool\<close>

text \<open>The monitor checks for room, then selects; a tick spawns in a loop. Between a check and the \<open>popWorker\<close> it leads to,
  the lock is free.\<close>

datatype monitor_phase = Checking | Popping | Selecting | Ticking | TickPopping | Ended

record 'w pool =
  p_workers :: "'w list"
  p_target :: u32
  p_active :: u32
  p_finished :: u32
  p_running :: "'w list"
  p_ended :: "'w list"
  p_started :: bool
  p_monitor :: monitor_phase

definition NewPool :: "u32 \<Rightarrow> 'w pool" where
  "NewPool target = \<lparr>p_workers = [], p_target = target, p_active = 0, p_finished = 0, p_running = [], p_ended = [],
     p_started = False, p_monitor = Checking\<rparr>"

definition spawnWorker :: "'w \<Rightarrow> 'w pool \<Rightarrow> 'w pool" where
  "spawnWorker w p = p\<lparr>p_active := p_active p + 1, p_running := p_running p @ [w]\<rparr>"

fun spawn_all :: "'w list \<Rightarrow> 'w pool \<Rightarrow> 'w pool" where
  "spawn_all [] p = p"
| "spawn_all (w # ws) p = spawn_all ws (spawnWorker w p)"

definition pool_start :: "'w pool \<Rightarrow> 'w pool" where
  "pool_start p = (spawn_all (p_workers p) p)\<lparr>p_workers := [], p_started := True\<rparr>"

text \<open>\<open>popWorker\<close>; an empty list gives the empty worker \<open>e\<close>.\<close>

definition popWorker :: "'w \<Rightarrow> 'w pool \<Rightarrow> 'w \<times> 'w pool" where
  "popWorker e p = (case p_workers p of [] \<Rightarrow> (e, p) | w # ws \<Rightarrow> (w, p\<lparr>p_workers := ws\<rparr>))"

definition pop_spawn :: "'w \<Rightarrow> 'w pool \<Rightarrow> 'w pool" where
  "pop_spawn e p = (case popWorker e p of (w, q) \<Rightarrow> spawnWorker w q)"

definition addWorker :: "'w \<Rightarrow> 'w pool \<Rightarrow> 'w pool" where
  "addWorker w p = p\<lparr>p_workers := p_workers p @ [w]\<rparr>"

text \<open>The label of a step tells the workers that come from \<open>AddWorker\<close> and those that end; every other step is the pool's own.\<close>

datatype 'w pool_label = Own | Added 'w | Exited 'w

inductive pool_act :: "'w \<Rightarrow> 'w pool_label \<Rightarrow> 'w pool \<Rightarrow> 'w pool \<Rightarrow> bool" for e :: 'w where
  start: "\<not> p_started p \<Longrightarrow> pool_act e Own p (pool_start p)"
| check: "p_monitor p = Checking \<Longrightarrow>
    pool_act e Own p (p\<lparr>p_monitor := (if p_active p < p_target p \<and> p_workers p \<noteq> [] then Popping else Selecting)\<rparr>)"
| pop: "p_monitor p = Popping \<Longrightarrow> pool_act e Own p ((pop_spawn e p)\<lparr>p_monitor := Selecting\<rparr>)"
| add: "p_monitor p = Selecting \<Longrightarrow> pool_act e (Added w) p ((addWorker w p)\<lparr>p_monitor := Checking\<rparr>)"
| tick: "p_monitor p = Selecting \<Longrightarrow> pool_act e Own p (p\<lparr>p_monitor := Ticking\<rparr>)"
| tick_check: "p_monitor p = Ticking \<Longrightarrow>
    pool_act e Own p (p\<lparr>p_monitor := (if p_workers p = [] \<or> p_active p = p_target p then Checking else TickPopping)\<rparr>)"
| tick_pop: "p_monitor p = TickPopping \<Longrightarrow> pool_act e Own p ((pop_spawn e p)\<lparr>p_monitor := Ticking\<rparr>)"
| cancel: "p_monitor p = Selecting \<Longrightarrow> pool_act e Own p (p\<lparr>p_monitor := Ended\<rparr>)"
| exit: "p_running p = xs @ w # ys \<Longrightarrow>
    pool_act e (Exited w) p (p\<lparr>p_running := xs @ ys, p_active := p_active p - 1, p_finished := p_finished p + 1,
      p_ended := p_ended p @ [w]\<rparr>)"

definition pool_step :: "'w \<Rightarrow> 'w pool \<Rightarrow> 'w pool \<Rightarrow> bool" where
  "pool_step e p q \<longleftrightarrow> (\<exists>l. pool_act e l p q)"

lemma pool_stepI: "pool_act e l p q \<Longrightarrow> pool_step e p q"
  by (auto simp: pool_step_def)

inductive_cases pool_actE: "pool_act e l p q"

text \<open>With \<open>start\<close> done before any worker is added, the pool never runs more workers than its target.\<close>

definition pool_inv :: "'w pool \<Rightarrow> bool" where
  "pool_inv p \<longleftrightarrow> p_started p \<and> p_active p \<le> p_target p
     \<and> unat (p_active p) = length (p_running p) \<and> p_finished p = of_nat (length (p_ended p))
     \<and> (p_monitor p \<in> {Popping, TickPopping} \<longrightarrow> p_workers p \<noteq> [] \<and> p_active p < p_target p)"

definition pool_ready :: "u32 \<Rightarrow> 'w pool \<Rightarrow> bool" where
  "pool_ready target p \<longleftrightarrow> p = pool_start (NewPool target)"

lemma pop_spawn_inv:
  "pool_inv p \<Longrightarrow> p_monitor p \<in> {Popping, TickPopping} \<Longrightarrow> m \<notin> {Popping, TickPopping} \<Longrightarrow> pool_inv ((pop_spawn e p)\<lparr>p_monitor := m\<rparr>)"
  using unat_plus_one[of "p_active p" "p_target p"]
  by (auto simp: pool_inv_def pop_spawn_def popWorker_def spawnWorker_def word_le_nat_alt word_less_nat_alt split: list.splits)

lemma pool_exit_inv:
  assumes "pool_inv p" "p_running p = xs @ w # ys"
  shows "pool_inv (p\<lparr>p_running := xs @ ys, p_active := p_active p - 1, p_finished := p_finished p + 1,
      p_ended := p_ended p @ [w]\<rparr>)"
proof -
  have "p_active p \<noteq> 0" using assms by (auto simp: pool_inv_def)
  then have "unat (p_active p - 1) = unat (p_active p) - 1" by (rule unat_minus_one)
  with assms show ?thesis by (auto simp: pool_inv_def word_le_nat_alt word_less_nat_alt)
qed

lemma pool_inv_act: "pool_inv p \<Longrightarrow> pool_act e l p q \<Longrightarrow> pool_inv q"
proof (erule pool_actE, goal_cases)
  case (9 xs w ys)
  show ?case unfolding 9(3) by (rule pool_exit_inv[OF 9(1,4)])
next
  case 3
  then show ?case by (simp add: pop_spawn_inv)
next
  case 7
  then show ?case by (simp add: pop_spawn_inv)
qed (auto simp: pool_inv_def addWorker_def)

lemma pool_inv_ready: "pool_ready target p \<Longrightarrow> pool_inv p"
  by (simp add: pool_ready_def pool_start_def NewPool_def pool_inv_def)

interpretation pool_sys: inv_system "pool_ready target" "pool_step e" pool_inv
  by unfold_locales (auto intro: pool_inv_ready pool_inv_act simp: pool_step_def)

definition all_workers :: "'w pool \<Rightarrow> 'w multiset" where
  "all_workers p = mset (p_workers p) + mset (p_running p) + mset (p_ended p)"

lemma all_workers_spawn: "all_workers (spawnWorker w p) = add_mset w (all_workers p)"
  by (simp add: all_workers_def spawnWorker_def)

lemma all_workers_start: "all_workers (pool_start p) = all_workers p"
proof -
  have "p_workers (spawn_all ws r) = p_workers r \<and> mset (p_running (spawn_all ws r)) = mset (p_running r) + mset ws
      \<and> p_ended (spawn_all ws r) = p_ended r" for ws and r :: "'a pool"
    by (induction ws arbitrary: r) (simp_all add: spawnWorker_def)
  then show ?thesis by (simp add: all_workers_def pool_start_def)
qed

text \<open>What a step does to the workers of a pool: those that wait, run or have ended.\<close>

lemma all_workers_act:
  assumes "pool_act e l p q"
  shows "(case l of Added w \<Rightarrow> all_workers q = add_mset w (all_workers p) | Exited w \<Rightarrow> all_workers q = all_workers p
    | Own \<Rightarrow> all_workers q = all_workers p \<or> all_workers q = add_mset e (all_workers p) \<and> p_workers p = [] \<and> p_monitor p \<in> {Popping, TickPopping})"
  using assms
proof (cases rule: pool_act.cases)
  case start
  then show ?thesis by (simp add: all_workers_start)
qed (auto simp: pop_spawn_def popWorker_def spawnWorker_def addWorker_def all_workers_def split: list.splits)

section \<open>The loop of a runner's worker\<close>

text \<open>
  What \<open>recv\<close> returns: an item, or the end (the context is done, or the iterator has stopped; an item
  taken from a stopped iterator is dropped). \<open>OnData\<close> answers with an error or a result; in write mode
  results are pushed to the output iterator.
\<close>

datatype 't received = Item 't | CtxDone string | IterStopped

fun workLoop :: "bool \<Rightarrow> ('t \<Rightarrow> string + 'y) \<Rightarrow> 't received list \<Rightarrow> err \<times> 't list \<times> 'y list" where
  "workLoop write onData [] = (None, [], [])"
| "workLoop write onData (CtxDone e # rs) = (Some e, [], [])"
| "workLoop write onData (IterStopped # rs) = (Some ''stopped'', [], [])"
| "workLoop write onData (Item t # rs) =
     (case workLoop write onData rs of (e, done, pushed) \<Rightarrow>
        (e, t # done, (case onData t of Inr y \<Rightarrow> if write then y # pushed else pushed | Inl _ \<Rightarrow> pushed)))"

fun items_before_end :: "'t received list \<Rightarrow> 't list" where
  "items_before_end (Item t # rs) = t # items_before_end rs"
| "items_before_end _ = []"

lemma workLoop_eq:
  "workLoop write onData rs = (fst (workLoop write onData rs), items_before_end rs,
     if write then map projr (filter (\<lambda>r. \<not> isl r) (map onData (items_before_end rs))) else [])"
  by (induction "write" onData rs rule: workLoop.induct) (auto split: prod.splits sum.splits)

section \<open>Properties\<close>

text \<open>When the pool's \<open>start\<close> has run before workers are added, the pool never runs more workers than its target,
  its atomic counters equal the numbers of running and finished workers, and the monitor loses no worker.\<close>

lemma pool_bounded:
  assumes "reach (pool_ready target) (pool_step e) p"
  shows "length (p_running p) \<le> unat (p_target p) \<and> unat (p_active p) = length (p_running p)
    \<and> p_finished p = of_nat (length (p_ended p))
    \<and> (\<forall>q. pool_step e p q \<longrightarrow> all_workers q = all_workers p \<or> (\<exists>w. all_workers q = add_mset w (all_workers p)))"
proof -
  note inv = pool_sys.reach_inv[OF assms]
  have "all_workers q = all_workers p \<or> (\<exists>w. all_workers q = add_mset w (all_workers p))" if "pool_step e p q" for q
    using that by (auto simp: pool_step_def dest!: all_workers_act split: pool_label.splits)
  with inv show ?thesis by (auto simp: pool_inv_def word_le_nat_alt)
qed

text \<open>A worker processes exactly the items received before its context ends or its iterator stops, in order, and in
  write mode pushes exactly the results of the successful ones, in order.\<close>

lemma workLoop_spec:
  "snd (workLoop write onData rs) = (items_before_end rs,
     if write then map projr (filter (\<lambda>r. \<not> isl r) (map onData (items_before_end rs))) else [])"
  by (subst workLoop_eq) simp

text \<open>The target is not a bound when \<open>start\<close> is slow: workers added before it runs are spawned without a look at
  the number of active ones. With the target 1, two workers run at once. In the same way \<open>start\<close> can take the worker the
  monitor is about to pop; the monitor then runs the empty worker beside it.\<close>

lemma pool_overshoots:
  "\<exists>p :: nat pool. reach (\<lambda>p. p = NewPool 1) (pool_step 0) p \<and> unat (p_target p) < length (p_running p)"
proof -
  let ?p0 = "NewPool 1 :: nat pool"
  let ?p1 = "?p0\<lparr>p_monitor := Selecting\<rparr>"
  let ?p2 = "?p1\<lparr>p_workers := [7], p_monitor := Checking\<rparr>"
  let ?p3 = "?p2\<lparr>p_monitor := Popping\<rparr>"
  let ?p4 = "pool_start ?p3"
  let ?p5 = "(pop_spawn 0 ?p4)\<lparr>p_monitor := Selecting\<rparr>"
  have "reach (\<lambda>p. p = NewPool 1) (pool_step 0) ?p0" by (rule reach_init) simp
  moreover have "pool_step 0 ?p0 ?p1" using pool_stepI[OF pool_act.check[of ?p0]] by (simp add: NewPool_def)
  moreover have "pool_step 0 ?p1 ?p2" using pool_stepI[OF pool_act.add[of ?p1 0 7]] by (simp add: NewPool_def addWorker_def)
  moreover have "pool_step 0 ?p2 ?p3" using pool_stepI[OF pool_act.check[of ?p2]] by (simp add: NewPool_def)
  moreover have "pool_step 0 ?p3 ?p4" by (rule pool_stepI[OF pool_act.start]) (simp add: NewPool_def)
  moreover have "pool_step 0 ?p4 ?p5" by (rule pool_stepI[OF pool_act.pop]) (simp add: NewPool_def pool_start_def spawnWorker_def)
  ultimately have "reach (\<lambda>p. p = NewPool 1) (pool_step 0) ?p5" by (meson reach_step)
  moreover have "p_running ?p5 = [7, 0]" "p_target ?p5 = 1"
    by (simp_all add: pool_start_def pop_spawn_def popWorker_def spawnWorker_def NewPool_def)
  ultimately show ?thesis by (intro exI[of _ ?p5]) simp
qed

end
