(* ===== verification/Jobs.thy ===== *)
theory Jobs
  imports Config Events Workers
begin

text \<open>
  Jobs and their reports: \<open>base/worker.go\<close>, the construction of a runner and of its jobs (\<open>runner/runner.go\<close>), and
  \<open>monitorWorkers\<close> with its subscription to the job feed of the pool, composed of the pool of \<open>Workers\<close> and the feed
  of \<open>Events\<close>. Times are nanoseconds.
\<close>

section \<open>Jobs and workers\<close>

record 'c Job =
  exec :: "'c \<Rightarrow> string \<Rightarrow> err"
  description :: string

definition NewJob :: "string \<Rightarrow> ('c \<Rightarrow> string \<Rightarrow> err) \<Rightarrow> 'c Job" where
  "NewJob d method = \<lparr>exec = method, description = d\<rparr>"

record JobStats =
  JobDescription :: string
  JobError :: err
  CreatedAt :: int
  StartedAt :: int
  FinishedAt :: int

record 'c Worker =
  createdAt :: int
  job :: "'c Job"

definition NewWorker :: "int \<Rightarrow> 'c Job \<Rightarrow> 'c Worker" where
  "NewWorker now j = \<lparr>createdAt = now, job = j\<rparr>"

definition emptyWorker :: "int \<Rightarrow> 'c Worker" where
  "emptyWorker now = \<lparr>createdAt = now, job = \<lparr>exec = \<lambda>ctx i. None, description = ''empty''\<rparr>\<rparr>"

definition worker_Run :: "'c \<Rightarrow> int \<Rightarrow> int \<Rightarrow> 'c Worker \<Rightarrow> JobStats" where
  "worker_Run ctx started finished w =
     \<lparr>JobDescription = description (job w), JobError = exec (job w) ctx (description (job w)), CreatedAt = createdAt w,
      StartedAt = started, FinishedAt = finished\<rparr>"

text \<open>The getters of the pool; \<open>int(uint32)\<close> keeps the value.\<close>

definition RunningWorkers :: "'w pool \<Rightarrow> int" where "RunningWorkers p = uint (p_active p)"
definition FinishedWorkers :: "'w pool \<Rightarrow> int" where "FinishedWorkers p = uint (p_finished p)"
definition PendingWorkers :: "'w pool \<Rightarrow> int" where "PendingWorkers p = int (length (p_workers p))"

section \<open>The runner\<close>

text \<open>What \<open>newRunner\<close> sets: a missing callback for ended workers becomes one that does nothing; \<open>'e\<close> is what the
  callback acts on.\<close>

record ('c, 'e) runner =
  r_workPool :: "'c Worker pool"
  r_write :: bool
  r_afterExitWorker :: "JobStats \<Rightarrow> 'e \<Rightarrow> 'e"
  r_metrics :: bool

definition newRunner :: "bool \<Rightarrow> int \<Rightarrow> (JobStats \<Rightarrow> 'e \<Rightarrow> 'e) option \<Rightarrow> bool \<Rightarrow> ('c, 'e) runner" where
  "newRunner enabled threads workerExit write =
     \<lparr>r_workPool = NewPool (word_of_int threads), r_write = write,
      r_afterExitWorker = (case workerExit of None \<Rightarrow> (\<lambda>feed x. x) | Some f \<Rightarrow> f), r_metrics = enabled\<rparr>"

definition NewReader :: "bool \<Rightarrow> int \<Rightarrow> (JobStats \<Rightarrow> 'e \<Rightarrow> 'e) option \<Rightarrow> ('c, 'e) runner" where
  "NewReader enabled threads workerExit = newRunner enabled threads workerExit False"

definition NewReaderWriter :: "bool \<Rightarrow> int \<Rightarrow> (JobStats \<Rightarrow> 'e \<Rightarrow> 'e) option \<Rightarrow> ('c, 'e) runner" where
  "NewReaderWriter enabled threads workerExit = newRunner enabled threads workerExit True"

text \<open>The workers \<open>runWorkers\<close> hands to the pool, \<open>TargetedThreads\<close> of them, made at the times \<open>now\<close>.\<close>

definition runWorkers :: "(nat \<Rightarrow> int) \<Rightarrow> string \<Rightarrow> int \<Rightarrow> ('c \<Rightarrow> string \<Rightarrow> err) \<Rightarrow> 'c Worker list" where
  "runWorkers now identity threads execFunc =
     map (\<lambda>i. NewWorker (now i) (NewJob (identity @ ''.'' @ dec i) execFunc)) [0..<nat threads]"

section \<open>Reports of ended workers\<close>

text \<open>
  The monitor of the runner is started after all workers have been handed over, subscribes, receives until \<open>done\<close> is closed, and
  then unsubscribes. \<open>rp_todo\<close> are the workers still to be handed over, \<open>rp_out\<close> the results of workers that have ended
  and not yet called \<open>Send\<close>, \<open>rp_lost\<close> what was sent without a subscription. The monitor is listener 0 of the feed.
\<close>

datatype monitoring = MonNew | MonLoop | MonUnsub | MonGone

record 'c reporting =
  rp_pool :: "'c Worker pool"
  rp_feed :: "JobStats feed"
  rp_todo :: "'c Worker list"
  rp_out :: "JobStats list"
  rp_lost :: "JobStats list"
  rp_mon :: monitoring
  rp_done :: bool

definition new_reporting :: "('c, 'e) runner \<Rightarrow> 'c Worker list \<Rightarrow> 'c reporting" where
  "new_reporting r ws = \<lparr>rp_pool = r_workPool r, rp_feed = NewFeed, rp_todo = ws, rp_out = [], rp_lost = [], rp_mon = MonNew, rp_done = False\<rparr>"

text \<open>The reports \<open>monitorWorkers\<close> has received, and what \<open>afterExitWorker\<close> has made of them.\<close>

definition reported :: "'c reporting \<Rightarrow> JobStats list" where
  "reported s = map snd (f_delivered (rp_feed s))"

definition after_exits :: "('c, 'e) runner \<Rightarrow> 'c reporting \<Rightarrow> 'e \<Rightarrow> 'e" where
  "after_exits r s = fold (r_afterExitWorker r) (reported s)"

inductive report_step :: "'c Worker \<Rightarrow> 'c reporting \<Rightarrow> 'c reporting \<Rightarrow> bool" for e :: "'c Worker" where
  own: "pool_act e Own (rp_pool s) p \<Longrightarrow> (p_monitor p = Ended \<longrightarrow> rp_done s) \<Longrightarrow> report_step e s (s\<lparr>rp_pool := p\<rparr>)"
| hand: "rp_todo s = w # ws \<Longrightarrow> pool_act e (Added w) (rp_pool s) p \<Longrightarrow> report_step e s (s\<lparr>rp_pool := p, rp_todo := ws\<rparr>)"
| exit: "pool_act e (Exited w) (rp_pool s) p \<Longrightarrow>
    report_step e s (s\<lparr>rp_pool := p, rp_out := rp_out s @ [worker_Run ctx started finished w]\<rparr>)"
| lose: "rp_out s = xs @ r # ys \<Longrightarrow> f_subs (rp_feed s) = 0 \<Longrightarrow>
    report_step e s (s\<lparr>rp_out := xs @ ys, rp_lost := rp_lost s @ [r]\<rparr>)"
| send: "rp_out s = xs @ r # ys \<Longrightarrow> f_subs (rp_feed s) \<noteq> 0 \<Longrightarrow> mset order = mset (f_listeners (rp_feed s)) \<Longrightarrow>
    report_step e s (s\<lparr>rp_out := xs @ ys, rp_feed := (rp_feed s)\<lparr>f_senders := f_senders (rp_feed s) @ [(r, False, order)]\<rparr>\<rparr>)"
| work: "f_senders (rp_feed s) = xs @ t # ys \<Longrightarrow> chan_send (rp_feed s) t t' f \<Longrightarrow>
    report_step e s (s\<lparr>rp_feed := f\<lparr>f_senders := xs @ t' # ys\<rparr>\<rparr>)"
| sent: "f_senders (rp_feed s) = xs @ (d, b, []) # ys \<Longrightarrow>
    report_step e s (s\<lparr>rp_feed := (rp_feed s)\<lparr>f_senders := xs @ ys\<rparr>\<rparr>)"
| subscribe: "rp_mon s = MonNew \<Longrightarrow> rp_todo s = [] \<Longrightarrow> f_senders (rp_feed s) = [] \<Longrightarrow>
    report_step e s (s\<lparr>rp_mon := MonLoop, rp_feed := Subscribe 0 (rp_feed s)\<rparr>)"
| close_done: "rp_todo s = [] \<Longrightarrow> \<not> rp_done s \<Longrightarrow> report_step e s (s\<lparr>rp_done := True\<rparr>)"
| leave: "rp_mon s = MonLoop \<Longrightarrow> rp_done s \<Longrightarrow>
    report_step e s (s\<lparr>rp_mon := MonUnsub, rp_feed := (rp_feed s)\<lparr>f_recv := f_recv (rp_feed s) - {0}\<rparr>\<rparr>)"
| unsubscribe: "rp_mon s = MonUnsub \<Longrightarrow> f_senders (rp_feed s) = [] \<Longrightarrow>
    report_step e s (s\<lparr>rp_mon := MonGone, rp_feed := Unsubscribe 0 (rp_feed s)\<rparr>)"

inductive_cases report_stepE: "report_step e s t"

section \<open>Lemmas\<close>

lemma ended_act: "pool_act e l p q \<Longrightarrow> p_ended q = p_ended p @ (case l of Exited w \<Rightarrow> [w] | _ \<Rightarrow> [])"
proof (erule pool_actE, goal_cases)
  case 1
  have "p_ended (spawn_all ws r) = p_ended r" for ws and r :: "'a pool"
    by (induction ws arbitrary: r) (simp_all add: spawnWorker_def)
  with 1 show ?case by (simp add: pool_start_def)
qed (auto simp: pop_spawn_def popWorker_def spawnWorker_def addWorker_def split: list.splits)

definition stat_of :: "'c Worker \<Rightarrow> JobStats \<Rightarrow> bool" where
  "stat_of w r \<longleftrightarrow> (\<exists>ctx started finished. r = worker_Run ctx started finished w)"

text \<open>The reports on their way: a sender with nothing left to do has delivered its report.\<close>

definition sending :: "('a \<times> bool \<times> nat list) list \<Rightarrow> 'a list" where
  "sending ss = map fst (filter (\<lambda>s. snd (snd s) \<noteq> []) ss)"

lemma sending_append [simp]: "sending (xs @ ys) = sending xs @ sending ys"
  by (simp add: sending_def)

lemma sending_Cons [simp]: "sending (s # ss) = (if snd (snd s) = [] then sending ss else fst s # sending ss)" "sending [] = []"
  by (simp_all add: sending_def)

definition all_reports :: "'c reporting \<Rightarrow> JobStats multiset" where
  "all_reports s = mset (reported s) + mset (rp_lost s) + mset (rp_out s) + mset (sending (f_senders (rp_feed s)))"

text \<open>The feed in the phases of the monitor.\<close>

definition mon_feed :: "monitoring \<Rightarrow> JobStats feed \<Rightarrow> bool" where
  "mon_feed m f \<longleftrightarrow> \<not> f_stopped f \<and> (case m of
       MonNew \<Rightarrow> f_listeners f = [] \<and> f_subs f = 0 \<and> f_closed f = [] \<and> f_senders f = [] \<and> f_recv f = {}
     | MonLoop \<Rightarrow> f_listeners f = [0] \<and> f_subs f = 1 \<and> f_closed f = [] \<and> f_recv f = {0}
     | MonUnsub \<Rightarrow> f_listeners f = [0] \<and> f_subs f = 1 \<and> f_closed f = [] \<and> f_recv f = {}
     | MonGone \<Rightarrow> f_listeners f = [] \<and> f_subs f = 0 \<and> f_senders f = [])
   \<and> (\<forall>s \<in> set (f_senders f). snd (snd s) \<in> {[], [0]})"

definition report_inv :: "'c Worker \<Rightarrow> 'c Worker list \<Rightarrow> 'c reporting \<Rightarrow> bool" where
  "report_inv e ws s \<longleftrightarrow> (\<exists>k. all_workers (rp_pool s) + mset (rp_todo s) = mset ws + replicate_mset k e)
     \<and> (\<exists>rs. list_all2 stat_of (p_ended (rp_pool s)) rs \<and> mset rs = all_reports s)
     \<and> mon_feed (rp_mon s) (rp_feed s)"

lemma jobs_step:
  assumes "\<exists>k. all_workers (rp_pool s) + mset (rp_todo s) = mset ws + replicate_mset k e" "report_step e s t"
  shows "\<exists>k. all_workers (rp_pool t) + mset (rp_todo t) = mset ws + replicate_mset k e"
  using assms(2)
proof (cases rule: report_step.cases)
  case (own p)
  obtain k where k: "all_workers (rp_pool s) + mset (rp_todo s) = mset ws + replicate_mset k e" using assms(1) by blast
  from all_workers_act[OF own(2)] have "all_workers p = all_workers (rp_pool s) \<or> all_workers p = add_mset e (all_workers (rp_pool s))" by auto
  then show ?thesis
  proof
    assume "all_workers p = add_mset e (all_workers (rp_pool s))"
    then have "all_workers (rp_pool t) + mset (rp_todo t) = mset ws + replicate_mset (Suc k) e" using own(1) k by simp
    then show ?thesis by blast
  qed (use own(1) k in auto)
next
  case (hand w us p)
  then show ?thesis using assms(1) all_workers_act[OF hand(3)] by auto
next
  case (exit w p)
  then show ?thesis using assms(1) all_workers_act[OF exit(2)] by auto
qed (use assms(1) in auto)

lemma mon_feed_step:
  assumes "mon_feed (rp_mon s) (rp_feed s)" "report_step e s t"
  shows "mon_feed (rp_mon t) (rp_feed t)"
  using assms(2)
proof (cases rule: report_step.cases)
  case (send xs r ys order)
  have "order = f_listeners (rp_feed s)" using assms(1) send(4) by (auto simp: mon_feed_def split: monitoring.splits)
  with assms(1) send show ?thesis by (auto simp: mon_feed_def split: monitoring.splits)
next
  case (work xs r ys r' f)
  from work(3) assms(1) work(1,2) show ?thesis
    by (cases rule: chan_send.cases) (auto simp: mon_feed_def split: monitoring.splits)
next
  case subscribe
  with assms(1) show ?thesis by (auto simp: mon_feed_def Subscribe_def)
next
  case unsubscribe
  with assms(1) show ?thesis by (auto simp: mon_feed_def Unsubscribe_def close_chan_def)
qed (use assms(1) in \<open>auto simp: mon_feed_def split: monitoring.splits\<close>)

lemma all_reports_step:
  assumes "mon_feed (rp_mon s) (rp_feed s)" "report_step e s t"
  shows "all_reports t = all_reports s \<and> p_ended (rp_pool t) = p_ended (rp_pool s)
    \<or> (\<exists>w r. stat_of w r \<and> all_reports t = add_mset r (all_reports s) \<and> p_ended (rp_pool t) = p_ended (rp_pool s) @ [w])"
  using assms(2)
proof (cases rule: report_step.cases)
  case (exit w p ctx started finished)
  then have "stat_of w (worker_Run ctx started finished w) \<and> all_reports t = add_mset (worker_Run ctx started finished w) (all_reports s)
    \<and> p_ended (rp_pool t) = p_ended (rp_pool s) @ [w]"
    using ended_act[OF exit(2)] by (auto simp: stat_of_def all_reports_def reported_def)
  then show ?thesis by blast
next
  case (send xs r ys order)
  have "order = [0]" using assms(1) send(3,4) by (auto simp: mon_feed_def split: monitoring.splits)
  with send show ?thesis by (simp add: all_reports_def reported_def)
next
  case (work xs u ys u' f)
  have "f_closed (rp_feed s) = []" "snd (snd u) \<in> {[], [0]}" using assms(1) work(2) by (auto simp: mon_feed_def split: monitoring.splits)
  with work(3,1,2) show ?thesis
    by (cases rule: chan_send.cases) (auto simp: all_reports_def reported_def)
qed (auto simp: all_reports_def reported_def Subscribe_def Unsubscribe_def close_chan_def dest: ended_act)

lemma report_inv_step: "report_inv e ws s \<Longrightarrow> report_step e s t \<Longrightarrow> report_inv e ws t"
proof -
  assume i: "report_inv e ws s" and st: "report_step e s t"
  from i obtain rs where rs: "list_all2 stat_of (p_ended (rp_pool s)) rs" "mset rs = all_reports s" by (auto simp: report_inv_def)
  have m: "mon_feed (rp_mon s) (rp_feed s)" using i by (simp add: report_inv_def)
  have "\<exists>rs. list_all2 stat_of (p_ended (rp_pool t)) rs \<and> mset rs = all_reports t"
    using all_reports_step[OF m st]
  proof (elim disjE exE conjE)
    fix w r
    assume "stat_of w r" "all_reports t = add_mset r (all_reports s)" "p_ended (rp_pool t) = p_ended (rp_pool s) @ [w]"
    then show ?thesis using rs by (intro exI[of _ "rs @ [r]"]) (simp add: list_all2_appendI)
  qed (use rs in auto)
  with jobs_step[OF _ st] mon_feed_step[OF m st] i show ?thesis by (simp add: report_inv_def)
qed

lemma report_inv_init: "report_inv e ws (new_reporting (newRunner en n ex wr) ws)"
  by (auto simp: report_inv_def new_reporting_def newRunner_def NewPool_def NewFeed_def all_workers_def all_reports_def reported_def mon_feed_def
      intro: exI[of _ 0])

interpretation report_sys: inv_system "\<lambda>s. s = new_reporting (newRunner en n ex wr) ws" "report_step e" "report_inv e ws"
  by unfold_locales (auto intro: report_inv_init report_inv_step)

text \<open>A monitor that has left its loop while a report is on its way waits for ever, and so does the report.\<close>

definition monitor_stuck :: "JobStats \<Rightarrow> 'c reporting \<Rightarrow> bool" where
  "monitor_stuck r s \<longleftrightarrow> rp_mon s = MonUnsub \<and> 0 \<notin> f_recv (rp_feed s) \<and> f_closed (rp_feed s) = []
     \<and> (\<exists>b. (r, b, [0]) \<in> set (f_senders (rp_feed s)))"

lemma monitor_stuck_step: "monitor_stuck r s \<Longrightarrow> report_step e s t \<Longrightarrow> monitor_stuck r t"
proof (erule report_stepE, goal_cases)
  case (6 xs u ys u' f)
  from 6(4,1-3) show ?case by (cases rule: chan_send.cases) (auto simp: monitor_stuck_def)
qed (auto simp: monitor_stuck_def)

lemma monitor_stuck_runs: "(report_step e)\<^sup>*\<^sup>* s t \<Longrightarrow> monitor_stuck r s \<Longrightarrow> monitor_stuck r t"
  by (induction rule: rtranclp_induct) (auto intro: monitor_stuck_step)

lemma no_loss_step:
  "mon_feed (rp_mon s) (rp_feed s) \<Longrightarrow> rp_mon s \<in> {MonLoop, MonUnsub} \<Longrightarrow> report_step e s t \<Longrightarrow> rp_lost t = rp_lost s"
  by (erule report_stepE) (auto simp: mon_feed_def)


section \<open>Properties\<close>

text \<open>C36: The reports of ended workers: every worker that has run is one handed over by \<open>runWorkers\<close>, each run once, or the empty
  one. Each ended worker has exactly one report, with its description, the error of its job and its creation time, and that report is
  received by the monitor of the runner, on its way to it, or lost because nobody was subscribed; reports are lost only outside the time the
  monitor is subscribed. But when the runner is stopped while a report is on its way and the monitor leaves its loop, that monitor
  never ends and the report never arrives.\<close>

theorem exit_reports:
  assumes "reach (\<lambda>s. s = new_reporting (newRunner en n ex wr) ws) (report_step e) s"
  shows "(\<exists>k. all_workers (rp_pool s) + mset (rp_todo s) = mset ws + replicate_mset k e)
    \<and> (\<exists>rs. mset rs = mset (reported s) + mset (rp_lost s) + mset (rp_out s) + mset (sending (f_senders (rp_feed s)))
        \<and> list_all2 (\<lambda>w r. \<exists>ctx started finished. r = worker_Run ctx started finished w) (p_ended (rp_pool s)) rs)
    \<and> (\<forall>t. report_step e s t \<and> rp_mon s \<in> {MonLoop, MonUnsub} \<longrightarrow> rp_lost t = rp_lost s)
    \<and> (\<forall>r t. rp_mon s = MonUnsub \<and> r \<in> set (sending (f_senders (rp_feed s))) \<and> (report_step e)\<^sup>*\<^sup>* s t \<longrightarrow>
         rp_mon t = MonUnsub \<and> r \<in> set (sending (f_senders (rp_feed t))))"
proof -
  have i: "report_inv e ws s" by (rule report_sys.reach_inv[OF assms])
  then have m: "mon_feed (rp_mon s) (rp_feed s)" by (simp add: report_inv_def)
  have "rp_mon t = MonUnsub \<and> r \<in> set (sending (f_senders (rp_feed t)))"
    if "rp_mon s = MonUnsub" "r \<in> set (sending (f_senders (rp_feed s)))" "(report_step e)\<^sup>*\<^sup>* s t" for r t
  proof -
    from that(1,2) m have "monitor_stuck r s" by (fastforce simp: monitor_stuck_def sending_def mon_feed_def)
    from monitor_stuck_runs[OF that(3) this] show ?thesis by (force simp: monitor_stuck_def sending_def)
  qed
  with i no_loss_step[OF m] show ?thesis by (auto simp: report_inv_def all_reports_def stat_of_def[abs_def])
qed

text \<open>One worker of a runner, up to the report that is on its way when the runner stops.\<close>

definition ex_worker :: "unit Worker" where
  "ex_worker = NewWorker 5 (NewJob ''seeker.0'' (\<lambda>_ _. Some ''stopped''))"

definition ex_blocked :: "unit reporting" where
  "ex_blocked = \<lparr>rp_pool = \<lparr>p_workers = [], p_target = 1, p_active = 0, p_finished = 1, p_running = [], p_ended = [ex_worker],
       p_started = True, p_monitor = Selecting\<rparr>,
     rp_feed = (NewFeed :: JobStats feed)\<lparr>f_listeners := [0], f_subs := 1, f_senders := [(worker_Run () 6 7 ex_worker, False, [0])]\<rparr>,
     rp_todo = [], rp_out = [], rp_lost = [], rp_mon = MonUnsub, rp_done = True\<rparr>"

definition ex_pool :: "unit Worker list \<Rightarrow> unit Worker list \<Rightarrow> unit Worker list \<Rightarrow> monitor_phase \<Rightarrow> unit Worker pool" where
  "ex_pool waits runs done m = \<lparr>p_workers = waits, p_target = 1, p_active = of_nat (length runs), p_finished = of_nat (length done), p_running = runs,
     p_ended = done, p_started = True, p_monitor = m\<rparr>"

lemma ex_pool_runs:
  "pool_act e Own (NewPool 1) (ex_pool [] [] [] Checking)" "pool_act e Own (ex_pool [] [] [] Checking) (ex_pool [] [] [] Selecting)"
  "pool_act e (Added w) (ex_pool [] [] [] Selecting) (ex_pool [w] [] [] Checking)"
  "pool_act e Own (ex_pool [w] [] [] Checking) (ex_pool [w] [] [] Popping)" "pool_act e Own (ex_pool [w] [] [] Popping) (ex_pool [] [w] [] Selecting)"
  "pool_act e (Exited w) (ex_pool [] [w] [] Selecting) (ex_pool [] [] [w] Selecting)"
  using pool_act.start[of "NewPool 1" e] pool_act.check[of "ex_pool [] [] [] Checking" e] pool_act.add[of "ex_pool [] [] [] Selecting" e w]
    pool_act.check[of "ex_pool [w] [] [] Checking" e] pool_act.pop[of "ex_pool [w] [] [] Popping" e]
    pool_act.exit[of "ex_pool [] [w] [] Selecting" "[]" w "[]" e]
  by (simp_all add: ex_pool_def NewPool_def pool_start_def addWorker_def pop_spawn_def popWorker_def spawnWorker_def)

lemma ex_blocked_reached:
  "reach (\<lambda>s. s = new_reporting (newRunner True 1 (None :: (JobStats \<Rightarrow> unit \<Rightarrow> unit) option) True) [ex_worker]) (report_step (emptyWorker 0)) ex_blocked"
proof -
  let ?e = "emptyWorker 0 :: unit Worker"
  let ?r = "worker_Run () 6 7 ex_worker"
  let ?f = "Subscribe 0 NewFeed :: JobStats feed"
  let ?s = "\<lambda>p t out m f d. \<lparr>rp_pool = p, rp_feed = f, rp_todo = t, rp_out = out, rp_lost = [], rp_mon = m, rp_done = d\<rparr>"
  let ?reach = "reach (\<lambda>s. s = new_reporting (newRunner True 1 (None :: (JobStats \<Rightarrow> unit \<Rightarrow> unit) option) True) [ex_worker]) (report_step ?e)"
  have 0: "?reach (?s (NewPool 1) [ex_worker] [] MonNew NewFeed False)" by (rule reach_init) (simp add: new_reporting_def newRunner_def)
  have s1: "report_step ?e (?s (NewPool 1) [ex_worker] [] MonNew NewFeed False) (?s (ex_pool [] [] [] Checking) [ex_worker] [] MonNew NewFeed False)"
    using report_step.own[of ?e "?s (NewPool 1) [ex_worker] [] MonNew NewFeed False"] ex_pool_runs(1) by (simp add: ex_pool_def)
  have s2: "report_step ?e (?s (ex_pool [] [] [] Checking) [ex_worker] [] MonNew NewFeed False) (?s (ex_pool [] [] [] Selecting) [ex_worker] [] MonNew NewFeed False)"
    using report_step.own[of ?e "?s (ex_pool [] [] [] Checking) [ex_worker] [] MonNew NewFeed False"] ex_pool_runs(2) by (simp add: ex_pool_def)
  have s3: "report_step ?e (?s (ex_pool [] [] [] Selecting) [ex_worker] [] MonNew NewFeed False) (?s (ex_pool [ex_worker] [] [] Checking) [] [] MonNew NewFeed False)"
    using report_step.hand[of "?s (ex_pool [] [] [] Selecting) [ex_worker] [] MonNew NewFeed False"] ex_pool_runs(3) by simp
  have s4: "report_step ?e (?s (ex_pool [ex_worker] [] [] Checking) [] [] MonNew NewFeed False) (?s (ex_pool [ex_worker] [] [] Popping) [] [] MonNew NewFeed False)"
    using report_step.own[of ?e "?s (ex_pool [ex_worker] [] [] Checking) [] [] MonNew NewFeed False"] ex_pool_runs(4) by (simp add: ex_pool_def)
  have s5: "report_step ?e (?s (ex_pool [ex_worker] [] [] Popping) [] [] MonNew NewFeed False) (?s (ex_pool [] [ex_worker] [] Selecting) [] [] MonNew NewFeed False)"
    using report_step.own[of ?e "?s (ex_pool [ex_worker] [] [] Popping) [] [] MonNew NewFeed False"] ex_pool_runs(5) by (simp add: ex_pool_def)
  have s6: "report_step ?e (?s (ex_pool [] [ex_worker] [] Selecting) [] [] MonNew NewFeed False) (?s (ex_pool [] [ex_worker] [] Selecting) [] [] MonLoop ?f False)"
    using report_step.subscribe[of "?s (ex_pool [] [ex_worker] [] Selecting) [] [] MonNew NewFeed False" ?e] by (simp add: NewFeed_def)
  have s7: "report_step ?e (?s (ex_pool [] [ex_worker] [] Selecting) [] [] MonLoop ?f False) (?s (ex_pool [] [] [ex_worker] Selecting) [] [?r] MonLoop ?f False)"
    using report_step.exit[of ?e ex_worker "?s (ex_pool [] [ex_worker] [] Selecting) [] [] MonLoop ?f False"] ex_pool_runs(6) by simp
  have s8: "report_step ?e (?s (ex_pool [] [] [ex_worker] Selecting) [] [?r] MonLoop ?f False)
      (?s (ex_pool [] [] [ex_worker] Selecting) [] [] MonLoop (?f\<lparr>f_senders := [(?r, False, [0])]\<rparr>) False)"
    using report_step.send[of "?s (ex_pool [] [] [ex_worker] Selecting) [] [?r] MonLoop ?f False" "[]" ?r "[]" "[0]" ?e]
    by (simp add: Subscribe_def NewFeed_def)
  have s9: "report_step ?e (?s (ex_pool [] [] [ex_worker] Selecting) [] [] MonLoop (?f\<lparr>f_senders := [(?r, False, [0])]\<rparr>) False)
      (?s (ex_pool [] [] [ex_worker] Selecting) [] [] MonLoop (?f\<lparr>f_senders := [(?r, False, [0])]\<rparr>) True)"
    using report_step.close_done[of "?s (ex_pool [] [] [ex_worker] Selecting) [] [] MonLoop (?f\<lparr>f_senders := [(?r, False, [0])]\<rparr>) False" ?e] by simp
  have s10: "report_step ?e (?s (ex_pool [] [] [ex_worker] Selecting) [] [] MonLoop (?f\<lparr>f_senders := [(?r, False, [0])]\<rparr>) True) ex_blocked"
    using report_step.leave[of "?s (ex_pool [] [] [ex_worker] Selecting) [] [] MonLoop (?f\<lparr>f_senders := [(?r, False, [0])]\<rparr>) True" ?e]
    by (simp add: ex_blocked_def ex_pool_def Subscribe_def NewFeed_def)
  show ?thesis by (rule reach_step[OF reach_step[OF reach_step[OF reach_step[OF reach_step[OF reach_step[OF reach_step[OF reach_step[OF reach_step[OF reach_step[OF 0 s1] s2] s3] s4] s5] s6] s7] s8] s9] s10])
qed

theorem exit_reports_witness:
  "rp_mon ex_blocked = MonUnsub \<and> \<not> (\<exists>t. (report_step (emptyWorker 0))\<^sup>*\<^sup>* ex_blocked t \<and> rp_mon t = MonGone)"
proof -
  have "rp_mon ex_blocked = MonUnsub" "worker_Run () 6 7 ex_worker \<in> set (sending (f_senders (rp_feed ex_blocked)))"
    by (simp_all add: ex_blocked_def)
  moreover have "rp_mon t = MonUnsub" if "(report_step (emptyWorker 0))\<^sup>*\<^sup>* ex_blocked t" for t
    using exit_reports[OF ex_blocked_reached] calculation that by blast
  ultimately show ?thesis by force
qed

end
