(* ===== verification/Procs.thy ===== *)
theory Procs
  imports Jobs
begin

text \<open>
  The two processors of the crawler as sources of workers (\<open>crawler/crawler/seekerProc.go\<close>, \<open>crawlerProc.go\<close>): their names and
  thread counts, the runners they are started on, and the jobs these get. What they do with an item is in \<open>Crawl\<close>.
\<close>

section \<open>Processors\<close>

record 'f processor =
  pr_name :: string
  pr_threads :: int
  pr_funcs :: 'f

definition Identity :: "'f processor \<Rightarrow> string" where "Identity p = pr_name p"
definition TargetedThreads :: "'f processor \<Rightarrow> int" where "TargetedThreads p = pr_threads p"

text \<open>\<open>reflect.TypeOf(streamer).Name()\<close> is the name of the type. The functions of the seeker are the filter and the request for a
  record, those of the crawler the request handler and the querier.\<close>

definition newSeekerProc :: "int \<Rightarrow> 'v \<Rightarrow> 'e \<Rightarrow> ('v \<times> 'e) processor" where
  "newSeekerProc threads verify getEnr = \<lparr>pr_name = ''seekerProcessor'', pr_threads = threads, pr_funcs = (verify, getEnr)\<rparr>"

definition newCrawlerProc :: "int \<Rightarrow> 'h \<Rightarrow> 'q \<Rightarrow> ('h \<times> 'q) processor" where
  "newCrawlerProc threads handler querier = \<lparr>pr_name = ''crawlerProc'', pr_threads = threads, pr_funcs = (handler, querier)\<rparr>"

text \<open>A runner of \<open>threads\<close> workers started on a processor: the initial state of its reports.\<close>

definition started_runner :: "bool \<Rightarrow> bool \<Rightarrow> int \<Rightarrow> (nat \<Rightarrow> int) \<Rightarrow> ('c \<Rightarrow> string \<Rightarrow> err) \<Rightarrow> 'f processor \<Rightarrow> 'c reporting" where
  "started_runner enabled write threads now execFunc p =
     new_reporting (newRunner enabled threads (None :: (JobStats \<Rightarrow> unit \<Rightarrow> unit) option) write)
       (runWorkers now (Identity p) (TargetedThreads p) execFunc)"

section \<open>Lemmas\<close>

lemma dec_inj: "dec m = dec n \<Longrightarrow> m = n"
  by (metis digits_val_dec)

text \<open>The jobs of a runner have different descriptions: the name of the processor and a number.\<close>

lemma job_descriptions_distinct: "distinct (map (\<lambda>w. description (job w)) (runWorkers now i n f))"
  by (auto simp: runWorkers_def NewWorker_def NewJob_def distinct_map inj_on_def comp_def dest: dec_inj)

lemma length_runWorkers [simp]: "length (runWorkers now i n f) = nat n"
  by (simp add: runWorkers_def)

text \<open>The pool has room for all jobs of its runner, as both are made of the same number; a number of threads that is not positive gives
  no jobs.\<close>

lemma pool_has_room:
  assumes "n < 2 ^ 32"
  shows "length (runWorkers now i n f) \<le> unat (p_target (r_workPool (newRunner en n ex wr)))"
proof (cases "0 \<le> n")
  case True
  with assms have "take_bit 32 n = n" by (intro take_bit_int_eq_self) simp_all
  then show ?thesis using True by (simp add: newRunner_def NewPool_def unat_eq_nat_uint unsigned_of_int)
qed simp

text \<open>No job of a processor is ever run twice, and a report names the job it is about.\<close>

lemma count_distinct: "distinct (map f xs) \<Longrightarrow> count (mset xs) w \<le> 1"
  by (metis count_eq_zero_iff distinct_count_atmost_1 distinct_map le_refl not_less_eq_eq set_mset_mset zero_le)

lemma jobs_run_once:
  assumes "reach (\<lambda>s. s = started_runner en wr n now f p) (report_step e) s" "w \<noteq> e"
  shows "count (mset (p_running (rp_pool s))) w + count (mset (p_ended (rp_pool s))) w \<le> 1"
proof -
  let ?ws = "runWorkers now (Identity p) (TargetedThreads p) f"
  have "report_inv e ?ws s" using report_sys.reach_inv assms(1) unfolding started_runner_def by blast
  then obtain k where k: "all_workers (rp_pool s) + mset (rp_todo s) = mset ?ws + replicate_mset k e" by (auto simp: report_inv_def)
  have "count (all_workers (rp_pool s) + mset (rp_todo s)) w = count (mset ?ws) w" unfolding k using assms(2) by simp
  moreover have "count (mset ?ws) w \<le> 1" by (rule count_distinct[OF job_descriptions_distinct])
  ultimately show ?thesis by (simp add: all_workers_def)
qed

end
