(* ===== verification/Peek.thy ===== *)
theory Peek
  imports Prelude
begin

text \<open>
  The command that enumerates what a node knows (\<open>discV4PeekDB\<close> of \<open>crawler/cmd/disc/v4/disc.go\<close>): the goroutines that ask
  it for random nodes and the loop that collects the answers until four intervals have brought nothing new. The counters
  are \<open>uint16\<close> and \<open>uint8\<close>, as in the code. The map \<open>cache\<close> is kept as the list of its values in the order they were
  added.
\<close>

section \<open>Asking and collecting\<close>

text \<open>One asking goroutine, given the outcomes of its requests: the answers it sends (a failed request sends the nil
  slice), and whether it has given up.\<close>

fun ask_random :: "nat \<Rightarrow> (string + 'n list) list \<Rightarrow> 'n list list \<times> bool" where
  "ask_random errors [] = ([], 10 < errors)"
| "ask_random errors (r # rs) =
     (if 10 < errors then ([], True)
      else (case r of
              Inl _ \<Rightarrow> (case ask_random (errors + 1) rs of (sent, quit) \<Rightarrow> ([] # sent, quit))
            | Inr ns \<Rightarrow> (case ask_random 0 rs of (sent, quit) \<Rightarrow> (ns # sent, quit))))"

record peek =
  pk_cache :: "enode list"
  pk_nodesAmount :: u16
  pk_duplicates :: u16
  pk_queries :: u16
  pk_exhaused :: u8

definition new_peek :: peek where
  "new_peek = \<lparr>pk_cache = [], pk_nodesAmount = 0, pk_duplicates = 0, pk_queries = 0, pk_exhaused = 0\<rparr>"

fun peek_nodes :: "enode list \<Rightarrow> peek \<Rightarrow> peek" where
  "peek_nodes [] p = p"
| "peek_nodes (n # ns) p =
     (if e_ID n \<in> e_ID ` set (pk_cache p) then peek_nodes ns (p\<lparr>pk_duplicates := pk_duplicates p + 1\<rparr>)
      else peek_nodes ns (p\<lparr>pk_cache := pk_cache p @ [n]\<rparr>))"

definition peek_result :: "enode list \<Rightarrow> peek \<Rightarrow> peek" where
  "peek_result result p =
     (let p1 = peek_nodes result (p\<lparr>pk_queries := pk_queries p + 1\<rparr>)
      in p1\<lparr>pk_nodesAmount := pk_nodesAmount p1 + of_nat (length result)\<rparr>)"

text \<open>The ticker's case; \<open>True\<close> leaves the loop.\<close>

definition peek_tick :: "peek \<Rightarrow> bool \<times> peek" where
  "peek_tick p =
     (let p1 = (if pk_nodesAmount p = pk_duplicates p then p\<lparr>pk_exhaused := pk_exhaused p + 1\<rparr> else p)
      in if 3 < pk_exhaused p1 then (True, p1)
         else (False, p1\<lparr>pk_nodesAmount := 0, pk_queries := 0, pk_duplicates := 0\<rparr>))"

datatype peek_event = PTick | PDone | PResult "enode list"

fun peek_loop :: "peek_event list \<Rightarrow> peek \<Rightarrow> bool \<times> peek" where
  "peek_loop [] p = (False, p)"
| "peek_loop (PTick # evs) p = (case peek_tick p of (stop, p') \<Rightarrow> if stop then (True, p') else peek_loop evs p')"
| "peek_loop (PDone # evs) p = (True, p)"
| "peek_loop (PResult r # evs) p = peek_loop evs (peek_result r p)"

section \<open>Intervals\<close>

text \<open>The events of a run cut at its ticks, and the number of nodes that are new in each interval.\<close>

definition interval_events :: "enode list list \<Rightarrow> peek_event list" where
  "interval_events rs = map PResult rs @ [PTick]"

definition result_ids :: "enode list list \<Rightarrow> node_id set" where
  "result_ids rs = (\<Union>r \<in> set rs. e_ID ` set r)"

fun new_counts :: "node_id set \<Rightarrow> enode list list list \<Rightarrow> nat list" where
  "new_counts S [] = []"
| "new_counts S (rs # ivs) = card (result_ids rs - S) # new_counts (S \<union> result_ids rs) ivs"

abbreviation known_ids :: "peek \<Rightarrow> node_id set" where
  "known_ids p \<equiv> e_ID ` set (pk_cache p)"

text \<open>The counters against the cache: \<open>base\<close> is the size of the cache when the interval began.\<close>

definition peek_inv :: "nat \<Rightarrow> peek \<Rightarrow> bool" where
  "peek_inv base p \<longleftrightarrow> distinct (map e_ID (pk_cache p)) \<and> base \<le> length (pk_cache p)
     \<and> pk_nodesAmount p = pk_duplicates p + of_nat (length (pk_cache p) - base)"

lemma peek_nodes_spec:
  assumes "distinct (map e_ID (pk_cache p))"
  shows "distinct (map e_ID (pk_cache (peek_nodes ns p))) \<and> known_ids (peek_nodes ns p) = known_ids p \<union> e_ID ` set ns
    \<and> length (pk_cache p) \<le> length (pk_cache (peek_nodes ns p))
    \<and> pk_nodesAmount (peek_nodes ns p) = pk_nodesAmount p \<and> pk_exhaused (peek_nodes ns p) = pk_exhaused p
    \<and> pk_duplicates (peek_nodes ns p) + of_nat (length (pk_cache (peek_nodes ns p)) - length (pk_cache p))
       = pk_duplicates p + of_nat (length ns)"
  using assms
proof (induction ns arbitrary: p)
  case (Cons n ns)
  show ?case
  proof (cases "e_ID n \<in> known_ids p")
    case True
    then show ?thesis using Cons.IH[of "p\<lparr>pk_duplicates := pk_duplicates p + 1\<rparr>"] Cons.prems
      by (auto simp: insert_absorb algebra_simps)
  next
    case False
    let ?q = "p\<lparr>pk_cache := pk_cache p @ [n]\<rparr>"
    have "distinct (map e_ID (pk_cache ?q))" using Cons.prems False by simp
    from Cons.IH[OF this] False show ?thesis by (auto simp: algebra_simps of_nat_diff Suc_le_eq)
  qed
qed simp

lemma peek_result_inv:
  assumes "peek_inv base p"
  shows "peek_inv base (peek_result r p)" and "known_ids (peek_result r p) = known_ids p \<union> e_ID ` set r"
    and "pk_exhaused (peek_result r p) = pk_exhaused p"
proof -
  let ?p = "p\<lparr>pk_queries := pk_queries p + 1\<rparr>"
  have d: "distinct (map e_ID (pk_cache ?p))" using assms by (simp add: peek_inv_def)
  note s = peek_nodes_spec[OF d, of r]
  show "known_ids (peek_result r p) = known_ids p \<union> e_ID ` set r" "pk_exhaused (peek_result r p) = pk_exhaused p"
    using s by (simp_all add: peek_result_def Let_def)
  show "peek_inv base (peek_result r p)"
    using s assms by (auto simp: peek_inv_def peek_result_def Let_def of_nat_diff algebra_simps)
qed

lemma peek_results:
  assumes "peek_inv base p"
  shows "peek_inv base (fold peek_result rs p)" and "known_ids (fold peek_result rs p) = known_ids p \<union> result_ids rs"
    and "pk_exhaused (fold peek_result rs p) = pk_exhaused p"
  using assms by (induction rs arbitrary: p) (auto simp: result_ids_def peek_result_inv)

lemma loop_results: "peek_loop (map PResult rs @ evs) p = peek_loop evs (fold peek_result rs p)"
  by (induction rs arbitrary: p) auto

lemma inv_card: "peek_inv base p \<Longrightarrow> length (pk_cache p) = card (known_ids p)"
  unfolding peek_inv_def by (metis distinct_card length_map list.set_map)

lemma of_nat_u16_zero: "of_nat k = (0 :: u16) \<longleftrightarrow> 65536 dvd k"
  by (simp add: word_of_nat_eq_0_iff)

text \<open>One interval, seen from the tick that ends it.\<close>

lemma interval_tick:
  fixes rs :: "enode list list"
  assumes "peek_inv (length (pk_cache p)) p" and "unat (pk_exhaused p) < 4"
  defines "q \<equiv> fold peek_result rs p" and "dry \<equiv> 65536 dvd card (result_ids rs - known_ids p)"
  shows "fst (peek_tick q) \<longleftrightarrow> 3 < unat (pk_exhaused p) + of_bool dry"
    and "unat (pk_exhaused (snd (peek_tick q))) = unat (pk_exhaused p) + of_bool dry"
    and "\<not> fst (peek_tick q) \<Longrightarrow> peek_inv (length (pk_cache (snd (peek_tick q)))) (snd (peek_tick q))"
    and "known_ids (snd (peek_tick q)) = known_ids p \<union> result_ids rs"
proof -
  have inv: "peek_inv (length (pk_cache p)) q" and ids: "known_ids q = known_ids p \<union> result_ids rs"
    and ex: "pk_exhaused q = pk_exhaused p" using peek_results[OF assms(1)] by (simp_all add: q_def)
  have fin: "finite (result_ids rs)" by (simp add: result_ids_def)
  have "length (pk_cache q) - length (pk_cache p) = card (result_ids rs - known_ids p)"
    unfolding inv_card[OF inv] inv_card[OF assms(1)] ids using fin
    by (metis Un_Diff_cancel card_Un_disjoint Diff_disjoint List.finite_set add_diff_cancel_left' finite_Diff finite_imageI)
  then have eq: "pk_nodesAmount q = pk_duplicates q \<longleftrightarrow> dry"
    using inv by (simp add: peek_inv_def dry_def of_nat_u16_zero)
  have suc: "unat (pk_exhaused p + 1) = Suc (unat (pk_exhaused p))"
    using assms(2) unat_add_lem[of "pk_exhaused p" 1] by simp
  show "fst (peek_tick q) \<longleftrightarrow> 3 < unat (pk_exhaused p) + of_bool dry"
    and "unat (pk_exhaused (snd (peek_tick q))) = unat (pk_exhaused p) + of_bool dry"
    using eq ex suc by (auto simp: peek_tick_def Let_def word_less_nat_alt)
  show "known_ids (snd (peek_tick q)) = known_ids p \<union> result_ids rs" using ids by (simp add: peek_tick_def Let_def)
  show "\<not> fst (peek_tick q) \<Longrightarrow> peek_inv (length (pk_cache (snd (peek_tick q)))) (snd (peek_tick q))"
    using inv by (auto simp: peek_tick_def Let_def peek_inv_def)
qed

lemma peek_loop_intervals:
  assumes "peek_inv (length (pk_cache p)) p" and "unat (pk_exhaused p) < 4"
  shows "fst (peek_loop (concat (map interval_events ivs)) p) \<longleftrightarrow>
    4 \<le> unat (pk_exhaused p) + length (filter (\<lambda>n. 65536 dvd n) (new_counts (known_ids p) ivs))"
  using assms
proof (induction ivs arbitrary: p)
  case (Cons rs ivs)
  let ?q = "fold peek_result rs p" and ?dry = "65536 dvd card (result_ids rs - known_ids p)"
  note t = interval_tick[OF Cons.prems, of rs]
  have loop: "peek_loop (concat (map interval_events (rs # ivs))) p
      = (if fst (peek_tick ?q) then (True, snd (peek_tick ?q)) else peek_loop (concat (map interval_events ivs)) (snd (peek_tick ?q)))"
    by (simp add: interval_events_def loop_results split: prod.splits)
  show ?case
  proof (cases "fst (peek_tick ?q)")
    case True
    then show ?thesis using t(1) unfolding loop by auto
  next
    case False
    then have lt: "unat (pk_exhaused (snd (peek_tick ?q))) < 4" using t(1,2) by simp
    from Cons.IH[OF t(3)[OF False] lt] False show ?thesis unfolding loop by (auto simp: t(2,4))
  qed
qed simp

text \<open>C34: The enumeration stops of itself exactly when four of its intervals were dry, where the wrapping counters take an
  interval for dry when the number of nodes new in it is a multiple of 65536; every node is collected once.\<close>

theorem peek_stops:
  "(fst (peek_loop (concat (map interval_events ivs)) new_peek) \<longleftrightarrow>
      4 \<le> length (filter (\<lambda>n. 65536 dvd n) (new_counts {} ivs)))
   \<and> distinct (map e_ID (pk_cache (fold peek_result rs new_peek)))
   \<and> known_ids (fold peek_result rs new_peek) = result_ids rs"
proof -
  have inv: "peek_inv (length (pk_cache new_peek)) new_peek" by (simp add: peek_inv_def new_peek_def)
  from peek_loop_intervals[OF inv, of ivs] peek_results[OF inv, of rs] show ?thesis
    by (simp add: new_peek_def peek_inv_def)
qed

end
