(* ===== verification/Scan_Dump.thy ===== *)
theory Scan_Dump
  imports Commands Peek
begin

text \<open>
  The command \<open>discV4PeekDB\<close> as a whole: parsing, one enumeration per node, the collection of the results in the order they
  arrive, and the file written at the end (\<open>crawler/cmd/disc/v4/dump.go\<close>). JSON encoding, the file system and the runtime's
  limit on channels are parameters.
\<close>

section \<open>Writing the result\<close>

type_synonym scanSet = "string \<rightharpoonup> enode list"

datatype dumped = Returned err | Stdout string | Written string string | Panics string

definition writeScanJSON :: "(scanSet \<Rightarrow> string + string) \<Rightarrow> (string \<Rightarrow> string \<Rightarrow> err) \<Rightarrow> string \<Rightarrow> scanSet \<Rightarrow> dumped" where
  "writeScanJSON marshal write file scan =
     (case marshal scan of
        Inl e \<Rightarrow> Panics (''json error. error: '' @ e)
      | Inr js \<Rightarrow>
          if file = [] then Stdout js
          else (case write file js of Some e \<Rightarrow> Panics (''dumping error. error: '' @ e) | None \<Rightarrow> Written file js))"

section \<open>The command\<close>

text \<open>What the command meets: \<open>pe_chan\<close> tells the sizes the runtime makes channels of, \<open>pe_events\<close> gives the events of the loop of
  each node, \<open>pe_order\<close> the order in which the loops end, \<open>pe_string\<close> the text of a node.\<close>

record peek_env =
  pe_chan :: "int \<Rightarrow> bool"
  pe_events :: "nat \<Rightarrow> peek_event list"
  pe_order :: "nat list"
  pe_string :: "enode \<Rightarrow> string"
  pe_marshal :: "scanSet \<Rightarrow> string + string"
  pe_write :: "string \<Rightarrow> string \<Rightarrow> err"

definition scanned_of :: "peek_env \<Rightarrow> nat \<Rightarrow> enode list" where
  "scanned_of E i = pk_cache (snd (peek_loop (pe_events E i) new_peek))"

fun collect_results :: "peek_env \<Rightarrow> enode list \<Rightarrow> nat list \<Rightarrow> scanSet \<Rightarrow> scanSet" where
  "collect_results E nodes [] scan = scan"
| "collect_results E nodes (i # is) scan = collect_results E nodes is (scan(pe_string E (nodes ! i) \<mapsto> scanned_of E i))"

text \<open>\<open>None\<close>: a loop has not ended, and the command waits for it.\<close>

definition discV4PeekDB :: "(string \<Rightarrow> string + enode) \<Rightarrow> peek_env \<Rightarrow> cli \<Rightarrow> string + 'h \<Rightarrow> dumped option" where
  "discV4PeekDB ParseV4 E ctx made =
     (case ParseNodes ParseV4 ctx of
        Inl e \<Rightarrow> Some (Returned (Some e))
      | Inr nodes \<Rightarrow>
          (case made of
             Inl e \<Rightarrow> Some (Returned (Some e))
           | Inr h \<Rightarrow>
               if nodes \<noteq> [] \<and> \<not> pe_chan E (ParseConcurrency ctx) then Some (Panics ''makechan: size out of range'')
               else if \<not> list_all (\<lambda>i. fst (peek_loop (pe_events E i) new_peek)) [0..<length nodes] then None
               else Some (writeScanJSON (pe_marshal E) (pe_write E) (ParseDir ctx @ ''/scan.json'')
                      (collect_results E nodes (pe_order E) Map.empty))))"

section \<open>Lemmas\<close>

text \<open>What the loop of a node has received when it ends.\<close>

fun received_results :: "peek_event list \<Rightarrow> peek \<Rightarrow> enode list list" where
  "received_results [] p = []"
| "received_results (PTick # evs) p = (case peek_tick p of (stop, p') \<Rightarrow> if stop then [] else received_results evs p')"
| "received_results (PDone # evs) p = []"
| "received_results (PResult r # evs) p = r # received_results evs (peek_result r p)"

lemma cache_tick [simp]: "pk_cache (snd (peek_tick p)) = pk_cache p"
  by (simp add: peek_tick_def Let_def)

lemma cache_result: "distinct (map e_ID (pk_cache p)) \<Longrightarrow>
  distinct (map e_ID (pk_cache (peek_result r p))) \<and> known_ids (peek_result r p) = known_ids p \<union> e_ID ` set r"
  using peek_nodes_spec[of "p\<lparr>pk_queries := pk_queries p + 1\<rparr>" r] by (simp add: peek_result_def Let_def)

lemma loop_collects:
  "distinct (map e_ID (pk_cache p)) \<Longrightarrow> distinct (map e_ID (pk_cache (snd (peek_loop evs p))))
     \<and> known_ids (snd (peek_loop evs p)) = known_ids p \<union> result_ids (received_results evs p)"
proof (induction evs p rule: received_results.induct)
  case (2 evs p)
  then show ?case
    using cache_tick[of p] by (cases "peek_tick p") (auto simp: result_ids_def)
next
  case (4 r evs p)
  from 4(1) cache_result[OF 4(2), of r] show ?case by (auto simp: result_ids_def)
qed (simp_all add: result_ids_def)

lemma scanned_of_spec:
  "distinct (map e_ID (scanned_of E i)) \<and> e_ID ` set (scanned_of E i) = result_ids (received_results (pe_events E i) new_peek)"
  using loop_collects[of new_peek "pe_events E i"] by (simp add: scanned_of_def new_peek_def)

lemma collect_results_at:
  assumes "\<forall>j \<in> set is. j \<noteq> i \<longrightarrow> pe_string E (nodes ! j) \<noteq> pe_string E (nodes ! i)"
  shows "collect_results E nodes is scan (pe_string E (nodes ! i))
    = (if i \<in> set is then Some (scanned_of E i) else scan (pe_string E (nodes ! i)))"
  using assms by (induction "is" arbitrary: scan) auto

lemma collect_results_dom:
  "dom (collect_results E nodes is scan) = dom scan \<union> (\<lambda>i. pe_string E (nodes ! i)) ` set is"
  by (induction "is" arbitrary: scan) auto

lemma dump_path: "writeScanJSON marshal write (d @ ''/scan.json'') scan \<noteq> Stdout js"
  by (simp add: writeScanJSON_def split: sum.splits option.splits)

text \<open>What the command leaves: when all its loops end it writes one file in the given directory, with an entry for each node that holds,
  without duplicates, every node received in answer to its requests; it never writes to standard output, never reports an error of its own, and
  panics when the result cannot be written, or for a concurrency no channel can have.\<close>

lemma discV4PeekDB_writes:
  assumes "ParseNodes ParseV4 ctx = Inr nodes" "made = Inr h" "mset (pe_order E) = mset [0..<length nodes]"
    "distinct (map (pe_string E) nodes)" "discV4PeekDB ParseV4 E ctx made = Some r"
  shows "(\<exists>e. r = Panics e) \<or> (\<exists>scan js. r = Written (ParseDir ctx @ ''/scan.json'') js \<and> pe_marshal E scan = Inr js
    \<and> dom scan = pe_string E ` set nodes
    \<and> (\<forall>i < length nodes. \<exists>ns. scan (pe_string E (nodes ! i)) = Some ns \<and> distinct (map e_ID ns)
         \<and> e_ID ` set ns = result_ids (received_results (pe_events E i) new_peek)))"
proof -
  let ?scan = "collect_results E nodes (pe_order E) Map.empty"
  have o: "set (pe_order E) = {0..<length nodes}" using assms(3) by (metis mset_eq_setD set_upt)
  have ne: "pe_string E (nodes ! j) \<noteq> pe_string E (nodes ! i)" if "i < length nodes" "j < length nodes" "j \<noteq> i" for i j
    using assms(4) that by (metis distinct_conv_nth length_map nth_map)
  have "dom ?scan = pe_string E ` set nodes" unfolding collect_results_dom o by (force simp: in_set_conv_nth)
  moreover have "\<exists>ns. ?scan (pe_string E (nodes ! i)) = Some ns \<and> distinct (map e_ID ns)
      \<and> e_ID ` set ns = result_ids (received_results (pe_events E i) new_peek)" if "i < length nodes" for i
    using collect_results_at[of "pe_order E" i E nodes Map.empty] ne[OF that] that scanned_of_spec[of E i] by (auto simp: o)
  moreover have "(\<exists>e. r = Panics e) \<or> (\<exists>js. r = Written (ParseDir ctx @ ''/scan.json'') js \<and> pe_marshal E ?scan = Inr js)"
    using assms(1,2,5) by (auto simp: discV4PeekDB_def writeScanJSON_def split: if_splits sum.splits option.splits)
  ultimately show ?thesis by blast
qed

text \<open>Without asking goroutines (concurrency 0) only the ticker speaks: the command ends after four ticks with empty results.\<close>

lemma no_concurrency: "peek_loop [PTick, PTick, PTick, PTick] new_peek = (True, new_peek\<lparr>pk_exhaused := 4\<rparr>)"
  by (simp add: peek_tick_def new_peek_def Let_def)

end
