(* ===== verification/Launch.thy ===== *)
theory Launch
  imports Program Scan_Dump
begin

text \<open>
  The entry points: \<open>main\<close>, \<open>Launch\<close> and the command tables of the three programs, and the interrupts of the scanner. What the
  command-line library does with a table is \<open>run_app\<close>: it runs the action of the command named first on the command line and calls
  \<open>CommandNotFound\<close> for another name; without a command it prints its help.
\<close>

section \<open>Programs\<close>

text \<open>The process ends with a status and what it prints on standard error.\<close>

definition CommandNotFound :: "string \<Rightarrow> int \<times> string" where
  "CommandNotFound cmd = (1, ''No such command: '' @ cmd @ [CHR 10])"

definition run_app :: "(string \<times> ('c \<Rightarrow> err)) list \<Rightarrow> string list \<Rightarrow> 'c \<Rightarrow> int \<times> string" where
  "run_app cmds args ctx =
     (case args of
        [] \<Rightarrow> exit_process None
      | cmd # _ \<Rightarrow> (case map_of cmds cmd of None \<Rightarrow> CommandNotFound cmd | Some action \<Rightarrow> exit_process (action ctx)))"

definition scanner_commands :: "('c \<Rightarrow> err) \<Rightarrow> ('c \<Rightarrow> err) \<Rightarrow> (string \<times> ('c \<Rightarrow> err)) list" where
  "scanner_commands eventScan ipScan = [(''EventScan'', eventScan), (''IpScan'', ipScan)]"

definition crawler_commands :: "('c \<Rightarrow> err) \<Rightarrow> (string \<times> ('c \<Rightarrow> err)) list" where
  "crawler_commands crawl = [(''crawl'', crawl)]"

definition Discv4Command :: "('c \<Rightarrow> err) \<Rightarrow> ('c \<Rightarrow> err) \<Rightarrow> ('c \<Rightarrow> err) \<Rightarrow> ('c \<Rightarrow> err) \<Rightarrow> (string \<times> ('c \<Rightarrow> err)) list" where
  "Discv4Command ping random enr scan = [(''ping'', ping), (''random'', random), (''enr'', enr), (''scan'', scan)]"

text \<open>\<open>Launch\<close> and \<open>main\<close> of the scanner and the crawler.\<close>

definition scanner_main :: "('c \<Rightarrow> err) \<Rightarrow> ('c \<Rightarrow> err) \<Rightarrow> string list \<Rightarrow> 'c \<Rightarrow> int \<times> string" where
  "scanner_main eventScan ipScan args ctx = run_app (scanner_commands eventScan ipScan) args ctx"

definition crawler_main :: "('c \<Rightarrow> err) \<Rightarrow> string list \<Rightarrow> 'c \<Rightarrow> int \<times> string" where
  "crawler_main crawl args ctx = run_app (crawler_commands crawl) args ctx"

text \<open>The goroutine that \<open>app.Before\<close> of the scanner starts; it is that of the crawler.\<close>

definition scanner_signals :: "nat \<Rightarrow> sig_action list" where
  "scanner_signals n = signal_loop 0 False n"

section \<open>The cache client\<close>

text \<open>\<open>RedisClient.Start\<close> pings once, and \<open>runStatus\<close> without end, given the results of the pings: the number of pings made, and whether
  the process has been ended. The ticker it makes is not read.\<close>

definition redis_Start :: "err \<Rightarrow> err \<times> bool" where
  "redis_Start ping = (case ping of Some e \<Rightarrow> (Some e, False) | None \<Rightarrow> (None, True))"

fun runStatus :: "err list \<Rightarrow> nat \<times> bool" where
  "runStatus [] = (0, False)"
| "runStatus (Some e # pings) = (1, True)"
| "runStatus (None # pings) = (case runStatus pings of (n, ended) \<Rightarrow> (Suc n, ended))"

section \<open>Lemmas\<close>

text \<open>The process fails exactly when its action fails or the command does not exist.\<close>

lemma run_app_status:
  "fst (run_app cmds args ctx) \<in> {0, 1} \<and>
   (fst (run_app cmds args ctx) = 1 \<longleftrightarrow> (\<exists>cmd rest. args = cmd # rest \<and> (map_of cmds cmd = None \<or> (\<exists>act e. map_of cmds cmd = Some act \<and> act ctx = Some e))))"
  by (auto simp: run_app_def exit_process_def CommandNotFound_def split: list.splits option.splits)

text \<open>The address scan without an address fails before any scan is started; so does the crawler without a boot node.\<close>

lemma ip_scan_needs_ips:
  assumes "snd (snd (scan_Parse ParseIP ctx (scan_DefaultConfig procs))) = None"
    "length (Ips (fst (snd (scan_Parse ParseIP ctx (scan_DefaultConfig procs))))) = 0"
  shows "scanner_main ev (\<lambda>c. the (runIpScanner ParseIP procs c evs)) [''IpScan''] ctx = (1, ''running scanner without ip is useless'' @ [CHR 10])"
proof -
  obtain d c where p: "scan_Parse ParseIP ctx (scan_DefaultConfig procs) = (d, c, None)"
    using assms(1) by (cases "scan_Parse ParseIP ctx (scan_DefaultConfig procs)") auto
  then show ?thesis using assms(2)
    by (simp add: scanner_main_def run_app_def scanner_commands_def runIpScanner_def exit_process_def)
qed

lemma runStatus_ends: "snd (runStatus pings) \<longleftrightarrow> (\<exists>e. Some e \<in> set pings)"
  by (induction pings rule: runStatus.induct) (auto split: prod.splits)

lemma runStatus_count: "fst (runStatus pings) = (if snd (runStatus pings) then Suc (length (takeWhile (\<lambda>p. p = None) pings)) else length pings)"
  by (induction pings rule: runStatus.induct) (auto split: prod.splits)

end
