(* ===== verification/Rlpx.thy ===== *)
theory Rlpx
  imports Transport
begin

text \<open>
  The connection below the transport (\<open>crawler/net/transport/conn.go\<close>, \<open>msg.go\<close>): frames of package \<open>rlpx\<close> carry a code and the RLP
  encoding of a message. RLP and the frames are parameters: \<open>enc\<close> and \<open>decode\<close> (which gets the size limit of the stream), and
  the results of reading and writing. The hello exchange is then run between two sides.
\<close>

section \<open>Messages on a connection\<close>

text \<open>A message as \<open>Read\<close> builds it.\<close>

record raw_msg =
  rm_code :: u64
  rm_Size :: u32
  rm_Payload :: "u8 list"
  rm_ReceivedAt :: int

definition conn_Read :: "int \<Rightarrow> string + u64 \<times> u8 list \<Rightarrow> string + raw_msg" where
  "conn_Read now r =
     (case r of
        Inl e \<Rightarrow> Inl e
      | Inr (code, data) \<Rightarrow> Inr \<lparr>rm_code = code, rm_Size = of_nat (length data), rm_Payload = data, rm_ReceivedAt = now\<rparr>)"

text \<open>\<open>Write\<close>: the error, and the frame that went out.\<close>

definition conn_Write :: "('m \<Rightarrow> string + u8 list) \<Rightarrow> int \<Rightarrow> 'm \<Rightarrow> err \<Rightarrow> err \<times> (u64 \<times> u8 list) option" where
  "conn_Write enc code msg write_err =
     (case enc msg of
        Inl e \<Rightarrow> (Some e, None)
      | Inr payload \<Rightarrow> (case write_err of Some e \<Rightarrow> (Some e, None) | None \<Rightarrow> (None, Some (word_of_int code, payload))))"

text \<open>Hexadecimal, as \<open>%x\<close> prints an \<open>int\<close>.\<close>

definition hex_digit :: "nat \<Rightarrow> char" where
  "hex_digit d = (if d < 10 then char_of (48 + d) else char_of (87 + d))"

function hex_nat :: "nat \<Rightarrow> string" where
  "hex_nat n = (if n < 16 then [hex_digit n] else hex_nat (n div 16) @ [hex_digit (n mod 16)])"
  by pat_completeness auto
termination
  by (relation "measure id") auto

declare hex_nat.simps [simp del]

definition hex_int :: "int \<Rightarrow> string" where
  "hex_int i = (if i < 0 then CHR ''-'' # hex_nat (nat (- i)) else hex_nat (nat i))"

definition Msg_Decode :: "(u8 list \<Rightarrow> u64 \<Rightarrow> string + 'v) \<Rightarrow> raw_msg \<Rightarrow> string + 'v" where
  "Msg_Decode decode m =
     (case decode (rm_Payload m) (ucast (rm_Size m)) of
        Inl e \<Rightarrow> Inl (''invalid msg (code '' @ hex_int (sint (rm_code m)) @ '') (size '' @ dec (unat (rm_Size m)) @ '') '' @ e)
      | Inr v \<Rightarrow> Inr v)"

text \<open>\<open>Discard\<close> reads what is left of the payload; a reader of bytes does not fail.\<close>

definition Msg_Discard :: "raw_msg \<Rightarrow> err \<times> raw_msg" where
  "Msg_Discard m = (None, m\<lparr>rm_Payload := []\<rparr>)"

section \<open>The hello exchange on a connection\<close>

record codecs =
  cd_enc :: "Hello \<Rightarrow> string + u8 list"
  cd_hello :: "u8 list \<Rightarrow> u64 \<Rightarrow> string + Hello"
  cd_disconnect :: "u8 list \<Rightarrow> u64 \<Rightarrow> string + string"

definition as_Msg :: "codecs \<Rightarrow> raw_msg \<Rightarrow> Msg" where
  "as_Msg K m = \<lparr>m_code = rm_code m, m_as_hello = Msg_Decode (cd_hello K) m, m_as_disconnect = Msg_Decode (cd_disconnect K) m\<rparr>"

text \<open>The hello a side sends (its identifier is not read by the other side).\<close>

definition our_hello :: "string \<Rightarrow> Cap list \<Rightarrow> Hello" where
  "our_hello name caps = \<lparr>h_Version = 4, h_Name = name, h_Caps = caps\<rparr>"

text \<open>\<open>Setup\<close> on a connection: the outcome and the frame sent, when there was one.\<close>

definition conn_Setup :: "codecs \<Rightarrow> string \<Rightarrow> Cap list option \<Rightarrow> err \<Rightarrow> int \<Rightarrow> string + u64 \<times> u8 list \<Rightarrow> Transport \<Rightarrow>
    (err \<times> Transport) \<times> (u64 \<times> u8 list) option" where
  "conn_Setup K name caps write_err now r t =
     (let w = conn_Write (cd_enc K) Hello_Code (our_hello name (the caps)) write_err
      in (Setup caps (fst w) (map_sum id (as_Msg K) (conn_Read now r)) t, if caps = None then None else snd w))"

section \<open>Lemmas\<close>

lemma hex_nat_nonempty [simp]: "hex_nat n \<noteq> []"
  by (subst hex_nat.simps) simp

lemma Read_Size: "conn_Read now (Inr (c, d)) = Inr m \<Longrightarrow> length d < 2 ^ 32 \<Longrightarrow> unat (rm_Size m) = length d"
  by (auto simp: conn_Read_def unat_of_nat take_bit_nat_eq_self)

lemma conn_Setup_reads:
  assumes "cd_enc K (our_hello name caps) = Inr pl" "cd_hello K d (of_nat (length d)) = Inr h" "length d < 2 ^ 32"
  shows "conn_Setup K name (Some caps) None now (Inr (0, d)) t
    = ((None, t\<lparr>t_Name := h_Name h, t_Version := h_Version h, t_Caps := h_Caps h\<rparr>), Some (0, pl))"
proof -
  have "ucast (of_nat (length d) :: u32) = (of_nat (length d) :: u64)"
    using assms(3) by (simp flip: word_unat_eq_iff add: unsigned_of_nat take_bit_nat_eq_self)
  then show ?thesis using assms
    by (simp add: conn_Setup_def conn_Write_def conn_Read_def as_Msg_def Msg_Decode_def Setup_def Hello_Code_def)
qed

text \<open>Two sides that run \<open>Setup\<close> on one connection, each reading the frame the other has sent, learn each other's name, version and
  capabilities, provided RLP decodes what it has encoded; no other frame lets a side succeed.\<close>

lemma hello_exchange:
  assumes "cd_enc K (our_hello na ca) = Inr pa" "cd_enc K (our_hello nb cb) = Inr pb"
    and "cd_hello K pa (of_nat (length pa)) = Inr (our_hello na ca)" "cd_hello K pb (of_nat (length pb)) = Inr (our_hello nb cb)"
    and "length pa < 2 ^ 32" "length pb < 2 ^ 32"
  shows "\<exists>fa fb. conn_Setup K na (Some ca) None now (Inr fb) t = ((None, \<lparr>t_Name = nb, t_Version = 4, t_Caps = cb\<rparr>), Some fa)
    \<and> conn_Setup K nb (Some cb) None now' (Inr fa) t' = ((None, \<lparr>t_Name = na, t_Version = 4, t_Caps = ca\<rparr>), Some fb)"
  using conn_Setup_reads[OF assms(1,4,6), of now t] conn_Setup_reads[OF assms(2,3,5), of now' t']
  by (intro exI[of _ "(0, pa)"] exI[of _ "(0, pb)"]) (simp add: our_hello_def)

lemma conn_Setup_ok:
  assumes "conn_Setup K name caps None now r t = ((None, t'), sent)" "cd_enc K (our_hello name (the caps)) = Inr pl"
  shows "\<exists>d h. r = Inr (0, d) \<and> cd_hello K d (ucast (of_nat (length d) :: u32)) = Inr h
    \<and> t' = t\<lparr>t_Name := h_Name h, t_Version := h_Version h, t_Caps := h_Caps h\<rparr>"
proof -
  from assms obtain msg h where "map_sum id (as_Msg K) (conn_Read now r) = Inr msg" "m_code msg = 0" "m_as_hello msg = Inr h"
    "t' = t\<lparr>t_Name := h_Name h, t_Version := h_Version h, t_Caps := h_Caps h\<rparr>"
    using Setup_ok(2)[of caps None "map_sum id (as_Msg K) (conn_Read now r)" t t'] by (auto simp: conn_Setup_def conn_Write_def Let_def)
  then show ?thesis by (auto simp: conn_Read_def as_Msg_def Msg_Decode_def split: sum.splits prod.splits)
qed

end
