(* ===== verification/Table_Close.thy ===== *)
theory Table_Close
  imports Table_Props
begin

text \<open>
  The refresh goroutine of the table step by step (\<open>doRefresh\<close>), the callers of \<open>refresh\<close> and \<open>close\<close>, and the end
  of the loop. A refresh is the list of actions it has left; everything else is the loop of \<open>Table_Run\<close>, which this system
  refines.
\<close>

section \<open>Refreshing\<close>

datatype refresh_action = AddSeed Node | LookupSelf | LookupAny

text \<open>\<open>doRefresh\<close>: the seeds of the database (\<open>db.QuerySeeds\<close>) and the nursery, one at a time, the lookup of the own
  identifier and three random lookups.\<close>

definition doRefresh :: "enode list \<Rightarrow> 's Table \<Rightarrow> refresh_action list" where
  "doRefresh dbseeds tab = map AddSeed (WrapNodes dbseeds @ nursery tab) @ [LookupSelf] @ replicate 3 LookupAny"

definition revalidateInterval :: int where "revalidateInterval = 10 * 1000000000"

text \<open>\<open>Int63n\<close> is the library's: below its argument.\<close>

definition nextRevalidateTime :: "(int \<Rightarrow> int) \<Rightarrow> int" where
  "nextRevalidateTime Int63n = Int63n revalidateInterval"

definition isInitDone :: "'s Table \<Rightarrow> bool" where "isInitDone tab = initDone tab"

record 's live =
  l_run :: "'s run_state"
  l_left :: "refresh_action list"

abbreviation l_tab :: "'s live \<Rightarrow> 's Table" where "l_tab s \<equiv> r_tab (l_run s)"

definition live_init :: "'s table_ext \<Rightarrow> ip_limits \<Rightarrow> bool \<Rightarrow> 's live \<Rightarrow> bool" where
  "live_init X L ign s \<longleftrightarrow> run_init X L ign (l_run s) \<and> (\<exists>dbseeds. l_left s = doRefresh dbseeds (l_tab s))"

text \<open>
  \<open>loop\<close> is any step of the loop other than the end of a refresh; one that starts a refresh leaves all of its actions.
  \<open>refresh\<close> and \<open>close\<close> are called from outside: \<open>refresh_req\<close>, \<open>refresh_refused\<close> and \<open>close_req\<close> of
  \<^const>\<open>run_step\<close>.
\<close>

inductive live_step :: "'s table_ext \<Rightarrow> 's live \<Rightarrow> 's live \<Rightarrow> bool" for X :: "'s table_ext" where
  loop: "run_step X (l_run s) t \<Longrightarrow> r_refresh t = r_refresh (l_run s) \<or> r_refresh t = RIdle \<Longrightarrow> live_step X s (s\<lparr>l_run := t\<rparr>)"
| starts: "run_step X (l_run s) t \<Longrightarrow> r_refresh (l_run s) = RIdle \<Longrightarrow> r_refresh t = RRunning \<Longrightarrow>
    live_step X s \<lparr>l_run = t, l_left = doRefresh dbseeds (r_tab t)\<rparr>"
| seed: "r_refresh (l_run s) = RRunning \<Longrightarrow> l_left s = AddSeed n # as \<Longrightarrow>
    live_step X s \<lparr>l_run = (l_run s)\<lparr>r_tab := AddSeenNode X now (l_tab s) n\<rparr>, l_left = as\<rparr>"
| looked_up: "r_refresh (l_run s) = RRunning \<Longrightarrow> l_left s = a # as \<Longrightarrow> a \<in> {LookupSelf, LookupAny} \<Longrightarrow>
    live_step X s (s\<lparr>l_left := as\<rparr>)"
| ends: "r_refresh (l_run s) = RRunning \<Longrightarrow> l_left s = [] \<Longrightarrow> live_step X s (s\<lparr>l_run := (l_run s)\<lparr>r_refresh := RDone\<rparr>\<rparr>)"

inductive_cases live_stepE: "live_step X s t"

section \<open>Refinement of the loop\<close>

lemma live_refines: "live_step X s t \<Longrightarrow> run_step X (l_run s) (l_run t) \<or> l_run t = l_run s"
  by (erule live_stepE) (auto intro: run_step.seen run_step.refresh_end)

lemma live_reach: "reach (live_init X L ign) (live_step X) s \<Longrightarrow> reach (run_init X L ign) (run_step X) (l_run s)"
proof (induction rule: reach.induct)
  case (reach_init s)
  then show ?case by (auto simp: live_init_def intro: reach.reach_init)
next
  case (reach_step s t)
  then show ?case using live_refines[OF reach_step.hyps(2)] by (metis reach.reach_step)
qed

section \<open>The end of the loop\<close>

text \<open>What the loop has to do until it ends, once it has been asked to.\<close>

definition loop_left :: "loop_phase \<Rightarrow> nat" where
  "loop_left p = (case p of Looping \<Rightarrow> 3 | Draining \<Rightarrow> 2 | Flushed \<Rightarrow> 1 | Closed \<Rightarrow> 0)"

definition reval_left :: "reval_phase \<Rightarrow> nat" where
  "reval_left p = (case p of VPicking \<Rightarrow> 2 | VPinging n bi \<Rightarrow> 1 | _ \<Rightarrow> 0)"

definition remaining :: "'s live \<Rightarrow> nat" where
  "remaining s = loop_left (r_loop (l_run s)) + reval_left (r_reval (l_run s))
     + (if r_refresh (l_run s) = RRunning then Suc (length (l_left s)) else 0)"

lemmas remaining_defs = remaining_def loop_left_def reval_left_def

text \<open>The bookkeeping of the loop that its end rests on.\<close>

definition close_inv :: "'s run_state \<Rightarrow> bool" where
  "close_inv s \<longleftrightarrow> 0 \<in> set (r_closed s @ r_waiting s)
     \<and> (r_waiting s \<noteq> [] \<longrightarrow> r_refresh s \<noteq> RIdle)
     \<and> (r_loop s \<in> {Flushed, Closed} \<longrightarrow> r_waiting s = [] \<and> r_refresh s \<noteq> RRunning)
     \<and> (r_loop s = Closed \<longrightarrow> r_reval s \<in> {VIdle, VDone})
     \<and> (r_armed s \<longleftrightarrow> r_reval s = VIdle)
     \<and> (initDone (r_tab s) \<longleftrightarrow> 0 \<in> set (r_closed s))"

lemma close_inv_step: "close_inv s \<Longrightarrow> run_step X s t \<Longrightarrow> close_inv t"
  by (erule run_stepE) (auto simp: close_inv_def start_refresh_def close_waiting_def)

lemma close_inv_init: "run_init X L ign s \<Longrightarrow> close_inv s"
proof -
  have n: "initDone (AddSeenNodes X now t ns) = initDone t" for now t ns
    by (induction ns arbitrary: t) simp_all
  assume "run_init X L ign s"
  then show ?thesis
    by (auto simp: run_init_def close_inv_def) (auto simp: NewTable_def Let_def setFallbackNodes_def loadSeedNodes_def n split: option.splits)
qed

interpretation closing: inv_system "run_init X L ign" "run_step X" close_inv
  by unfold_locales (auto intro: close_inv_init close_inv_step)

lemma close_inv_live: "reach (live_init X L ign) (live_step X) s \<Longrightarrow> close_inv (l_run s)"
  by (rule closing.reach_inv[OF live_reach])


lemma run_step_closing:
  assumes "run_step X s t" "r_loop s \<noteq> Looping"
  shows "r_loop t \<noteq> Looping \<and> (r_refresh t = r_refresh s \<or> r_refresh s = RRunning \<and> r_refresh t = RDone)
    \<and> (loop_left (r_loop t) + reval_left (r_reval t) < loop_left (r_loop s) + reval_left (r_reval s)
       \<or> r_refresh t \<noteq> r_refresh s \<or> (r_loop t = r_loop s \<and> r_reval t = r_reval s))
    \<and> loop_left (r_loop t) + reval_left (r_reval t) \<le> loop_left (r_loop s) + reval_left (r_reval s)"
  using assms by (cases rule: run_step.cases) (auto simp: loop_left_def reval_left_def start_refresh_def close_waiting_def split: loop_phase.splits)

lemma closing_step:
  assumes "live_step X s t" "r_loop (l_run s) \<noteq> Looping"
  shows "r_loop (l_run t) \<noteq> Looping \<and> (remaining t < remaining s
    \<or> remaining t = remaining s \<and> r_loop (l_run t) = r_loop (l_run s) \<and> r_reval (l_run t) = r_reval (l_run s)
      \<and> r_refresh (l_run t) = r_refresh (l_run s) \<and> l_left t = l_left s)"
  using assms(1)
proof (cases rule: live_step.cases)
  case (loop u)
  with run_step_closing[OF loop(2) assms(2)] show ?thesis by (auto simp: remaining_def)
next
  case (starts u dbseeds)
  with run_step_closing[OF starts(2) assms(2)] show ?thesis by auto
qed (use assms(2) in \<open>auto simp: remaining_def\<close>)

lemma reval_goes_on:
  fixes s :: "'s run_state"
  assumes "reval_left (r_reval s) \<noteq> 0"
  shows "\<exists>t. run_step X s t \<and> r_refresh t = r_refresh s \<and> r_loop t = r_loop s \<and> reval_left (r_reval t) < reval_left (r_reval s)"
proof (cases "r_reval s")
  case VPicking
  let ?perm = "[0..<nBuckets]"
  show ?thesis
  proof (cases "nodeToRevalidate ?perm (r_tab s)")
    case None
    with VPicking show ?thesis
      by (intro exI[of _ "s\<lparr>r_reval := VDone\<rparr>"]) (auto intro: run_step.reval_none[of _ ?perm] simp: reval_left_def)
  next
    case (Some q)
    then obtain n bi where q: "nodeToRevalidate ?perm (r_tab s) = Some (n, bi)" by (cases q) auto
    with VPicking show ?thesis
      by (intro exI[of _ "s\<lparr>r_reval := VPinging n bi\<rparr>"]) (auto intro: run_step.reval_pick[of _ ?perm] simp: reval_left_def)
  qed
next
  case (VPinging n bi)
  have "run_step X s (s\<lparr>r_tab := doRevalidate X (\<lambda>k. 0) (0, None) (Inl []) n bi (r_tab s), r_reval := VDone\<rparr>)"
    by (rule run_step.reval_finish[OF VPinging]) simp_all
  then show ?thesis using VPinging by (intro exI) (auto simp: reval_left_def)
qed (use assms in \<open>simp_all add: reval_left_def\<close>)

lemma closing_goes_on:
  assumes "r_loop (l_run s) \<in> {Draining, Flushed}"
  shows "\<exists>t. live_step X s t \<and> remaining t < remaining s"
proof (cases "r_refresh (l_run s) = RRunning")
  case True
  show ?thesis
  proof (cases "l_left s")
    case Nil
    with True show ?thesis by (intro exI) (rule conjI[OF live_step.ends], simp_all add: remaining_def)
  next
    case (Cons a as)
    have "\<exists>t. live_step X s t \<and> r_refresh (l_run t) = RRunning \<and> l_left t = as \<and> r_loop (l_run t) = r_loop (l_run s)
        \<and> r_reval (l_run t) = r_reval (l_run s)"
    proof (cases a)
      case (AddSeed n)
      from live_step.seed[OF True Cons[unfolded AddSeed], of X 0] True show ?thesis by (intro exI) (rule conjI, assumption, simp)
    next
      case LookupSelf
      then have "live_step X s (s\<lparr>l_left := as\<rparr>)" by (intro live_step.looked_up[OF True Cons]) simp
      with True show ?thesis by (intro exI) (rule conjI, assumption, simp)
    next
      case LookupAny
      then have "live_step X s (s\<lparr>l_left := as\<rparr>)" by (intro live_step.looked_up[OF True Cons]) simp
      with True show ?thesis by (intro exI) (rule conjI, assumption, simp)
    qed
    then show ?thesis using True Cons by (auto simp: remaining_def)
  qed
next
  case False
  let ?r = "l_run s"
  have live: "\<exists>t. live_step X s t \<and> remaining t < remaining s"
    if "run_step X ?r t" "r_refresh t = r_refresh ?r" "loop_left (r_loop t) + reval_left (r_reval t) < loop_left (r_loop ?r) + reval_left (r_reval ?r)" for t
    using that by (intro exI[of _ "s\<lparr>l_run := t\<rparr>"]) (auto intro: live_step.loop simp: remaining_def)
  show ?thesis
  proof (cases "r_loop ?r = Draining")
    case True
    show ?thesis by (rule live[OF run_step.close_flush[OF True False]]) (simp_all add: close_waiting_def loop_left_def True)
  next
    case nd: False
    then have fl: "r_loop ?r = Flushed" using assms by simp
    show ?thesis
    proof (cases "reval_left (r_reval ?r) = 0")
      case True
      then have "r_reval ?r \<in> {VIdle, VDone}" by (cases "r_reval ?r") (simp_all add: reval_left_def)
      from live[OF run_step.close_end[OF fl this]] show ?thesis by (simp add: loop_left_def fl)
    next
      case False
      from reval_goes_on[OF this, of X] show ?thesis using live by (metis add_strict_left_mono)
    qed
  qed
qed


section \<open>Waiting for a refresh\<close>

definition refresh_left :: "'s live \<Rightarrow> nat" where
  "refresh_left s = (if r_refresh (l_run s) = RRunning then Suc (length (l_left s)) else 0)"

lemma waiting_step:
  assumes "live_step X s t" "close_inv (l_run s)" "ch \<in> set (r_waiting (l_run s))"
  shows "ch \<in> set (r_closed (l_run t)) \<or> ch \<in> set (r_waiting (l_run t)) \<and> refresh_left t \<le> refresh_left s"
proof -
  have w: "ch \<in> set (r_closed u) \<or> ch \<in> set (r_waiting u) \<and> r_refresh u \<noteq> RIdle" if "run_step X (l_run s) u" for u
    using that assms(2,3) by (cases rule: run_step.cases) (auto simp: close_inv_def start_refresh_def close_waiting_def)
  have n: "r_refresh (l_run s) \<noteq> RIdle" using assms(2,3) by (auto simp: close_inv_def)
  from assms(1) show ?thesis
    by (cases rule: live_step.cases) (use w n assms(3) in \<open>auto simp: refresh_left_def\<close>)
qed

lemma running_refresh:
  assumes "r_refresh (l_run s) = RRunning"
  shows "\<exists>t. live_step X s t \<and> refresh_left t < refresh_left s"
proof (cases "l_left s")
  case Nil
  let ?t = "s\<lparr>l_run := (l_run s)\<lparr>r_refresh := RDone\<rparr>\<rparr>"
  have "live_step X s ?t" by (rule live_step.ends[OF assms Nil])
  moreover have "refresh_left ?t < refresh_left s" by (simp add: refresh_left_def assms)
  ultimately show ?thesis by blast
next
  case (Cons a as)
  have "\<exists>t. live_step X s t \<and> r_refresh (l_run t) = RRunning \<and> l_left t = as"
  proof (cases "\<exists>n. a = AddSeed n")
    case True
    then obtain n where a: "a = AddSeed n" by blast
    from live_step.seed[OF assms Cons[unfolded a], of X 0] assms show ?thesis by (intro exI) (rule conjI, assumption, simp)
  next
    case False
    then have "a \<in> {LookupSelf, LookupAny}" by (cases a) simp_all
    from live_step.looked_up[OF assms Cons this, of X] assms show ?thesis by (intro exI) (rule conjI, assumption, simp)
  qed
  then show ?thesis using Cons assms by (auto simp: refresh_left_def)
qed

lemma waiting_goes_on:
  assumes "close_inv (l_run s)" "ch \<in> set (r_waiting (l_run s))"
  shows "\<exists>t. live_step X s t \<and> (ch \<in> set (r_closed (l_run t)) \<or> refresh_left t < refresh_left s)"
proof (cases "r_refresh (l_run s) = RRunning")
  case True
  from running_refresh[OF this] show ?thesis by blast
next
  case False
  then have d: "r_refresh (l_run s) = RDone" using assms by (cases "r_refresh (l_run s)") (auto simp: close_inv_def)
  have "r_loop (l_run s) \<in> {Looping, Draining}" using assms by (cases "r_loop (l_run s)") (auto simp: close_inv_def)
  then obtain t where "run_step X (l_run s) t" "r_refresh t = RDone \<or> r_refresh t = RIdle" "ch \<in> set (r_closed t)"
    using run_step.refresh_done[of "l_run s" X] run_step.close_flush[of "l_run s" X] d assms(2)
    by (auto simp: close_waiting_def)
  then show ?thesis using live_step.loop[of X s t] d by auto
qed

lemma closes: "r_loop (l_run s) \<noteq> Looping \<Longrightarrow> \<exists>t. (live_step X)\<^sup>*\<^sup>* s t \<and> r_loop (l_run t) = Closed"
proof (induction "remaining s" arbitrary: s rule: less_induct)
  case less
  show ?case
  proof (cases "r_loop (l_run s) = Closed")
    case False
    then have "r_loop (l_run s) \<in> {Draining, Flushed}" using less.prems by (cases "r_loop (l_run s)") simp_all
    from closing_goes_on[OF this, of X] obtain t where t: "live_step X s t" "remaining t < remaining s" by blast
    with less.hyps closing_step[OF t(1) less.prems] show ?thesis by (meson converse_rtranclp_into_rtranclp)
  qed blast
qed

section \<open>Properties\<close>

text \<open>C12: Closing the table and waiting for a refresh end. Once \<open>close\<close> has been called, the loop never takes up new work: every step
  brings it nearer to its end or leaves it as far as it is, a step towards the end is possible until the end is reached, and at the end no
  caller of \<open>refresh\<close> waits, the table counts as initialised, and neither a refresh nor a revalidation runs. A caller of \<open>refresh\<close>
  waits for a refresh that is under way: no step puts its end off, one that brings it nearer is always possible, and then its
  channel is closed.\<close>

theorem close_returns:
  assumes "reach (live_init X L ign) (live_step X) s"
  shows "(r_loop (l_run s) \<noteq> Looping \<longrightarrow>
        (\<forall>t. live_step X s t \<longrightarrow> r_loop (l_run t) \<noteq> Looping \<and> remaining t \<le> remaining s
           \<and> (remaining t = remaining s \<longrightarrow> r_loop (l_run t) = r_loop (l_run s) \<and> r_reval (l_run t) = r_reval (l_run s) \<and> l_left t = l_left s))
      \<and> (r_loop (l_run s) \<noteq> Closed \<longrightarrow> (\<exists>t. live_step X s t \<and> remaining t < remaining s))
      \<and> (\<exists>t. (live_step X)\<^sup>*\<^sup>* s t \<and> r_loop (l_run t) = Closed))
    \<and> (r_loop (l_run s) = Closed \<longrightarrow> r_waiting (l_run s) = [] \<and> isInitDone (l_tab s) \<and> r_refresh (l_run s) \<noteq> RRunning
        \<and> r_reval (l_run s) \<in> {VIdle, VDone})
    \<and> (\<forall>ch \<in> set (r_waiting (l_run s)).
        (\<forall>t. live_step X s t \<longrightarrow> ch \<in> set (r_closed (l_run t)) \<or> ch \<in> set (r_waiting (l_run t)) \<and> refresh_left t \<le> refresh_left s)
      \<and> (\<exists>t. live_step X s t \<and> (ch \<in> set (r_closed (l_run t)) \<or> refresh_left t < refresh_left s)))"
proof (intro conjI impI allI ballI)
  have i: "close_inv (l_run s)" by (rule close_inv_live[OF assms])
  {
    fix ch assume w: "ch \<in> set (r_waiting (l_run s))"
    show "ch \<in> set (r_closed (l_run t)) \<or> ch \<in> set (r_waiting (l_run t)) \<and> refresh_left t \<le> refresh_left s" if "live_step X s t" for t
      by (rule waiting_step[OF that i w])
    show "\<exists>t. live_step X s t \<and> (ch \<in> set (r_closed (l_run t)) \<or> refresh_left t < refresh_left s)" by (rule waiting_goes_on[OF i w])
  }
  show "r_waiting (l_run s) = []" "isInitDone (l_tab s)" "r_refresh (l_run s) \<noteq> RRunning" "r_reval (l_run s) \<in> {VIdle, VDone}"
    if "r_loop (l_run s) = Closed" using i that by (auto simp: close_inv_def isInitDone_def)
  assume l: "r_loop (l_run s) \<noteq> Looping"
  then show "\<exists>t. (live_step X)\<^sup>*\<^sup>* s t \<and> r_loop (l_run t) = Closed" by (rule closes)
  show "\<exists>t. live_step X s t \<and> remaining t < remaining s" if "r_loop (l_run s) \<noteq> Closed"
    using closing_goes_on[of s X] l that by (cases "r_loop (l_run s)") simp_all
  fix t assume st: "live_step X s t"
  note c = closing_step[OF st l]
  then show "r_loop (l_run t) \<noteq> Looping" "remaining t \<le> remaining s" by auto
  show "r_loop (l_run t) = r_loop (l_run s)" "r_reval (l_run t) = r_reval (l_run s)" "l_left t = l_left s" if "remaining t = remaining s"
    using c that by auto
qed

text \<open>The loop of an empty table that is closed during its first refresh.\<close>

definition ex_closing :: "prefix_set live" where
  "ex_closing = \<lparr>l_run = ex_run\<lparr>r_tab := ex_tab0, r_loop := Draining\<rparr>, l_left = doRefresh [] ex_tab0\<rparr>"

lemma ex_closing_reach: "reach (live_init (ex_env 0) default_limits False) (live_step (ex_env 0)) ex_closing"
proof -
  let ?s = "\<lparr>l_run = ex_run\<lparr>r_tab := ex_tab0\<rparr>, l_left = doRefresh [] ex_tab0\<rparr>"
  have "reach (live_init (ex_env 0) default_limits False) (live_step (ex_env 0)) ?s"
    by (rule reach_init) (auto simp: live_init_def run_init_def ex_run_def intro!: exI ex_tab0_new)
  moreover have "live_step (ex_env 0) ?s ex_closing"
    using live_step.loop[of "ex_env 0" ?s, OF run_step.close_req] by (simp add: ex_closing_def ex_run_def)
  ultimately show ?thesis by (rule reach_step)
qed

theorem close_returns_witness:
  "remaining ex_closing = 7 \<and> (\<exists>t. (live_step (ex_env 0))\<^sup>*\<^sup>* ex_closing t \<and> r_loop (l_run t) = Closed)"
  using close_returns[OF ex_closing_reach]
  by (simp add: ex_closing_def ex_run_def remaining_defs doRefresh_def ex_tab0_def)

end
