(* ===== verification/Metrics.thy ===== *)
theory Metrics
  imports Prelude
begin

text \<open>
  The metrics factory (\<open>service/metrics/factory.go\<close>): every constructor records a description of the metric, with its full
  name, unless metrics are disabled. The Prometheus objects themselves are outside the repository; a constructor answers
  whether it made a real metric or a no-op.
\<close>

section \<open>Operations\<close>

record Opts =
  Namespace :: string
  Subsystem :: string
  opt_Name :: string
  Help :: string

record MetricDescription =
  md_Type :: string
  md_Name :: string
  md_Help :: string
  md_Labels :: "string list"

datatype metric = Noop | Registered

definition fullName :: "string \<Rightarrow> string \<Rightarrow> string \<Rightarrow> string" where
  "fullName ns subsystem name =
     (let out = ns; out = (if subsystem \<noteq> [] then out @ ''_'' @ subsystem else out) in out @ ''_'' @ name)"

type_synonym factory = "MetricDescription list"

definition describe :: "string \<Rightarrow> Opts \<Rightarrow> string list \<Rightarrow> MetricDescription" where
  "describe ty opts labels =
     \<lparr>md_Type = ty, md_Name = fullName (Namespace opts) (Subsystem opts) (opt_Name opts), md_Help = Help opts, md_Labels = labels\<rparr>"

text \<open>Each constructor reads the switch \<open>Enabled()\<close> first and appends under the mutex.\<close>

definition NewCounter :: "bool \<Rightarrow> Opts \<Rightarrow> factory \<Rightarrow> metric \<times> factory" where
  "NewCounter enabled opts d = (if \<not> enabled then (Noop, d) else (Registered, d @ [describe ''counter'' opts []]))"

definition NewCounterVec :: "bool \<Rightarrow> Opts \<Rightarrow> string list \<Rightarrow> factory \<Rightarrow> metric \<times> factory" where
  "NewCounterVec enabled opts labels d = (if \<not> enabled then (Noop, d) else (Registered, d @ [describe ''counter'' opts labels]))"

definition NewGauge :: "bool \<Rightarrow> Opts \<Rightarrow> factory \<Rightarrow> metric \<times> factory" where
  "NewGauge enabled opts d = (if \<not> enabled then (Noop, d) else (Registered, d @ [describe ''gauge'' opts []]))"

definition NewGaugeVec :: "bool \<Rightarrow> Opts \<Rightarrow> string list \<Rightarrow> factory \<Rightarrow> metric \<times> factory" where
  "NewGaugeVec enabled opts labels d = (if \<not> enabled then (Noop, d) else (Registered, d @ [describe ''gauge'' opts labels]))"

definition NewHistogram :: "bool \<Rightarrow> Opts \<Rightarrow> factory \<Rightarrow> metric \<times> factory" where
  "NewHistogram enabled opts d = (if \<not> enabled then (Noop, d) else (Registered, d @ [describe ''histogram'' opts []]))"

definition NewHistogramVec :: "bool \<Rightarrow> Opts \<Rightarrow> string list \<Rightarrow> factory \<Rightarrow> metric \<times> factory" where
  "NewHistogramVec enabled opts labels d = (if \<not> enabled then (Noop, d) else (Registered, d @ [describe ''histogram'' opts labels]))"

definition NewSummary :: "bool \<Rightarrow> Opts \<Rightarrow> factory \<Rightarrow> metric \<times> factory" where
  "NewSummary enabled opts d = (if \<not> enabled then (Noop, d) else (Registered, d @ [describe ''summary'' opts []]))"

definition NewSummaryVec :: "bool \<Rightarrow> Opts \<Rightarrow> string list \<Rightarrow> factory \<Rightarrow> metric \<times> factory" where
  "NewSummaryVec enabled opts labels d = (if \<not> enabled then (Noop, d) else (Registered, d @ [describe ''summary'' opts labels]))"

text \<open>\<open>Document\<close>: \<open>copy\<close> into a fresh slice of the same length.\<close>

definition zero_description :: MetricDescription where
  "zero_description = \<lparr>md_Type = [], md_Name = [], md_Help = [], md_Labels = []\<rparr>"

definition Document :: "factory \<Rightarrow> MetricDescription list" where
  "Document d = go_copy (replicate (length d) zero_description) d"

section \<open>The document lists what was registered\<close>

text \<open>The contract of a constructor: it appends one description exactly when it returns a real metric.\<close>

locale metric_constructor =
  fixes make :: "bool \<Rightarrow> factory \<Rightarrow> metric \<times> factory" and descr :: MetricDescription
  assumes make_on: "make True d = (Registered, d @ [descr])"
    and make_off: "make False d = (Noop, d)"
begin

lemma Document_make: "Document (snd (make enabled d)) = Document d @ (if fst (make enabled d) = Registered then [descr] else [])"
  by (cases enabled) (simp_all add: make_on make_off Document_def go_copy_def)

end

interpretation counter: metric_constructor "\<lambda>e. NewCounter e opts" "describe ''counter'' opts []" for opts
  by unfold_locales (simp_all add: NewCounter_def)

interpretation counter_vec: metric_constructor "\<lambda>e. NewCounterVec e opts labels" "describe ''counter'' opts labels" for opts labels
  by unfold_locales (simp_all add: NewCounterVec_def)

interpretation gauge: metric_constructor "\<lambda>e. NewGauge e opts" "describe ''gauge'' opts []" for opts
  by unfold_locales (simp_all add: NewGauge_def)

interpretation gauge_vec: metric_constructor "\<lambda>e. NewGaugeVec e opts labels" "describe ''gauge'' opts labels" for opts labels
  by unfold_locales (simp_all add: NewGaugeVec_def)

interpretation histogram: metric_constructor "\<lambda>e. NewHistogram e opts" "describe ''histogram'' opts []" for opts
  by unfold_locales (simp_all add: NewHistogram_def)

interpretation histogram_vec: metric_constructor "\<lambda>e. NewHistogramVec e opts labels" "describe ''histogram'' opts labels" for opts labels
  by unfold_locales (simp_all add: NewHistogramVec_def)

interpretation summary: metric_constructor "\<lambda>e. NewSummary e opts" "describe ''summary'' opts []" for opts
  by unfold_locales (simp_all add: NewSummary_def)

interpretation summary_vec: metric_constructor "\<lambda>e. NewSummaryVec e opts labels" "describe ''summary'' opts labels" for opts labels
  by unfold_locales (simp_all add: NewSummaryVec_def)

text \<open>Different metrics can get one full name: the separator may occur in the parts.\<close>

lemma fullName_collision: "fullName ''a'' ''b'' ''c'' = fullName ''a'' [] ''b_c''"
  by (simp add: fullName_def)

end
