(* ===== verification/Recorders.thy ===== *)
theory Recorders
  imports Metrics "HOL-Library.Monad_Syntax" "HOL-Library.Sublist"
begin

text \<open>
  The recorders over the metrics factory: the metric types (\<open>service/metrics/types.go\<close>), the switch
  (\<open>service/metrics/metrics.go\<close>) and the recorders of the crawler, the runner, the broker and the scanner. The state holds the
  switch, the factory and what Prometheus keeps for each series. Registering a name twice panics in Prometheus (\<open>promauto\<close>),
  which is \<open>None\<close>. A float is a fraction of two integers.
\<close>

section \<open>Metric types\<close>

type_synonym series = "string \<times> string list"

record mstate =
  ms_enabled :: bool
  ms_factory :: factory
  ms_count :: "series \<Rightarrow> int"
  ms_obs :: "series \<Rightarrow> (int \<times> int) list"

definition metrics_init :: mstate where
  "metrics_init = \<lparr>ms_enabled = False, ms_factory = [], ms_count = (\<lambda>_. 0), ms_obs = (\<lambda>_. [])\<rparr>"

definition Enable :: "mstate \<Rightarrow> mstate" where
  "Enable ms = ms\<lparr>ms_enabled := True\<rparr>"

text \<open>A metric, or a vector of metrics with its label names: real, or the no-op type.\<close>

datatype handle = NoopMetric | Series series

datatype vec = NoopVec | SeriesVec string "string list"

definition WithLabelValues :: "vec \<Rightarrow> string list \<Rightarrow> handle option" where
  "WithLabelValues v lvls =
     (case v of NoopVec \<Rightarrow> Some NoopMetric
      | SeriesVec name labels \<Rightarrow> if length lvls = length labels then Some (Series (name, lvls)) else None)"

definition counter_Add :: "int \<Rightarrow> handle \<Rightarrow> mstate \<Rightarrow> mstate" where
  "counter_Add x h ms = (case h of NoopMetric \<Rightarrow> ms | Series s \<Rightarrow> ms\<lparr>ms_count := (ms_count ms)(s := ms_count ms s + x)\<rparr>)"

definition counter_Inc :: "handle \<Rightarrow> mstate \<Rightarrow> mstate" where
  "counter_Inc = counter_Add 1"

definition gauge_Set :: "int \<Rightarrow> handle \<Rightarrow> mstate \<Rightarrow> mstate" where
  "gauge_Set x h ms = (case h of NoopMetric \<Rightarrow> ms | Series s \<Rightarrow> ms\<lparr>ms_count := (ms_count ms)(s := x)\<rparr>)"

definition gauge_Sub :: "int \<Rightarrow> handle \<Rightarrow> mstate \<Rightarrow> mstate" where
  "gauge_Sub x = counter_Add (- x)"

definition Observe :: "int \<times> int \<Rightarrow> handle \<Rightarrow> mstate \<Rightarrow> mstate" where
  "Observe x h ms = (case h of NoopMetric \<Rightarrow> ms | Series s \<Rightarrow> ms\<lparr>ms_obs := (ms_obs ms)(s := ms_obs ms s @ [x])\<rparr>)"

text \<open>The constructors of the factory on this state.\<close>

definition opts_name :: "Opts \<Rightarrow> string" where
  "opts_name opts = fullName (Namespace opts) (Subsystem opts) (opt_Name opts)"

definition make_metric :: "(bool \<Rightarrow> Opts \<Rightarrow> factory \<Rightarrow> metric \<times> factory) \<Rightarrow> Opts \<Rightarrow> mstate \<Rightarrow> (handle \<times> mstate) option" where
  "make_metric mk opts ms =
     (if ms_enabled ms \<and> opts_name opts \<in> md_Name ` set (ms_factory ms) then None
      else case mk (ms_enabled ms) opts (ms_factory ms) of
        (Noop, d) \<Rightarrow> Some (NoopMetric, ms\<lparr>ms_factory := d\<rparr>)
      | (Registered, d) \<Rightarrow> Some (Series (opts_name opts, []), ms\<lparr>ms_factory := d\<rparr>))"

definition make_vec :: "(bool \<Rightarrow> Opts \<Rightarrow> string list \<Rightarrow> factory \<Rightarrow> metric \<times> factory) \<Rightarrow> Opts \<Rightarrow> string list \<Rightarrow> mstate \<Rightarrow>
    (vec \<times> mstate) option" where
  "make_vec mk opts labels ms =
     (if ms_enabled ms \<and> opts_name opts \<in> md_Name ` set (ms_factory ms) then None
      else case mk (ms_enabled ms) opts labels (ms_factory ms) of
        (Noop, d) \<Rightarrow> Some (NoopVec, ms\<lparr>ms_factory := d\<rparr>)
      | (Registered, d) \<Rightarrow> Some (SeriesVec (opts_name opts) labels, ms\<lparr>ms_factory := d\<rparr>))"

definition mk_opts :: "string \<Rightarrow> string \<Rightarrow> string \<Rightarrow> string \<Rightarrow> Opts" where
  "mk_opts ns sub name help = \<lparr>Namespace = ns, Subsystem = sub, opt_Name = name, Help = help\<rparr>"

section \<open>The runner\<close>

text \<open>The variables of the package, made when it is initialised.\<close>

record runner_metrics =
  rm_counter :: vec
  rm_recv :: vec
  rm_op :: vec
  rm_write :: vec

definition runner_init :: "mstate \<Rightarrow> (runner_metrics \<times> mstate) option" where
  "runner_init ms0 = do {
     (c, ms1) \<leftarrow> make_vec NewCounterVec (mk_opts ''workers'' ''runner'' ''loops'' ''amount of iterations done by workers'') [''runnerType''] ms0;
     (r, ms2) \<leftarrow> make_vec NewSummaryVec (mk_opts ''workers'' ''runner'' ''recv_time'' ''recv time stats across workers'') [''runnerType''] ms1;
     (p, ms3) \<leftarrow> make_vec NewSummaryVec (mk_opts ''workers'' ''runner'' ''op_time'' ''op time stats across workers'') [''runnerType''] ms2;
     (w, ms4) \<leftarrow> make_vec NewSummaryVec (mk_opts ''workers'' ''runner'' ''write_time'' ''write time stats across workers'') [''runnerType''] ms3;
     Some (\<lparr>rm_counter = c, rm_recv = r, rm_op = p, rm_write = w\<rparr>, ms4)
   }"

record runnerRecorder =
  rr_c :: handle
  rr_recv :: handle
  rr_op :: handle
  rr_write :: handle

definition runner_newRecorder :: "runner_metrics \<Rightarrow> string \<Rightarrow> bool \<Rightarrow> runnerRecorder option" where
  "runner_newRecorder rm runner_id w = do {
     c \<leftarrow> WithLabelValues (rm_counter rm) [runner_id];
     r \<leftarrow> WithLabelValues (rm_recv rm) [runner_id];
     p \<leftarrow> WithLabelValues (rm_op rm) [runner_id];
     t \<leftarrow> (if w then WithLabelValues (rm_write rm) [runner_id] else Some NoopMetric);
     Some \<lparr>rr_c = c, rr_recv = r, rr_op = p, rr_write = t\<rparr>
   }"

definition noop_runnerRecorder :: runnerRecorder where
  "noop_runnerRecorder = \<lparr>rr_c = NoopMetric, rr_recv = NoopMetric, rr_op = NoopMetric, rr_write = NoopMetric\<rparr>"

text \<open>\<open>newRunner\<close> reads the switch, \<open>Start\<close> chooses the recorder.\<close>

definition start_recorder :: "bool \<Rightarrow> runner_metrics \<Rightarrow> string \<Rightarrow> bool \<Rightarrow> runnerRecorder option" where
  "start_recorder metered rm ident w = (if metered then runner_newRecorder rm ident w else Some noop_runnerRecorder)"

datatype runner_call = RecordLoop | RecordRecvTime int | RecordOpTime int | RecordWriteTime int

definition runner_record :: "runnerRecorder \<Rightarrow> runner_call \<Rightarrow> mstate \<Rightarrow> mstate" where
  "runner_record r call =
     (case call of RecordLoop \<Rightarrow> counter_Inc (rr_c r) | RecordRecvTime d \<Rightarrow> Observe (d, 1) (rr_recv r)
      | RecordOpTime d \<Rightarrow> Observe (d, 1) (rr_op r) | RecordWriteTime d \<Rightarrow> Observe (d, 1) (rr_write r))"

text \<open>What a worker records for one item of \<open>workLoop\<close>: how long it waited, the work, the push when the work succeeded, and the
  loop. The durations of the three are arguments.\<close>

definition item_calls :: "bool \<Rightarrow> bool \<Rightarrow> int \<Rightarrow> int \<Rightarrow> int \<Rightarrow> runner_call list" where
  "item_calls w ok waited worked pushed =
     [RecordRecvTime waited, RecordOpTime worked] @ (if w \<and> ok then [RecordOpTime pushed] else []) @ [RecordLoop]"

section \<open>The crawler\<close>

record crawlRecorder =
  cr_targeted :: handle
  cr_useless :: handle
  cr_lookup :: handle
  cr_recv :: handle

definition crawl_newRecorder :: "mstate \<Rightarrow> (crawlRecorder \<times> mstate) option" where
  "crawl_newRecorder ms0 =
     (if \<not> ms_enabled ms0
      then Some (\<lparr>cr_targeted = NoopMetric, cr_useless = NoopMetric, cr_lookup = NoopMetric, cr_recv = NoopMetric\<rparr>, ms0)
      else do {
        (t, ms1) \<leftarrow> make_metric NewCounter (mk_opts ''crawl'' ''crawler'' ''targeted_nodes'' ''amount of nodes meeting filter requirements'') ms0;
        (u, ms2) \<leftarrow> make_metric NewCounter (mk_opts ''crawl'' ''crawler'' ''useless_nodes'' ''amount of nodes not meeting filter requirements'') ms1;
        (r, ms3) \<leftarrow> make_metric NewCounter (mk_opts ''crawl'' ''crawler'' ''recv_nodes'' ''amount of received nodes'') ms2;
        (l, ms4) \<leftarrow> make_metric NewCounter (mk_opts ''crawl'' ''crawler'' ''lookup_iterations'' ''amount of lookup done of accepeted nodes'') ms3;
        Some (\<lparr>cr_targeted = t, cr_useless = u, cr_lookup = l, cr_recv = r\<rparr>, ms4)
      })"

datatype crawl_call = RecordTargetedNode | RecordUselessNode | RecordRecvNode | RecordLookup

definition crawl_record :: "crawlRecorder \<Rightarrow> crawl_call \<Rightarrow> mstate \<Rightarrow> mstate" where
  "crawl_record r call =
     (case call of RecordTargetedNode \<Rightarrow> counter_Inc (cr_targeted r) | RecordUselessNode \<Rightarrow> counter_Inc (cr_useless r)
      | RecordRecvNode \<Rightarrow> counter_Inc (cr_recv r) | RecordLookup \<Rightarrow> counter_Inc (cr_lookup r))"

section \<open>The broker and the scanner\<close>

record brokerRecorder =
  br_egressMeter :: handle
  br_egressCount :: handle
  br_ingressMeter :: handle
  br_ingressCount :: handle

definition broker_NewRecorder :: "mstate \<Rightarrow> (brokerRecorder \<times> mstate) option" where
  "broker_NewRecorder ms0 = do {
     (em, ms1) \<leftarrow> make_metric NewCounter (mk_opts ''broker'' [] ''egress_amount'' ''amount of data sent through broker'') ms0;
     (ec, ms2) \<leftarrow> make_metric NewCounter (mk_opts ''broker'' [] ''egress_count'' ''how many times data has been sent through broker'') ms1;
     (im, ms3) \<leftarrow> make_metric NewCounter (mk_opts ''broker'' [] ''ingress_amount'' ''amount of data recv through broker'') ms2;
     (ic, ms4) \<leftarrow> make_metric NewCounter (mk_opts ''broker'' [] ''ingress_count'' ''how many times data has been recv through broker'') ms3;
     Some (\<lparr>br_egressMeter = em, br_egressCount = ec, br_ingressMeter = im, br_ingressCount = ic\<rparr>, ms4)
   }"

definition RecordEgress :: "nat \<Rightarrow> brokerRecorder \<Rightarrow> mstate \<Rightarrow> mstate" where
  "RecordEgress n r = counter_Inc (br_egressCount r) \<circ> counter_Add (int n) (br_egressMeter r)"

definition RecordIngress :: "nat \<Rightarrow> brokerRecorder \<Rightarrow> mstate \<Rightarrow> mstate" where
  "RecordIngress n r = counter_Inc (br_ingressCount r) \<circ> counter_Add (int n) (br_ingressMeter r)"

record scanRecorder =
  sr_scanMeter :: handle
  sr_scanCount :: handle
  sr_portScan :: vec

definition scan_newRecorder :: "mstate \<Rightarrow> (scanRecorder \<times> mstate) option" where
  "scan_newRecorder ms0 = do {
     (m, ms1) \<leftarrow> make_metric NewSummary (mk_opts ''scanner'' [] ''scan_duration'' ''amount elapsed to make whole scan'') ms0;
     (c, ms2) \<leftarrow> make_metric NewCounter (mk_opts ''scanner'' [] ''scan_count'' ''amount of scans done'') ms1;
     (p, ms3) \<leftarrow> make_vec NewCounterVec (mk_opts ''scanner'' [] ''port_count'' ''amount of ports scanned'') [''open''] ms2;
     Some (\<lparr>sr_scanMeter = m, sr_scanCount = c, sr_portScan = p\<rparr>, ms3)
   }"

definition RecordScan :: "int \<Rightarrow> scanRecorder \<Rightarrow> mstate \<Rightarrow> mstate" where
  "RecordScan duration r = counter_Inc (sr_scanCount r) \<circ> Observe (duration, Second) (sr_scanMeter r)"

definition FormatBool :: "bool \<Rightarrow> string" where
  "FormatBool b = (if b then ''true'' else ''false'')"

definition RecordPortScan :: "bool \<Rightarrow> scanRecorder \<Rightarrow> mstate \<Rightarrow> mstate option" where
  "RecordPortScan isOpen r ms = do {
     h \<leftarrow> WithLabelValues (sr_portScan r) [FormatBool isOpen];
     Some (counter_Inc h ms)
   }"

section \<open>The recorders of the programs\<close>

text \<open>The recorder of the packet handler (\<open>discovery/recorder.go\<close>) registers two vectors.\<close>

definition disc_newRecorder :: "mstate \<Rightarrow> ((vec \<times> vec) \<times> mstate) option" where
  "disc_newRecorder ms0 =
     (if \<not> ms_enabled ms0 then Some ((NoopVec, NoopVec), ms0)
      else do {
        (h, ms1) \<leftarrow> make_vec NewHistogramVec (mk_opts ''discovery'' ''v4'' ''rpc_duration'' ''histogram of executed rpc methods'') [''method'', ''response_code'', ''external''] ms0;
        (c, ms2) \<leftarrow> make_vec NewCounterVec (mk_opts ''discovery'' ''v4'' ''rpc_counter'' ''histogram of executed rpc methods'') [''method'', ''response_code'', ''external''] ms1;
        Some ((h, c), ms2)
      })"

text \<open>The crawler: the packages are initialised, \<open>NewCrawlApp\<close> enables the metrics and makes the broker's and the packet
  handler's recorder, \<open>NewCrawler\<close> its own. The scanner: \<open>Setup\<close>, then \<open>NewScannerController\<close>.\<close>

definition crawler_recorders :: "bool \<Rightarrow> bool \<Rightarrow> (runner_metrics \<times> brokerRecorder option \<times> crawlRecorder \<times> mstate) option" where
  "crawler_recorders metered broker = do {
     (rm, ms1) \<leftarrow> runner_init metrics_init;
     let ms2 = (if metered then Enable ms1 else ms1);
     (br, ms3) \<leftarrow> (if broker then map_option (map_prod Some id) (broker_NewRecorder ms2) else Some (None, ms2));
     (_, ms4) \<leftarrow> disc_newRecorder ms3;
     (cr, ms5) \<leftarrow> crawl_newRecorder ms4;
     Some (rm, br, cr, ms5)
   }"

definition scanner_recorders :: "bool \<Rightarrow> (brokerRecorder \<times> scanRecorder \<times> mstate) option" where
  "scanner_recorders metered = do {
     let ms1 = (if metered then Enable metrics_init else metrics_init);
     (br, ms2) \<leftarrow> broker_NewRecorder ms1;
     (sr, ms3) \<leftarrow> scan_newRecorder ms2;
     Some (br, sr, ms3)
   }"


section \<open>What the crawler's metrics count\<close>

lemmas make_defs = make_metric_def make_vec_def opts_name_def mk_opts_def fullName_def describe_def
  NewCounter_def NewCounterVec_def NewSummary_def NewSummaryVec_def NewHistogramVec_def

lemma runner_init_start: "runner_init metrics_init = Some (\<lparr>rm_counter = NoopVec, rm_recv = NoopVec, rm_op = NoopVec, rm_write = NoopVec\<rparr>, metrics_init)"
  by (simp add: runner_init_def metrics_init_def make_defs)

lemma Enable_init: "Enable metrics_init = \<lparr>ms_enabled = True, ms_factory = [], ms_count = (\<lambda>_. 0), ms_obs = (\<lambda>_. [])\<rparr>"
  by (simp add: Enable_def metrics_init_def)

lemma crawl_record_count:
  assumes "cr = \<lparr>cr_targeted = Series t, cr_useless = Series u, cr_lookup = Series l, cr_recv = Series r\<rparr>" "distinct [t, u, l, r]"
  shows "ms_count (fold (crawl_record cr) calls ms) t = ms_count ms t + int (count_list calls RecordTargetedNode)
    \<and> ms_count (fold (crawl_record cr) calls ms) u = ms_count ms u + int (count_list calls RecordUselessNode)
    \<and> ms_count (fold (crawl_record cr) calls ms) l = ms_count ms l + int (count_list calls RecordLookup)
    \<and> ms_count (fold (crawl_record cr) calls ms) r = ms_count ms r + int (count_list calls RecordRecvNode)"
proof (induction calls arbitrary: ms)
  case (Cons c calls)
  show ?case using Cons[of "crawl_record cr c ms"] assms
    by (cases c) (auto simp: crawl_record_def counter_Inc_def counter_Add_def)
qed simp

lemma crawler_recorders_on:
  "\<exists>br cr ms. crawler_recorders True b = Some (\<lparr>rm_counter = NoopVec, rm_recv = NoopVec, rm_op = NoopVec, rm_write = NoopVec\<rparr>, br, cr, ms)
     \<and> cr = \<lparr>cr_targeted = Series (''crawl_crawler_targeted_nodes'', []), cr_useless = Series (''crawl_crawler_useless_nodes'', []),
             cr_lookup = Series (''crawl_crawler_lookup_iterations'', []), cr_recv = Series (''crawl_crawler_recv_nodes'', [])\<rparr>
     \<and> ms_count ms = (\<lambda>_. 0) \<and> md_Name ` set (Document (ms_factory ms)) = set (
       (if b then [''broker_egress_amount'', ''broker_egress_count'', ''broker_ingress_amount'', ''broker_ingress_count''] else [])
       @ [''discovery_v4_rpc_duration'', ''discovery_v4_rpc_counter'', ''crawl_crawler_targeted_nodes'', ''crawl_crawler_useless_nodes'',
          ''crawl_crawler_recv_nodes'', ''crawl_crawler_lookup_iterations''])"
  by (cases b) (simp_all add: crawler_recorders_def runner_init_start Enable_init broker_NewRecorder_def disc_newRecorder_def
      crawl_newRecorder_def make_defs Document_def go_copy_def Let_def)

text \<open>C40: The metrics of a crawler started with metrics: making the recorders never panics; the counters of the crawler count
  the calls made; but no worker of a runner ever records anything, since the runner's metrics are made when its package is
  initialised, before the metrics are enabled: they are missing from the document too.\<close>

theorem crawler_metrics:
  "\<exists>rm br cr ms. crawler_recorders True b = Some (rm, br, cr, ms)
     \<and> (\<forall>ident w. \<exists>r. start_recorder True rm ident w = Some r \<and> (\<forall>call. runner_record r call = id))
     \<and> list_all (\<lambda>d. \<not> prefix ''workers_runner'' (md_Name d)) (Document (ms_factory ms))
     \<and> (\<forall>calls. let m = fold (crawl_record cr) calls ms in
          ms_count m (''crawl_crawler_targeted_nodes'', []) = int (count_list calls RecordTargetedNode)
          \<and> ms_count m (''crawl_crawler_useless_nodes'', []) = int (count_list calls RecordUselessNode)
          \<and> ms_count m (''crawl_crawler_lookup_iterations'', []) = int (count_list calls RecordLookup)
          \<and> ms_count m (''crawl_crawler_recv_nodes'', []) = int (count_list calls RecordRecvNode))"
proof -
  obtain br cr ms where r: "crawler_recorders True b = Some (\<lparr>rm_counter = NoopVec, rm_recv = NoopVec, rm_op = NoopVec, rm_write = NoopVec\<rparr>, br, cr, ms)"
    and cr: "cr = \<lparr>cr_targeted = Series (''crawl_crawler_targeted_nodes'', []), cr_useless = Series (''crawl_crawler_useless_nodes'', []),
             cr_lookup = Series (''crawl_crawler_lookup_iterations'', []), cr_recv = Series (''crawl_crawler_recv_nodes'', [])\<rparr>"
    and z: "ms_count ms = (\<lambda>_. 0)" and d: "md_Name ` set (Document (ms_factory ms)) = set (
       (if b then [''broker_egress_amount'', ''broker_egress_count'', ''broker_ingress_amount'', ''broker_ingress_count''] else [])
       @ [''discovery_v4_rpc_duration'', ''discovery_v4_rpc_counter'', ''crawl_crawler_targeted_nodes'', ''crawl_crawler_useless_nodes'',
          ''crawl_crawler_recv_nodes'', ''crawl_crawler_lookup_iterations''])"
    using crawler_recorders_on[of b] by blast
  have "\<exists>r. start_recorder True \<lparr>rm_counter = NoopVec, rm_recv = NoopVec, rm_op = NoopVec, rm_write = NoopVec\<rparr> ident w = Some r
      \<and> (\<forall>call. runner_record r call = id)" for ident w
    by (auto simp: start_recorder_def runner_newRecorder_def WithLabelValues_def runner_record_def counter_Inc_def counter_Add_def Observe_def
        fun_eq_iff split: runner_call.splits)
  moreover have "\<forall>n \<in> md_Name ` set (Document (ms_factory ms)). \<not> prefix ''workers_runner'' n" unfolding d by (cases b) simp_all
  moreover note crawl_record_count[OF cr, of _ ms]
  ultimately show ?thesis using r z unfolding Let_def list_all_iff by simp
qed


text \<open>The scanner's recorders: nothing panics, and the broker's meters are the sums and numbers of the message sizes.\<close>

lemma scanner_recorders_ok:
  "\<exists>br sr ms. scanner_recorders m = Some (br, sr, ms) \<and> (\<forall>isOpen s. RecordPortScan isOpen sr s \<noteq> None)"
proof (cases m)
  case True
  then show ?thesis by (simp add: scanner_recorders_def Enable_init broker_NewRecorder_def scan_newRecorder_def
      RecordPortScan_def WithLabelValues_def make_defs Let_def)
next
  case False
  then show ?thesis by (simp add: scanner_recorders_def metrics_init_def broker_NewRecorder_def scan_newRecorder_def
      RecordPortScan_def WithLabelValues_def make_defs Let_def)
qed

lemma RecordEgress_totals:
  assumes "br_egressMeter r = Series a" "br_egressCount r = Series b" "a \<noteq> b"
  shows "ms_count (fold (\<lambda>n. RecordEgress n r) ns ms) a = ms_count ms a + int (sum_list ns)
    \<and> ms_count (fold (\<lambda>n. RecordEgress n r) ns ms) b = ms_count ms b + int (length ns)"
proof (induction ns arbitrary: ms)
  case (Cons n ns)
  then show ?case using assms by (simp add: RecordEgress_def counter_Inc_def counter_Add_def)
qed simp

end
