(* ===== verification/Pubkey.thy ===== *)
theory Pubkey
  imports Prelude
begin

text \<open>
  \<open>crawler/net/discovery/common/encPubkey.go\<close>: public keys in the 64 bytes of the discovery protocol. \<open>ReadBits\<close> (go-ethereum),
  the curve test and the hash are arguments; \<open>SetBytes\<close> of \<open>math/big\<close> reads big-endian bytes.
\<close>

section \<open>Encoding\<close>

record curve_key =
  ck_X :: nat
  ck_Y :: nat

type_synonym EncPubkey = "u8 list"

text \<open>\<open>big.Int.SetBytes\<close>.\<close>

definition SetBytes :: "u8 list \<Rightarrow> nat" where
  "SetBytes bs = foldl (\<lambda>acc b. acc * 256 + unat b) 0 bs"

definition EncodePubkey :: "(nat \<Rightarrow> nat \<Rightarrow> u8 list) \<Rightarrow> curve_key \<Rightarrow> EncPubkey" where
  "EncodePubkey ReadBits key = ReadBits (ck_X key) (64 div 2) @ ReadBits (ck_Y key) (64 - 64 div 2)"

definition DecodePubkey :: "(nat \<Rightarrow> nat \<Rightarrow> bool) \<Rightarrow> u8 list \<Rightarrow> string + curve_key" where
  "DecodePubkey IsOnCurve e =
     (if length e \<noteq> 64 then Inl ''wrong size public key data''
      else let half = length e div 2; p = \<lparr>ck_X = SetBytes (take half e), ck_Y = SetBytes (drop half e)\<rparr> in
        if \<not> IsOnCurve (ck_X p) (ck_Y p) then Inl ''invalid curve point'' else Inr p)"

definition EncPubkey_Id :: "(u8 list \<Rightarrow> node_id) \<Rightarrow> EncPubkey \<Rightarrow> node_id" where
  "EncPubkey_Id Keccak256Hash e = Keccak256Hash e"

text \<open>What is documented of \<open>ReadBits\<close>: it fills the buffer with the big-endian bytes of a number that has room in it.\<close>

definition read_bits_ok :: "(nat \<Rightarrow> nat \<Rightarrow> u8 list) \<Rightarrow> bool" where
  "read_bits_ok rb \<longleftrightarrow> (\<forall>x n. length (rb x n) = n \<and> (x < 256 ^ n \<longrightarrow> SetBytes (rb x n) = x))"

section \<open>Big-endian numbers\<close>

lemma SetBytes_snoc [simp]: "SetBytes (bs @ [b]) = SetBytes bs * 256 + unat b"
  by (simp add: SetBytes_def)

lemma unat_u8: "unat (b :: u8) < 256"
  using unsigned_less[of b] by simp

lemma SetBytes_bound: "SetBytes bs < 256 ^ length bs"
proof (induction bs rule: rev_induct)
  case (snoc b bs)
  have "SetBytes bs * 256 + unat b < (SetBytes bs + 1) * 256" using unat_u8[of b] by simp
  also have "\<dots> \<le> 256 ^ length bs * 256" using snoc by (intro mult_right_mono) simp_all
  finally show ?case by simp
qed (simp add: SetBytes_def)

lemma SetBytes_inj: "length as = length bs \<Longrightarrow> SetBytes as = SetBytes bs \<Longrightarrow> as = bs"
proof (induction as arbitrary: bs rule: rev_induct)
  case (snoc a as)
  obtain cs c where bs: "bs = cs @ [c]" using snoc.prems(1) by (cases bs rule: rev_cases) auto
  have eq: "SetBytes as * 256 + unat a = SetBytes cs * 256 + unat c" using snoc.prems(2) by (simp add: bs)
  then have "(SetBytes as * 256 + unat a) mod 256 = (SetBytes cs * 256 + unat c) mod 256" by simp
  then have "unat a = unat c" using unat_u8[of a] unat_u8[of c] by simp
  with eq have "SetBytes as = SetBytes cs" "a = c" by (simp_all add: word_unat_eq_iff)
  with snoc bs show ?case by simp
qed simp

section \<open>Property\<close>

text \<open>C35: Keys survive the encoding in both directions: a key on the curve whose coordinates have 256 bits is decoded from its
  encoding, which has 64 bytes; and whatever is accepted as a key is exactly the encoding of the key returned, which lies on
  the curve.\<close>

theorem pubkey_roundtrip:
  assumes "read_bits_ok rb"
  shows "(ck_X k < 2 ^ 256 \<and> ck_Y k < 2 ^ 256 \<and> on (ck_X k) (ck_Y k) \<longrightarrow>
      length (EncodePubkey rb k) = 64 \<and> DecodePubkey on (EncodePubkey rb k) = Inr k)
    \<and> (DecodePubkey on e = Inr k \<longrightarrow> EncodePubkey rb k = e \<and> on (ck_X k) (ck_Y k) \<and> ck_X k < 2 ^ 256 \<and> ck_Y k < 2 ^ 256)"
proof (intro conjI impI)
  have p: "(256 :: nat) ^ 32 = 2 ^ 256" by simp
  have len: "length (rb x n) = n" and val: "x < 256 ^ n \<Longrightarrow> SetBytes (rb x n) = x" for x n
    using assms by (simp_all add: read_bits_ok_def)
  show "length (EncodePubkey rb k) = 64" by (simp add: EncodePubkey_def len)
  assume "ck_X k < 2 ^ 256 \<and> ck_Y k < 2 ^ 256 \<and> on (ck_X k) (ck_Y k)"
  then show "DecodePubkey on (EncodePubkey rb k) = Inr k"
    using val[of "ck_X k" 32] val[of "ck_Y k" 32] by (simp add: DecodePubkey_def EncodePubkey_def len Let_def p del: power_numeral)
next
  have p: "(256 :: nat) ^ 32 = 2 ^ 256" by simp
  assume d: "DecodePubkey on e = Inr k"
  then have e: "length e = 64" and k: "k = \<lparr>ck_X = SetBytes (take 32 e), ck_Y = SetBytes (drop 32 e)\<rparr>" and "on (ck_X k) (ck_Y k)"
    by (auto simp: DecodePubkey_def Let_def split: if_splits)
  show "on (ck_X k) (ck_Y k)" by fact
  have b: "SetBytes bs < 256 ^ 32" if "length bs = 32" for bs using SetBytes_bound[of bs] that by simp
  have "rb (SetBytes bs) 32 = bs" if "length bs = 32" for bs
    using b[OF that] assms that by (intro SetBytes_inj) (simp_all add: read_bits_ok_def del: power_numeral)
  then show "EncodePubkey rb k = e" using e k by (simp add: EncodePubkey_def)
  show "ck_X k < 2 ^ 256" "ck_Y k < 2 ^ 256" using b[of "take 32 e"] b[of "drop 32 e"] e k p by simp_all
qed

text \<open>A function that meets the contract.\<close>

primrec ex_bits :: "nat \<Rightarrow> nat \<Rightarrow> u8 list" where
  "ex_bits_0": "ex_bits 0 x = []"
| "ex_bits_Suc": "ex_bits (Suc n) x = ex_bits n (x div 256) @ [of_nat x]"

lemma ex_bits_ok: "read_bits_ok (\<lambda>x n. ex_bits n x)"
proof -
  have "length (ex_bits n x) = n \<and> (x < 256 ^ n \<longrightarrow> SetBytes (ex_bits n x) = x)" for n x
  proof (induction n arbitrary: x)
    case (Suc n)
    have "x < 256 ^ Suc n \<Longrightarrow> x div 256 < 256 ^ n" by (simp add: less_mult_imp_div_less mult.commute)
    moreover have "unat (of_nat x :: u8) = x mod 256" by (simp add: unat_of_nat)
    ultimately show ?case using Suc[of "x div 256"] by (simp add: div_mult_mod_eq)
  qed (simp add: SetBytes_def)
  then show ?thesis by (simp add: read_bits_ok_def)
qed

theorem pubkey_roundtrip_witness:
  "DecodePubkey (\<lambda>x y. y = x + 1) (EncodePubkey (\<lambda>x n. ex_bits n x) \<lparr>ck_X = 5, ck_Y = 6\<rparr>) = Inr \<lparr>ck_X = 5, ck_Y = 6\<rparr>"
  using pubkey_roundtrip[OF ex_bits_ok, of "\<lparr>ck_X = 5, ck_Y = 6\<rparr>" "\<lambda>x y. y = x + 1"] by simp

end
