(* ===== verification/Crawl.thy ===== *)
theory Crawl
  imports Nodes
begin

text \<open>
  \<open>crawler/crawler\<close>: the peer buffer, the iterators, the per-peer state, the seeker (which turns seen
  nodes into filtered records) and the crawling of peers. Peers are Go pointers shared by the buffer and
  the workers: the model keeps them in a store and passes references. Asking a peer for nodes, querying
  its handshake and requesting its record are arguments.
\<close>

section \<open>The FIFO interface\<close>

locale fifo =
  fixes empty :: 'q and enq :: "'a \<Rightarrow> 'q \<Rightarrow> 'q" and deq :: "'q \<Rightarrow> 'a option \<times> 'q" and abs :: "'q \<Rightarrow> 'a list"
  assumes abs_empty: "abs empty = []"
    and abs_enq: "abs (enq x q) = abs q @ [x]"
    and deq_Nil: "abs q = [] \<Longrightarrow> fst (deq q) = None \<and> abs (snd (deq q)) = []"
    and deq_Cons: "abs q = x # xs \<Longrightarrow> fst (deq q) = Some x \<and> abs (snd (deq q)) = xs"
begin

text \<open>Taking the first element and putting it back at the end, \<open>k\<close> times: the elements met.\<close>

fun rounds :: "nat \<Rightarrow> 'q \<Rightarrow> 'a list \<times> 'q" where
  "rounds 0 q = ([], q)"
| "rounds (Suc k) q =
     (case deq q of (None, q') \<Rightarrow> rounds k q'
      | (Some x, q') \<Rightarrow> (case rounds k (enq x q') of (xs, q'') \<Rightarrow> (x # xs, q'')))"

lemma rounds_rotate:
  assumes "abs q = xs @ ys"
  shows "fst (rounds (length xs) q) = xs \<and> abs (snd (rounds (length xs) q)) = ys @ xs"
  using assms
proof (induction xs arbitrary: q ys)
  case (Cons x xs)
  have d: "fst (deq q) = Some x" "abs (snd (deq q)) = xs @ ys" using deq_Cons[of q x "xs @ ys"] Cons.prems by simp_all
  then have "abs (enq x (snd (deq q))) = xs @ (ys @ [x])" by (simp add: abs_enq)
  from Cons.IH[OF this] d(1) show ?case by (cases "deq q") (auto split: prod.splits)
qed simp

lemma full_round: "fst (rounds (length (abs q)) q) = abs q \<and> abs (snd (rounds (length (abs q)) q)) = abs q"
  using rounds_rotate[of q "abs q" "[]"] by simp

end

section \<open>Buffer and iterators\<close>

definition Enqueue :: "'a \<Rightarrow> 'a list \<Rightarrow> 'a list" where
  "Enqueue x b = b @ [x]"

definition Dequeue :: "'a list \<Rightarrow> 'a option \<times> 'a list" where
  "Dequeue b = (if length b = 0 then (None, b) else (Some (b ! 0), drop 1 b))"

interpretation buffer: fifo "[]" Enqueue Dequeue "\<lambda>b. b"
  by unfold_locales (simp_all add: Enqueue_def Dequeue_def)

text \<open>An iterator: \<open>Push\<close> and \<open>Next\<close> select between the closed channel and the data channel; \<open>ready\<close>
  says whether the other side is there and \<open>pick\<close> what \<open>select\<close> chooses when both are.\<close>

record iterator =
  it_stopped :: bool
  it_closes :: nat

definition it_Stop :: "iterator \<Rightarrow> iterator" where
  "it_Stop i = (if it_stopped i then i else i\<lparr>it_stopped := True, it_closes := it_closes i + 1\<rparr>)"

datatype 'a transfer = Transferred 'a | Closed | Blocked

definition it_Push :: "bool \<Rightarrow> bool \<Rightarrow> 'a \<Rightarrow> iterator \<Rightarrow> 'a transfer" where
  "it_Push ready pick t i =
     (if it_stopped i \<and> (\<not> ready \<or> pick) then Closed else if ready then Transferred t else Blocked)"

definition it_Next :: "'a option \<Rightarrow> bool \<Rightarrow> iterator \<Rightarrow> 'a transfer" where
  "it_Next offered pick i =
     (case offered of
        None \<Rightarrow> if it_stopped i then Closed else Blocked
      | Some t \<Rightarrow> if it_stopped i \<and> pick then Closed else Transferred t)"

section \<open>Query counters\<close>

record QueryCounter =
  qc_duration :: int
  LastAttempt :: int
  SuccessCounter :: u32
  FailureCounter :: u32

definition CanRefresh :: "int \<Rightarrow> QueryCounter \<Rightarrow> bool \<times> QueryCounter" where
  "CanRefresh now q =
     (if now - unixMilli (LastAttempt q) < qc_duration q then (False, q)
      else (True, q\<lparr>LastAttempt := toUnix now\<rparr>))"

definition qc_Bump :: "int \<Rightarrow> bool \<Rightarrow> QueryCounter \<Rightarrow> QueryCounter" where
  "qc_Bump now failure q =
     (if failure then q\<lparr>FailureCounter := FailureCounter q + 1\<rparr>
      else q\<lparr>SuccessCounter := SuccessCounter q + 1\<rparr>)\<lparr>LastAttempt := toUnixMilli now\<rparr>"

definition newCounter :: "int \<Rightarrow> QueryCounter" where
  "newCounter d = \<lparr>qc_duration = d, LastAttempt = 0, SuccessCounter = 0, FailureCounter = 0\<rparr>"

section \<open>Peers\<close>

text \<open>\<open>pe_hooked\<close> records the calls of \<open>infoHook\<close>, which publishes the peer and stores its handshake.\<close>

record 'i Peer =
  pe_node :: Node
  pe_info :: "'i option"
  pe_peersAmount :: u32
  pe_Peers :: "node_id \<Rightarrow> enode option"
  pe_infoCounter :: QueryCounter
  pe_findCounter :: QueryCounter
  pe_fresh :: "node_id list"
  pe_hooked :: "'i list"

definition infoAttemptFrequency :: int where "infoAttemptFrequency = 10 * Minute"
definition findAttemptFrequency :: int where "findAttemptFrequency = 1 * Minute"

definition newPeer :: "Node \<Rightarrow> 'i Peer" where
  "newPeer n = \<lparr>pe_node = n, pe_info = None, pe_peersAmount = 0, pe_Peers = (\<lambda>_. None),
     pe_infoCounter = newCounter infoAttemptFrequency, pe_findCounter = newCounter findAttemptFrequency,
     pe_fresh = [], pe_hooked = []\<rparr>"

definition UpdateInfo :: "'i \<Rightarrow> 'i Peer \<Rightarrow> bool \<times> 'i Peer" where
  "UpdateInfo info p =
     (if pe_info p = Some info then (False, p)
      else (True, p\<lparr>pe_info := Some info, pe_hooked := pe_hooked p @ [info]\<rparr>))"

definition MarkPeerNode :: "enode \<Rightarrow> 'i Peer \<Rightarrow> bool \<times> 'i Peer" where
  "MarkPeerNode n p =
     (case pe_Peers p (e_ID n) of
        Some _ \<Rightarrow> (False, p)
      | None \<Rightarrow> (True, p\<lparr>pe_Peers := (pe_Peers p)(e_ID n \<mapsto> n), pe_peersAmount := pe_peersAmount p + 1,
                        pe_fresh := pe_fresh p @ [e_ID n]\<rparr>))"

definition GetPeerNode :: "node_id \<Rightarrow> 'i Peer \<Rightarrow> enode option" where
  "GetPeerNode i p = pe_Peers p i"

fun GetPeerNodes :: "node_id list \<Rightarrow> 'i Peer \<Rightarrow> enode list" where
  "GetPeerNodes [] p = []"
| "GetPeerNodes (i # is) p = (case pe_Peers p i of None \<Rightarrow> GetPeerNodes is p | Some n \<Rightarrow> n # GetPeerNodes is p)"

definition NewEntries :: "'i Peer \<Rightarrow> node_id list \<times> 'i Peer" where
  "NewEntries p =
     (if length (pe_fresh p) = 0 then ([], p)
      else (go_copy (replicate (length (pe_fresh p)) 0) (pe_fresh p), p\<lparr>pe_fresh := []\<rparr>))"

section \<open>Crawling one peer\<close>

text \<open>The loop over the nodes a peer returned: the nodes pinged, in order.\<close>

fun mark_nodes :: "enode list \<Rightarrow> 'i Peer \<Rightarrow> enode list \<times> 'i Peer" where
  "mark_nodes [] p = ([], p)"
| "mark_nodes (n # ns) p =
     (case MarkPeerNode n p of (new, p1) \<Rightarrow>
        (case mark_nodes ns p1 of (pinged, p2) \<Rightarrow> (if new then n # pinged else pinged, p2)))"

text \<open>\<open>crawlerProc.OnData\<close>: \<open>query\<close> is the outcome of the handshake, \<open>ask\<close> of \<open>AskForRandomNodes\<close>; one clock
  reading stands for all of the run.\<close>

definition refresh_info :: "int \<Rightarrow> string + 'i \<Rightarrow> 'i Peer \<Rightarrow> 'i Peer" where
  "refresh_info now query p =
     (case CanRefresh now (pe_infoCounter p) of
        (False, _) \<Rightarrow> p
      | (True, q) \<Rightarrow>
          let p1 = p\<lparr>pe_infoCounter := q\<rparr> in
          (case query of
             Inr info \<Rightarrow>
               (case UpdateInfo info p1 of (updated, p2) \<Rightarrow>
                  p2\<lparr>pe_infoCounter := qc_Bump now (\<not> updated) (pe_infoCounter p2)\<rparr>)
           | Inl _ \<Rightarrow> p1\<lparr>pe_infoCounter := qc_Bump now True (pe_infoCounter p1)\<rparr>))"

definition crawler_OnData :: "int \<Rightarrow> string + 'i \<Rightarrow> string + enode list \<Rightarrow> 'i Peer \<Rightarrow> err \<times> enode list \<times> 'i Peer" where
  "crawler_OnData now query ask p =
     (let p1 = refresh_info now query p;
          p2 = p1\<lparr>pe_findCounter := qc_Bump now (case ask of Inl _ \<Rightarrow> True | Inr _ \<Rightarrow> False) (pe_findCounter p1)\<rparr>
      in case ask of
           Inl e \<Rightarrow> (Some e, [], p2\<lparr>pe_findCounter := qc_Bump now True (pe_findCounter p2)\<rparr>)
         | Inr ns \<Rightarrow> (case mark_nodes ns p2 of (pinged, p3) \<Rightarrow> (None, pinged, p3)))"

section \<open>The seeker\<close>

text \<open>The event loop: the nodes pushed to the workers for a list of events, and the \<open>seen\<close> map.\<close>

definition seen_mark :: "node_id set \<Rightarrow> node_id \<Rightarrow> bool \<times> node_id set" where
  "seen_mark seen i = (if i \<in> seen then (False, seen) else (True, insert i seen))"

fun eventLoop :: "(bool \<times> enode) list \<Rightarrow> node_id set \<Rightarrow> enode list \<times> node_id set" where
  "eventLoop [] seen = ([], seen)"
| "eventLoop ((is_seen, n) # evs) seen =
     (if \<not> is_seen then eventLoop evs seen
      else case seen_mark seen (e_ID n) of
        (False, s) \<Rightarrow> eventLoop evs s
      | (True, s) \<Rightarrow> (case eventLoop evs s of (ps, s') \<Rightarrow> (n # ps, s')))"

interpretation seeking: marker seen_mark "\<lambda>s. s"
  by unfold_locales (auto simp: seen_mark_def)

lemma seen_mark_eq [simp]: "fst (seen_mark S i) = (i \<notin> S)" "snd (seen_mark S i) = insert i S"
  by (auto simp: seen_mark_def)

definition errNotInterested :: string where "errNotInterested = ''not interested''"

text \<open>\<open>seekerProcessor.OnData\<close>: \<open>enr k\<close> is the answer of the \<open>k\<close>-th record request (at most three).\<close>

fun enr_attempts :: "nat \<Rightarrow> (nat \<Rightarrow> string + enode) \<Rightarrow> nat \<Rightarrow> string + enode \<Rightarrow> string + enode" where
  "enr_attempts 0 enr i lst = lst"
| "enr_attempts (Suc k) enr i lst = (case enr i of Inl e \<Rightarrow> enr_attempts k enr (Suc i) (Inl e) | Inr n \<Rightarrow> Inr n)"

definition seeker_OnData :: "int \<Rightarrow> (enode \<Rightarrow> bool) \<Rightarrow> (nat \<Rightarrow> string + enode) \<Rightarrow> string + Node" where
  "seeker_OnData now verify enr =
     (case enr_attempts 3 enr 0 (Inl '''') of
        Inl e \<Rightarrow> Inl e
      | Inr n \<Rightarrow> if \<not> verify n then Inl errNotInterested else Inr (Bump (SetTimestamp (WrapNode n) now)))"

section \<open>The crawler\<close>

text \<open>\<open>filterNode\<close>: the loops over the record's keys and the configured keys.\<close>

definition filterNode :: "string list \<Rightarrow> enode \<Rightarrow> bool" where
  "filterNode keys n \<longleftrightarrow> (\<exists>record \<in> set (e_Keys n). \<exists>key \<in> set keys. key = ''*'' \<or> record = key)"

record 'i crawler =
  cr_buffer :: "nat list"
  cr_peers :: "nat \<Rightarrow> 'i Peer"

datatype cr_action =
    PushWork nat
  | PublishNodeStats nat u32 u32 "enode list"

definition new_peer_found :: "nat \<Rightarrow> Node \<Rightarrow> 'i crawler \<Rightarrow> 'i crawler" where
  "new_peer_found r n c = c\<lparr>cr_peers := (cr_peers c)(r := newPeer n), cr_buffer := Enqueue r (cr_buffer c)\<rparr>"

text \<open>One tick of \<open>crawler.loop\<close>.\<close>

definition crawl_tick :: "int \<Rightarrow> 'i crawler \<Rightarrow> cr_action list \<times> 'i crawler" where
  "crawl_tick now c =
     (case Dequeue (cr_buffer c) of
        (None, b) \<Rightarrow> ([], c\<lparr>cr_buffer := b\<rparr>)
      | (Some r, b) \<Rightarrow>
          let p = cr_peers c r;
              (can, q) = CanRefresh now (pe_findCounter p);
              p1 = p\<lparr>pe_findCounter := q\<rparr>;
              (es, p2) = NewEntries p1;
              c' = c\<lparr>cr_buffer := Enqueue r b, cr_peers := (cr_peers c)(r := p2)\<rparr>;
              acts = (if can then [PushWork r] else [])
          in if length es = 0 then (acts, c')
             else (acts @ [PublishNodeStats r
                     (FailureCounter (pe_findCounter p2) + SuccessCounter (pe_findCounter p2)
                       + (FailureCounter (pe_infoCounter p2) + SuccessCounter (pe_infoCounter p2)))
                     (pe_peersAmount p2) (GetPeerNodes es p2)], c'))"

section \<open>What a peer reports as new\<close>

text \<open>The calls on a peer, with the list of all identifiers reported by \<open>NewEntries\<close> so far.\<close>

inductive peer_step :: "'i Peer \<times> node_id list \<Rightarrow> 'i Peer \<times> node_id list \<Rightarrow> bool" where
  mark: "peer_step (p, rep) (snd (MarkPeerNode n p), rep)"
| report: "peer_step (p, rep) (snd (NewEntries p), rep @ fst (NewEntries p))"
| ondata: "peer_step (p, rep) (snd (snd (crawler_OnData now query ask p)), rep)"

definition peer_inv :: "'i Peer \<times> node_id list \<Rightarrow> bool" where
  "peer_inv s \<longleftrightarrow> (case s of (p, rep) \<Rightarrow>
     distinct (rep @ pe_fresh p) \<and> set (rep @ pe_fresh p) = dom (pe_Peers p)
     \<and> pe_peersAmount p = of_nat (length (rep @ pe_fresh p))
     \<and> (\<forall>i n. pe_Peers p i = Some n \<longrightarrow> e_ID n = i))"

lemma mark_inv:
  assumes "peer_inv (p, rep)"
  shows "peer_inv (snd (MarkPeerNode n p), rep)"
proof (cases "pe_Peers p (e_ID n)")
  case None
  then have "e_ID n \<notin> set (rep @ pe_fresh p)" using assms by (auto simp: peer_inv_def)
  with None assms show ?thesis by (auto simp: peer_inv_def MarkPeerNode_def)
qed (use assms in \<open>simp add: MarkPeerNode_def\<close>)

lemma NewEntries_eq: "NewEntries p = (pe_fresh p, p\<lparr>pe_fresh := []\<rparr>)"
  by (simp add: NewEntries_def go_copy_def)

lemma mark_nodes_inv: "peer_inv (p, rep) \<Longrightarrow> peer_inv (snd (mark_nodes ns p), rep)"
proof (induction ns arbitrary: p)
  case (Cons n ns)
  from Cons.IH[OF mark_inv[OF Cons.prems, of n]] show ?case by (auto split: prod.splits)
qed simp

lemma refresh_info_frame [simp]:
  "pe_Peers (refresh_info now query p) = pe_Peers p" "pe_fresh (refresh_info now query p) = pe_fresh p"
  "pe_peersAmount (refresh_info now query p) = pe_peersAmount p" "pe_findCounter (refresh_info now query p) = pe_findCounter p"
  by (auto simp: refresh_info_def UpdateInfo_def Let_def split: prod.splits bool.splits sum.splits)

lemma peer_inv_frame: "pe_Peers p = pe_Peers q \<Longrightarrow> pe_fresh p = pe_fresh q \<Longrightarrow> pe_peersAmount p = pe_peersAmount q \<Longrightarrow>
    peer_inv (p, rep) = peer_inv (q, rep)"
  by (simp add: peer_inv_def)

lemma ondata_inv:
  assumes "peer_inv (p, rep)"
  shows "peer_inv (snd (snd (crawler_OnData now query ask p)), rep)"
proof (cases ask)
  case (Inl e)
  then show ?thesis using assms by (simp add: crawler_OnData_def Let_def peer_inv_def)
next
  case (Inr ns)
  let ?p1 = "refresh_info now query p"
  let ?p2 = "?p1\<lparr>pe_findCounter := qc_Bump now False (pe_findCounter ?p1)\<rparr>"
  have "peer_inv (?p2, rep)" using assms by (simp add: peer_inv_def)
  then have "peer_inv (snd (mark_nodes ns ?p2), rep)" by (rule mark_nodes_inv)
  with Inr show ?thesis by (simp add: crawler_OnData_def Let_def split: prod.splits)
qed

lemma peer_inv_step: "peer_inv s \<Longrightarrow> peer_step s t \<Longrightarrow> peer_inv t"
proof (erule peer_step.cases, goal_cases)
  case (2 p rep)
  then show ?case by (auto simp: NewEntries_eq peer_inv_def)
qed (auto intro: mark_inv ondata_inv)

lemma peer_inv_init: "peer_inv (newPeer n, [])"
  by (simp add: peer_inv_def newPeer_def)

interpretation peer_sys: inv_system "\<lambda>s. \<exists>n. s = (newPeer n, [])" peer_step peer_inv
  by unfold_locales (use peer_inv_init in blast, rule peer_inv_step)

lemma GetPeerNodes_known:
  "set is \<subseteq> dom (pe_Peers p) \<Longrightarrow> (\<And>i n. pe_Peers p i = Some n \<Longrightarrow> e_ID n = i) \<Longrightarrow> map e_ID (GetPeerNodes is p) = is"
  by (induction "is") (auto split: option.splits)

lemma mark_nodes_pinged:
  "mark_nodes ns p = (pinged, p') \<Longrightarrow> map e_ID pinged = seeking.fresh_of (dom (pe_Peers p)) (map e_ID ns)"
proof (induction ns arbitrary: p pinged p')
  case (Cons n ns)
  obtain new p1 where m: "MarkPeerNode n p = (new, p1)" by fastforce
  obtain q p2 where q: "mark_nodes ns p1 = (q, p2)" by fastforce
  have d: "dom (pe_Peers p1) = insert (e_ID n) (dom (pe_Peers p))" "new = (e_ID n \<notin> dom (pe_Peers p))"
    using m by (auto simp: MarkPeerNode_def split: option.splits)
  have "pinged = (if new then n # q else q)" using Cons.prems m q by simp
  with Cons.IH[OF q] d show ?case by (simp add: domIff)
qed simp

lemma eventLoop_Cons:
  "eventLoop ((b, n) # evs) S = (if \<not> b \<or> e_ID n \<in> S then eventLoop evs S
     else (n # fst (eventLoop evs (insert (e_ID n) S)), snd (eventLoop evs (insert (e_ID n) S))))"
  by (auto simp: seen_mark_def split: prod.splits)

lemma eventLoop_ids:
  "map e_ID (fst (eventLoop evs S)) = seeking.fresh_of S (map (\<lambda>ev. e_ID (snd ev)) (filter fst evs))"
proof (induction evs arbitrary: S)
  case (Cons ev evs)
  obtain b n where "ev = (b, n)" by fastforce
  with Cons.IH show ?case by (auto simp: eventLoop_Cons insert_absorb simp del: eventLoop.simps(2))
qed simp

lemma eventLoop_sub: "set (fst (eventLoop evs S)) \<subseteq> snd ` set (filter fst evs)"
proof (induction evs arbitrary: S)
  case (Cons ev evs)
  obtain b n where ev: "ev = (b, n)" by fastforce
  show ?case
    using Cons.IH[of S] Cons.IH[of "insert (e_ID n) S"] unfolding ev
    by (auto simp: eventLoop_Cons simp del: eventLoop.simps(2))
qed simp

lemma enr_attempts_3:
  "enr_attempts 3 enr 0 l = (case enr 0 of Inr n \<Rightarrow> Inr n | Inl _ \<Rightarrow>
     (case enr 1 of Inr n \<Rightarrow> Inr n | Inl _ \<Rightarrow> (case enr 2 of Inr n \<Rightarrow> Inr n | Inl e \<Rightarrow> Inl e)))"
  by (simp add: numeral_3_eq_3 numeral_2_eq_2 split: sum.splits)

lemma attempts_iff:
  "(\<exists>k n. k < 3 \<and> enr k = Inr n \<and> (\<forall>j < k. isl (enr j)) \<and> R n) \<longleftrightarrow>
   (case enr_attempts 3 enr 0 (Inl []) of Inl e \<Rightarrow> False | Inr n \<Rightarrow> R n)"
proof -
  have "(\<exists>k < 3. Q k) \<longleftrightarrow> Q 0 \<or> Q 1 \<or> Q (2 :: nat)" for Q
    by (auto simp: numeral_3_eq_3 less_Suc_eq numeral_2_eq_2)
  from this[of "\<lambda>k. \<exists>n. enr k = Inr n \<and> (\<forall>j < k. isl (enr j)) \<and> R n"]
  have "(\<exists>k n. k < 3 \<and> enr k = Inr n \<and> (\<forall>j < k. isl (enr j)) \<and> R n) \<longleftrightarrow>
    (\<exists>n. enr 0 = Inr n \<and> R n) \<or> (\<exists>n. enr 1 = Inr n \<and> isl (enr 0) \<and> R n)
    \<or> (\<exists>n. enr 2 = Inr n \<and> isl (enr 0) \<and> isl (enr 1) \<and> R n)"
    by (auto simp: less_Suc_eq numeral_2_eq_2)
  then show ?thesis unfolding enr_attempts_3 by (cases "enr 0"; cases "enr 1"; cases "enr 2") auto
qed

lemma toUnix_le: "0 \<le> now \<Longrightarrow> unixMilli (toUnix now) \<le> now div 2"
proof -
  assume "0 \<le> now"
  define k where "k = now div 1000000000"
  have "1000000000 * k + now mod 1000000000 = now" "0 \<le> now mod 1000000000" unfolding k_def by simp_all
  moreover have "0 \<le> k" using \<open>0 \<le> now\<close> by (simp add: k_def pos_imp_zdiv_nonneg_iff)
  ultimately have "k * 1000000 \<le> now div 2" by linarith
  then have "now div 1000000000 * 1000000 \<le> now div 2" by (simp add: k_def)
  then show ?thesis by (simp add: time_defs)
qed

lemma Dequeue_simps [simp]: "Dequeue [] = (None, [])" "Dequeue (x # b) = (Some x, b)"
  by (simp_all add: Dequeue_def)

lemma tick_buffer: "cr_buffer (snd (crawl_tick now c)) = (case cr_buffer c of [] \<Rightarrow> [] | r # b \<Rightarrow> Enqueue r b)"
  by (cases "cr_buffer c") (auto simp: crawl_tick_def Let_def split: prod.splits)

fun ticks :: "int list \<Rightarrow> 'i crawler \<Rightarrow> nat list \<times> 'i crawler" where
  "ticks [] c = ([], c)"
| "ticks (t # ts) c = (case ticks ts (snd (crawl_tick t c)) of (vs, c') \<Rightarrow>
     (case cr_buffer c of [] \<Rightarrow> vs | r # b \<Rightarrow> r # vs, c'))"

lemma ticks_rounds: "fst (ticks ts c) = fst (buffer.rounds (length ts) (cr_buffer c))
    \<and> cr_buffer (snd (ticks ts c)) = snd (buffer.rounds (length ts) (cr_buffer c))"
proof (induction ts arbitrary: c)
  case (Cons t ts)
  show ?case
    using Cons.IH[of "snd (crawl_tick t c)"] tick_buffer[of t c]
    by (cases "cr_buffer c") (auto split: prod.splits)
qed simp

section \<open>Properties\<close>

definition ex_seen :: "node_id \<Rightarrow> enode" where
  "ex_seen i = \<lparr>e_ID = i, e_IP = [1,2,3,4], e_UDP = 1, e_TCP = 1, e_Seq = 0, e_Keys = [''eth'']\<rparr>"

text \<open>The crawler visits its peers in turn: as many ticks as there are peers in the buffer visit each of them exactly
  once, in the order of the buffer, and leave the buffer as it was.\<close>

lemma crawl_round_robin:
  assumes "length ts = length (cr_buffer c)"
  shows "fst (ticks ts c) = cr_buffer c \<and> cr_buffer (snd (ticks ts c)) = cr_buffer c"
  using ticks_rounds[of ts c] buffer.full_round[of "cr_buffer c"] assms by simp

text \<open>A peer reports every node it has learnt exactly once: whatever calls are made on it, the identifiers handed out by
  \<open>NewEntries\<close> together with those still pending are without repetition exactly the known ones, the counter of peers
  equals their number, and \<open>GetPeerNodes\<close> finds every reported one.\<close>

lemma peer_reports_once:
  assumes "reach (\<lambda>s. \<exists>n. s = (newPeer n, [])) peer_step (p, rep)"
  shows "distinct (rep @ pe_fresh p) \<and> set (rep @ pe_fresh p) = dom (pe_Peers p)
    \<and> pe_peersAmount p = of_nat (length (rep @ pe_fresh p))
    \<and> map e_ID (GetPeerNodes rep p) = rep"
proof -
  have i: "peer_inv (p, rep)" using peer_sys.reach_inv[OF assms] .
  then have "map e_ID (GetPeerNodes rep p) = rep" by (intro GetPeerNodes_known) (auto simp: peer_inv_def)
  with i show ?thesis by (simp add: peer_inv_def)
qed

text \<open>Crawling a peer pings exactly the nodes it had not returned before, each once.\<close>

lemma crawl_pings_new_once:
  assumes "crawler_OnData now query (Inr ns) p = (e, pinged, p')"
  shows "e = None \<and> set (map e_ID pinged) = set (map e_ID ns) - dom (pe_Peers p) \<and> distinct (map e_ID pinged)"
proof -
  let ?p1 = "refresh_info now query p"
  let ?p2 = "?p1\<lparr>pe_findCounter := qc_Bump now False (pe_findCounter ?p1)\<rparr>"
  have m: "mark_nodes ns ?p2 = (pinged, p')" "e = None" using assms by (auto simp: crawler_OnData_def Let_def split: prod.splits)
  from mark_nodes_pinged[OF m(1)] have "map e_ID pinged = seeking.fresh_of (dom (pe_Peers p)) (map e_ID ns)" by simp
  then show ?thesis using m(2) seeking.set_fresh_of seeking.distinct_fresh_of by metis
qed

text \<open>The refresh limit of a counter does not hold right after a refresh: \<open>CanRefresh\<close> stores seconds where it later
  reads milliseconds, so any later call at a time beyond twice the interval since 1970 succeeds again at once, until the
  next \<open>Bump\<close>.\<close>

lemma CanRefresh_not_limiting:
  assumes "CanRefresh now q = (True, q')" and "0 \<le> now" and "now \<le> now'" and "2 * qc_duration q \<le> now"
  shows "fst (CanRefresh now' q')"
proof -
  have q: "q' = q\<lparr>LastAttempt := toUnix now\<rparr>" using assms(1) by (auto simp: CanRefresh_def split: if_splits)
  have "qc_duration q \<le> now' - unixMilli (toUnix now)" using toUnix_le[OF assms(2)] assms(3,4) by presburger
  then show ?thesis by (simp add: q CanRefresh_def)
qed

text \<open>A failed request for nodes is counted twice as a failure of the peer.\<close>

lemma failed_ask_counts_twice:
  "FailureCounter (pe_findCounter (snd (snd (crawler_OnData now query (Inl e) p)))) = FailureCounter (pe_findCounter p) + 2"
  by (simp add: crawler_OnData_def Let_def qc_Bump_def)

text \<open>The seeker hands each node to its workers at most once: for any events, the nodes pushed are exactly the seen ones
  not known before, without repetition.\<close>

lemma seeker_pushes_once:
  "set (map e_ID (fst (eventLoop evs S))) = {e_ID n | n. (True, n) \<in> set evs} - S
   \<and> distinct (map e_ID (fst (eventLoop evs S))) \<and> set (fst (eventLoop evs S)) \<subseteq> {n. (True, n) \<in> set evs}"
proof -
  have "set (fst (eventLoop evs S)) \<subseteq> {n. (True, n) \<in> set evs}" using eventLoop_sub[of evs S] by auto
  moreover have "set (map (\<lambda>ev. e_ID (snd ev)) (filter fst evs)) = {e_ID n | n. (True, n) \<in> set evs}" by force
  ultimately show ?thesis
    unfolding eventLoop_ids seeking.set_fresh_of using seeking.distinct_fresh_of by simp
qed

text \<open>The record of a seen node is requested up to three times; the node passes exactly when one of the three requests
  succeeds and the first record obtained passes the filter, and then it is wrapped with one liveness check.\<close>

lemma seeker_three_attempts:
  "seeker_OnData now verify enr = Inr w \<longleftrightarrow>
     (\<exists>k n. k < 3 \<and> enr k = Inr n \<and> (\<forall>j < k. isl (enr j)) \<and> verify n
        \<and> w = Bump (SetTimestamp (WrapNode n) now))"
  using attempts_iff[of enr "\<lambda>n. verify n \<and> w = Bump (SetTimestamp (WrapNode n) now)"]
  unfolding seeker_OnData_def by (auto split: sum.splits)

end
