(* ===== verification/Lifecycle.thy ===== *)
theory Lifecycle
  imports Workers Crawl
begin

text \<open>
  The life of the seeker (\<open>crawler/crawler/seeker.go\<close>: \<open>Start\<close>, \<open>start\<close>, \<open>cleanup\<close>, \<open>Stop\<close>) and of the runner it owns
  (\<open>crawler/workers/runner/runner.go\<close>: \<open>Start\<close>, \<open>Stop\<close>, \<open>Wait\<close>, \<open>runWorkers\<close>, \<open>loop\<close>), as steps of the goroutines between
  their channel and wait-group operations. Shown: stopping closes every channel once, a stopped seeker does no work,
  and \<open>Stop\<close> returns under every schedule.
\<close>

section \<open>Goroutines\<close>

text \<open>A worker of the runner: added to the pool, in \<open>Next\<close>, between \<open>Next\<close> and \<open>Stopped\<close>, in \<open>OnData\<close>, in \<open>Push\<close>, ended.\<close>

datatype worker_phase = Pending | Receiving | Got | Working | Pushing | Exited

text \<open>The goroutine of \<open>runner.Start\<close>: adding workers, at \<open><-r.sig\<close>, before \<open>close(r.done)\<close>, before \<open>wg.Done\<close>, before
  the deferred \<open>cancel\<close>, ended.\<close>

datatype runner_phase = RNone | RAdding | RWaiting | RTaken | RClosed | RDone | RCancelled

text \<open>The goroutine \<open>seeker.start\<close>: at \<open><-s.sig\<close>, before \<open>close(s.done)\<close>, before the deferred \<open>cancel\<close>, then the calls of
  \<open>cleanup\<close> in order.\<close>

datatype seeker_phase = SNone | SWaiting | STaken | SCancel | SDst | SRecv | SRunner | SWait | SEnd

datatype event_phase = ENone | ELoop | EPush | EEnd

text \<open>A call of \<open>Stop\<close>: in its \<open>select\<close>, in \<open>wg.Wait\<close>, or returned, having waited or not.\<close>

datatype stop_call = StopSelect | StopWait | StopReturned bool

record seeker =
  sk_filter :: "(enode \<Rightarrow> bool) option"
  sk_running :: bool
  sk_main :: seeker_phase
  sk_done :: nat
  sk_cancelled :: bool
  sk_wg :: int
  sk_dst :: iterator
  sk_recv :: iterator
  sk_events :: event_phase
  sk_stops :: "stop_call list"
  rn_main :: runner_phase
  rn_done :: nat
  rn_wg :: int
  rn_workers :: "worker_phase list"

definition newIterator :: iterator where
  "newIterator = \<lparr>it_stopped = False, it_closes = 0\<rparr>"

definition NewSeeker :: "(enode \<Rightarrow> bool) option \<Rightarrow> seeker" where
  "NewSeeker f = \<lparr>sk_filter = f, sk_running = False, sk_main = SNone, sk_done = 0, sk_cancelled = False, sk_wg = 0,
     sk_dst = newIterator, sk_recv = newIterator, sk_events = ENone, sk_stops = [],
     rn_main = RNone, rn_done = 0, rn_wg = 0, rn_workers = []\<rparr>"

definition runner_Start :: "seeker \<Rightarrow> seeker" where
  "runner_Start s = s\<lparr>rn_wg := rn_wg s + 1, rn_main := RAdding\<rparr>"

definition seeker_Start :: "seeker \<Rightarrow> seeker" where
  "seeker_Start s =
     (if sk_running s then s
      else (runner_Start (s\<lparr>sk_running := True, sk_filter := (case sk_filter s of None \<Rightarrow> Some (\<lambda>_. True) | Some f \<Rightarrow> Some f),
              sk_wg := sk_wg s + 1\<rparr>))\<lparr>sk_main := SWaiting, sk_events := ELoop\<rparr>)"

definition RegisterFilter :: "(enode \<Rightarrow> bool) \<Rightarrow> seeker \<Rightarrow> seeker" where
  "RegisterFilter f s = (if sk_running s then s else s\<lparr>sk_filter := Some f\<rparr>)"

text \<open>Worker \<open>i\<close> moves on; \<open>worker_exit\<close> is the return of \<open>loop\<close> with \<open>wg.Done\<close>.\<close>

definition to_phase :: "nat \<Rightarrow> worker_phase \<Rightarrow> seeker \<Rightarrow> seeker" where
  "to_phase i p s = s\<lparr>rn_workers := (rn_workers s)[i := p]\<rparr>"

definition worker_exit :: "nat \<Rightarrow> seeker \<Rightarrow> seeker" where
  "worker_exit i s = to_phase i Exited (s\<lparr>rn_wg := rn_wg s - 1\<rparr>)"

definition at_phase :: "seeker \<Rightarrow> nat \<Rightarrow> worker_phase \<Rightarrow> bool" where
  "at_phase s i p \<longleftrightarrow> i < length (rn_workers s) \<and> rn_workers s ! i = p"

text \<open>What others do: calls of \<open>Start\<close>, \<open>RegisterFilter\<close> and \<open>Stop\<close>, a seen event, the reader of the output, and its owner stopping it.\<close>

inductive env_step :: "seeker \<Rightarrow> seeker \<Rightarrow> bool" where
  start_call: "env_step s (seeker_Start s)"
| register_call: "env_step s (RegisterFilter f s)"
| stop_call: "env_step s (s\<lparr>sk_stops := sk_stops s @ [StopSelect]\<rparr>)"
| event_seen: "sk_events s = ELoop \<Longrightarrow> env_step s (s\<lparr>sk_events := EPush\<rparr>)"
| result_read: "at_phase s i Pushing \<Longrightarrow> env_step s (to_phase i Receiving s)"
| output_stopped: "env_step s (s\<lparr>sk_dst := it_Stop (sk_dst s)\<rparr>)"

text \<open>What the goroutines of the runner do; \<open>n\<close> is \<open>TargetedThreads\<close>. A pending worker may be spawned by the pool
  at any time.\<close>

inductive runner_step :: "nat \<Rightarrow> seeker \<Rightarrow> seeker \<Rightarrow> bool" for n :: nat where
  add_worker: "rn_main s = RAdding \<Longrightarrow> length (rn_workers s) < n \<Longrightarrow>
    runner_step n s (s\<lparr>rn_workers := rn_workers s @ [Pending]\<rparr>)"
| workers_added: "rn_main s = RAdding \<Longrightarrow> n \<le> length (rn_workers s) \<Longrightarrow> runner_step n s (s\<lparr>rn_main := RWaiting\<rparr>)"
| runner_close: "rn_main s = RTaken \<Longrightarrow> runner_step n s (s\<lparr>rn_main := RClosed, rn_done := rn_done s + 1\<rparr>)"
| runner_done: "rn_main s = RClosed \<Longrightarrow> runner_step n s (s\<lparr>rn_main := RDone, rn_wg := rn_wg s - 1\<rparr>)"
| runner_cancel: "rn_main s = RDone \<Longrightarrow> runner_step n s (s\<lparr>rn_main := RCancelled\<rparr>)"
| spawn: "at_phase s i Pending \<Longrightarrow> runner_step n s (to_phase i Receiving (s\<lparr>rn_wg := rn_wg s + 1\<rparr>))"
| ctx_done: "at_phase s i Receiving \<Longrightarrow> rn_main s = RCancelled \<Longrightarrow> runner_step n s (worker_exit i s)"
| next_item: "at_phase s i Receiving \<Longrightarrow> sk_events s = EPush \<Longrightarrow> runner_step n s (to_phase i Got (s\<lparr>sk_events := ELoop\<rparr>))"
| next_closed: "at_phase s i Receiving \<Longrightarrow> it_stopped (sk_recv s) \<Longrightarrow> runner_step n s (to_phase i Got s)"
| stopped_check: "at_phase s i Got \<Longrightarrow>
    runner_step n s (if it_stopped (sk_recv s) then worker_exit i s else to_phase i Working s)"
| work_failed: "at_phase s i Working \<Longrightarrow> runner_step n s (to_phase i Receiving s)"
| work_ok: "at_phase s i Working \<Longrightarrow> runner_step n s (to_phase i Pushing s)"
| push_closed: "at_phase s i Pushing \<Longrightarrow> it_stopped (sk_dst s) \<Longrightarrow> runner_step n s (to_phase i Receiving s)"

text \<open>What the goroutines of the seeker, its event loop and the calls of \<open>Stop\<close> do.\<close>

inductive seeker_step :: "seeker \<Rightarrow> seeker \<Rightarrow> bool" where
  event_dropped: "sk_events s = EPush \<Longrightarrow> it_stopped (sk_recv s) \<Longrightarrow> seeker_step s (s\<lparr>sk_events := ELoop\<rparr>)"
| events_end: "sk_events s = ELoop \<Longrightarrow> sk_cancelled s \<Longrightarrow> seeker_step s (s\<lparr>sk_events := EEnd\<rparr>)"
| stop_signal: "sk_stops s = xs @ StopSelect # ys \<Longrightarrow> sk_main s = SWaiting \<Longrightarrow>
    seeker_step s (s\<lparr>sk_stops := xs @ StopWait # ys, sk_main := STaken\<rparr>)"
| stop_seen: "sk_stops s = xs @ StopSelect # ys \<Longrightarrow> 0 < sk_done s \<Longrightarrow>
    seeker_step s (s\<lparr>sk_stops := xs @ StopReturned False # ys\<rparr>)"
| stop_waited: "sk_stops s = xs @ StopWait # ys \<Longrightarrow> sk_wg s = 0 \<Longrightarrow>
    seeker_step s (s\<lparr>sk_stops := xs @ StopReturned True # ys\<rparr>)"
| seeker_close: "sk_main s = STaken \<Longrightarrow> seeker_step s (s\<lparr>sk_main := SCancel, sk_done := sk_done s + 1\<rparr>)"
| seeker_cancel: "sk_main s = SCancel \<Longrightarrow> seeker_step s (s\<lparr>sk_main := SDst, sk_cancelled := True\<rparr>)"
| cleanup_dst: "sk_main s = SDst \<Longrightarrow> seeker_step s (s\<lparr>sk_main := SRecv, sk_dst := it_Stop (sk_dst s)\<rparr>)"
| cleanup_recv: "sk_main s = SRecv \<Longrightarrow> seeker_step s (s\<lparr>sk_main := SRunner, sk_recv := it_Stop (sk_recv s)\<rparr>)"
| cleanup_signal: "sk_main s = SRunner \<Longrightarrow> rn_main s = RWaiting \<Longrightarrow> seeker_step s (s\<lparr>sk_main := SWait, rn_main := RTaken\<rparr>)"
| cleanup_seen: "sk_main s = SRunner \<Longrightarrow> 0 < rn_done s \<Longrightarrow> seeker_step s (s\<lparr>sk_main := SWait\<rparr>)"
| cleanup_waited: "sk_main s = SWait \<Longrightarrow> rn_wg s = 0 \<Longrightarrow> seeker_step s (s\<lparr>sk_main := SEnd, sk_wg := sk_wg s - 1\<rparr>)"

definition sys_step :: "nat \<Rightarrow> seeker \<Rightarrow> seeker \<Rightarrow> bool" where
  "sys_step n s t \<longleftrightarrow> runner_step n s t \<or> seeker_step s t"

definition seek_step :: "nat \<Rightarrow> seeker \<Rightarrow> seeker \<Rightarrow> bool" where
  "seek_step n s t \<longleftrightarrow> env_step s t \<or> sys_step n s t"

section \<open>The invariant\<close>

definition active :: "worker_phase \<Rightarrow> int" where
  "active p = (if p \<in> {Receiving, Got, Working, Pushing} then 1 else 0)"

definition iter_ok :: "iterator \<Rightarrow> bool" where
  "iter_ok i \<longleftrightarrow> it_closes i = (if it_stopped i then 1 else 0)"

definition seek_inv :: "seeker \<Rightarrow> bool" where
  "seek_inv s \<longleftrightarrow>
     (sk_running s \<longleftrightarrow> sk_main s \<noteq> SNone) \<and> (sk_running s \<longrightarrow> sk_filter s \<noteq> None) \<and> (rn_main s = RNone \<longleftrightarrow> sk_main s = SNone)
   \<and> (sk_main s = SNone \<longrightarrow> rn_workers s = [])
   \<and> sk_wg s = (if sk_main s \<in> {SNone, SEnd} then 0 else 1)
   \<and> sk_done s = (if sk_main s \<in> {SNone, SWaiting, STaken} then 0 else 1)
   \<and> iter_ok (sk_dst s) \<and> iter_ok (sk_recv s)
   \<and> (sk_main s \<in> {SRecv, SRunner, SWait, SEnd} \<longrightarrow> it_stopped (sk_dst s))
   \<and> (sk_main s \<in> {SRunner, SWait, SEnd} \<longrightarrow> it_stopped (sk_recv s))
   \<and> (rn_main s \<in> {RTaken, RClosed, RDone, RCancelled} \<longleftrightarrow> sk_main s \<in> {SWait, SEnd})
   \<and> (sk_main s = SEnd \<longrightarrow> rn_main s \<in> {RDone, RCancelled} \<and> set (rn_workers s) \<inter> {Working, Pushing} = {})
   \<and> rn_done s = (if rn_main s \<in> {RClosed, RDone, RCancelled} then 1 else 0)
   \<and> rn_wg s = (if rn_main s \<in> {RNone, RDone, RCancelled} then 0 else 1) + sum_list (map active (rn_workers s))
   \<and> (StopReturned True \<in> set (sk_stops s) \<longrightarrow> sk_main s = SEnd)
   \<and> (StopWait \<in> set (sk_stops s) \<longrightarrow> sk_main s \<notin> {SNone, SWaiting})"

lemma iter_ok_Stop [simp]: "iter_ok i \<Longrightarrow> iter_ok (it_Stop i)" "it_stopped (it_Stop i)"
  by (auto simp: iter_ok_def it_Stop_def)

lemma active_simps [simp]:
  "active Pending = 0" "active Receiving = 1" "active Got = 1" "active Working = 1" "active Pushing = 1" "active Exited = 0"
  by (simp_all add: active_def)

lemma active_nonneg: "0 \<le> active p" "0 \<le> sum_list (map active ws)"
proof -
  show "0 \<le> active p" for p by (simp add: active_def)
  then show "0 \<le> sum_list (map active ws)" by (intro sum_list_nonneg) auto
qed

text \<open>A worker moves from phase \<open>p\<close> to \<open>q\<close>.\<close>

lemma to_phase_inv:
  assumes "seek_inv s" "at_phase s i p" "active q = active p" "q \<in> {Working, Pushing} \<Longrightarrow> p \<notin> {Working, Pushing} \<Longrightarrow> sk_main s \<noteq> SEnd"
  shows "seek_inv (to_phase i q s)"
proof -
  have "sum_list (map active ((rn_workers s)[i := q])) = sum_list (map active (rn_workers s))"
    using assms(2,3) by (simp add: at_phase_def sum_list_map_update)
  moreover have "set ((rn_workers s)[i := q]) \<inter> {Working, Pushing} = {}" if "sk_main s = SEnd"
  proof -
    have "set (rn_workers s) \<inter> {Working, Pushing} = {}" using assms(1) that by (simp add: seek_inv_def)
    moreover have "p \<in> set (rn_workers s)" using assms(2) by (auto simp: at_phase_def)
    ultimately have "q \<notin> {Working, Pushing}" using assms(4) that by blast
    then show ?thesis using \<open>set (rn_workers s) \<inter> _ = {}\<close> set_update_subset_insert[of "rn_workers s" i q] by blast
  qed
  moreover have "sk_main s = SNone \<Longrightarrow> rn_workers s = []" using assms(1) by (simp add: seek_inv_def)
  ultimately show ?thesis using assms(1) unfolding seek_inv_def to_phase_def by simp
qed

lemma to_phase_wg_inv:
  assumes "seek_inv s" "at_phase s i p" "q \<notin> {Working, Pushing}" "d = active q - active p"
  shows "seek_inv (to_phase i q (s\<lparr>rn_wg := rn_wg s + d\<rparr>))"
proof -
  have "sum_list (map active ((rn_workers s)[i := q])) = sum_list (map active (rn_workers s)) + d"
    using assms(2,4) by (simp add: at_phase_def sum_list_map_update)
  moreover have "set ((rn_workers s)[i := q]) \<inter> {Working, Pushing} = {}" if "sk_main s = SEnd"
    using assms(1,3) that set_update_subset_insert[of "rn_workers s" i q] by (auto simp: seek_inv_def)
  moreover have "sk_main s = SNone \<Longrightarrow> rn_workers s = []" using assms(1) by (simp add: seek_inv_def)
  ultimately show ?thesis using assms(1) unfolding seek_inv_def to_phase_def by simp
qed

lemma worker_exit_inv: "seek_inv s \<Longrightarrow> at_phase s i p \<Longrightarrow> active p = 1 \<Longrightarrow> seek_inv (worker_exit i s)"
  using to_phase_wg_inv[of s i p Exited "- 1"] by (simp add: worker_exit_def)

lemma events_inv: "seek_inv s \<Longrightarrow> seek_inv (s\<lparr>sk_events := e\<rparr>)"
  by (simp add: seek_inv_def)

lemma no_workers_active: "sum_list (map active ws) = 0 \<Longrightarrow> p \<in> set ws \<Longrightarrow> active p = 0"
proof (induction ws)
  case (Cons a ws)
  then show ?case using active_nonneg(1)[of a] active_nonneg(2)[of ws] by auto
qed simp

lemma env_inv: "env_step s t \<Longrightarrow> seek_inv s \<Longrightarrow> seek_inv t"
proof (induction rule: env_step.induct)
  case (result_read s i)
  then show ?case using to_phase_inv[of s i Pushing Receiving] by simp
next
  case (start_call s)
  moreover have "sk_main s = SNone" "rn_main s = RNone" if "\<not> sk_running s" using start_call that by (simp_all add: seek_inv_def)
  ultimately show ?case by (cases "sk_running s") (simp_all add: seek_inv_def seeker_Start_def runner_Start_def split: option.splits)
next
  case (register_call s f)
  moreover have "sk_main s = SNone" if "\<not> sk_running s" using register_call that by (simp add: seek_inv_def)
  ultimately show ?case by (cases "sk_running s") (simp_all add: RegisterFilter_def seek_inv_def)
qed (simp_all add: seek_inv_def)

lemma main_inv: "sk_main s = SWait \<Longrightarrow> rn_wg s = 0 \<Longrightarrow> seek_inv s \<Longrightarrow> seek_inv (s\<lparr>sk_main := SEnd, sk_wg := sk_wg s - 1\<rparr>)"
proof -
  assume a: "sk_main s = SWait" "rn_wg s = 0" "seek_inv s"
  then have z: "rn_main s \<in> {RDone, RCancelled}" "sum_list (map active (rn_workers s)) = 0"
    using active_nonneg(2)[of "rn_workers s"] by (auto simp: seek_inv_def split: if_splits)
  have "set (rn_workers s) \<inter> {Working, Pushing} = {}" using no_workers_active[OF z(2)] by fastforce
  then show ?thesis using a z by (auto simp: seek_inv_def)
qed

lemma runner_inv: "runner_step n s t \<Longrightarrow> seek_inv s \<Longrightarrow> seek_inv t"
proof (induction rule: runner_step.induct)
  case (spawn s i)
  then show ?case using to_phase_wg_inv[of s i Pending Receiving 1] by simp
next
  case (ctx_done s i)
  then show ?case using worker_exit_inv by simp
next
  case (next_item s i)
  then show ?case using to_phase_inv[of "s\<lparr>sk_events := ELoop\<rparr>" i Receiving Got] events_inv by (simp add: at_phase_def)
next
  case (next_closed s i)
  then show ?case using to_phase_inv[of s i Receiving Got] by simp
next
  case (stopped_check s i)
  moreover have "sk_main s \<noteq> SEnd" if "\<not> it_stopped (sk_recv s)" using stopped_check that by (auto simp: seek_inv_def)
  ultimately show ?case using to_phase_inv[of s i Got Working] worker_exit_inv by simp
next
  case (work_failed s i)
  then show ?case using to_phase_inv[of s i Working Receiving] by simp
next
  case (work_ok s i)
  then show ?case using to_phase_inv[of s i Working Pushing] by simp
next
  case (push_closed s i)
  then show ?case using to_phase_inv[of s i Pushing Receiving] by simp
next
  case (add_worker s)
  then show ?case by (simp add: seek_inv_def) 
next
  case (workers_added s)
  then show ?case by (auto simp: seek_inv_def) 
next
  case (runner_close s)
  then show ?case by (auto simp: seek_inv_def) 
next
  case (runner_done s)
  then show ?case by (auto simp: seek_inv_def)
qed (auto simp: seek_inv_def)

lemma seeker_inv: "seeker_step s t \<Longrightarrow> seek_inv s \<Longrightarrow> seek_inv t"
proof (induction rule: seeker_step.induct)
  case (cleanup_waited s)
  then show ?case using main_inv by blast
next
  case (stop_waited s xs ys)
  then have "sk_main s = SEnd" by (auto simp: seek_inv_def split: if_splits)
  with stop_waited show ?case by (auto simp: seek_inv_def)
next
  case (cleanup_seen s)
  then show ?case by (auto simp: seek_inv_def split: if_splits) 
qed (auto simp: seek_inv_def)


interpretation seeking_life: inv_system "\<lambda>s. \<exists>f. s = NewSeeker f" "seek_step n" seek_inv
proof
  fix s assume "\<exists>f. s = NewSeeker f"
  then show "seek_inv s" by (auto simp: seek_inv_def NewSeeker_def newIterator_def iter_ok_def)
next
  fix s t assume "seek_inv s" "seek_step n s t"
  then show "seek_inv t" unfolding seek_step_def sys_step_def using env_inv runner_inv seeker_inv by blast
qed

section \<open>The way to the end\<close>

text \<open>A weight for what is left to do once the input has been stopped: no step raises it.\<close>

primrec worker_weight :: "worker_phase \<Rightarrow> int" where
  "worker_weight Pending = 3"
| "worker_weight Receiving = 2"
| "worker_weight Got = 1"
| "worker_weight Working = 4"
| "worker_weight Pushing = 3"
| "worker_weight Exited = 0"

primrec runner_weight :: "runner_phase \<Rightarrow> int" where
  "runner_weight RNone = 0"
| "runner_weight RAdding = 5"
| "runner_weight RWaiting = 4"
| "runner_weight RTaken = 3"
| "runner_weight RClosed = 2"
| "runner_weight RDone = 1"
| "runner_weight RCancelled = 0"

definition stop_weight :: "nat \<Rightarrow> seeker \<Rightarrow> int" where
  "stop_weight n s = (case sk_main s of SRunner \<Rightarrow> 2 | SWait \<Rightarrow> 1 | _ \<Rightarrow> 0) + runner_weight (rn_main s)
     + (if rn_main s = RAdding then 4 * int (n - length (rn_workers s)) else 0) + sum_list (map worker_weight (rn_workers s))"

lemma worker_weight_nonneg: "0 \<le> sum_list (map worker_weight ws)"
proof -
  have "0 \<le> worker_weight p" for p by (cases p) simp_all
  then show ?thesis by (intro sum_list_nonneg) auto
qed

lemma stop_weight_nonneg: "0 \<le> stop_weight n s"
proof -
  have "0 \<le> runner_weight p" for p by (cases p) simp_all
  with worker_weight_nonneg show ?thesis by (simp add: stop_weight_def split: seeker_phase.splits)
qed

lemma weight_to_phase:
  "at_phase s i p \<Longrightarrow> stop_weight n (to_phase i q s) = stop_weight n s - worker_weight p + worker_weight q"
  by (simp add: stop_weight_def to_phase_def at_phase_def sum_list_map_update)

lemma weight_exit: "at_phase s i p \<Longrightarrow> stop_weight n (worker_exit i s) = stop_weight n s - worker_weight p"
  using weight_to_phase[of "s\<lparr>rn_wg := rn_wg s - 1\<rparr>" i p n Exited]
  by (simp add: worker_exit_def at_phase_def stop_weight_def)

lemma weight_frame [simp]:
  "stop_weight n (s\<lparr>rn_wg := w\<rparr>) = stop_weight n s" "stop_weight n (s\<lparr>sk_events := e\<rparr>) = stop_weight n s"
  "stop_weight n (s\<lparr>sk_stops := st\<rparr>) = stop_weight n s" "stop_weight n (s\<lparr>sk_dst := it\<rparr>) = stop_weight n s"
  "at_phase (s\<lparr>rn_wg := w\<rparr>) i p = at_phase s i p" "at_phase (s\<lparr>sk_events := e\<rparr>) i p = at_phase s i p"
  by (simp_all add: stop_weight_def at_phase_def)

definition draining :: "seeker \<Rightarrow> bool" where
  "draining s \<longleftrightarrow> seek_inv s \<and> sk_main s \<in> {SRunner, SWait}"

lemma drainingD:
  "draining s \<Longrightarrow> sk_running s \<and> it_stopped (sk_dst s) \<and> it_stopped (sk_recv s) \<and> rn_main s \<noteq> RNone"
  unfolding draining_def by (elim conjE insertE emptyE) (simp_all add: seek_inv_def)

lemma env_weight: "env_step s t \<Longrightarrow> draining s \<Longrightarrow> stop_weight n t \<le> stop_weight n s"
proof (induction rule: env_step.induct)
  case (start_call s)
  then show ?case using drainingD[of s] by (simp add: seeker_Start_def)
next
  case (register_call s f)
  then show ?case using drainingD[of s] by (simp add: RegisterFilter_def)
qed (simp_all add: weight_to_phase)

lemma runner_step_weight: "runner_step n s t \<Longrightarrow> draining s \<Longrightarrow> stop_weight n t \<le> stop_weight n s"
proof (induction rule: runner_step.induct)
  case (spawn s i)
  then show ?case using weight_to_phase[of "s\<lparr>rn_wg := rn_wg s + 1\<rparr>" i Pending n Receiving] by simp
next
  case (next_item s i)
  then show ?case using weight_to_phase[of "s\<lparr>sk_events := ELoop\<rparr>" i Receiving n Got] by simp
next
  case (stopped_check s i)
  then show ?case using drainingD[of s] by (simp add: weight_exit)
next
  case (add_worker s)
  then show ?case by (simp add: stop_weight_def of_nat_diff)
qed (simp add: weight_to_phase weight_exit; fail | simp add: stop_weight_def)+

lemma seeker_step_weight: "seeker_step s t \<Longrightarrow> draining s \<Longrightarrow> stop_weight n t \<le> stop_weight n s"
  by (induction rule: seeker_step.induct) (simp_all add: stop_weight_def draining_def)

lemma active_worker:
  assumes "0 < sum_list (map active (rn_workers s))"
  obtains i p where "at_phase s i p" "p \<in> {Receiving, Got, Working, Pushing}"
proof -
  have "\<exists>p \<in> set (rn_workers s). active p \<noteq> 0"
  proof (rule ccontr)
    assume "\<not> ?thesis"
    then have "map active (rn_workers s) = map (\<lambda>_. 0) (rn_workers s)" by simp
    then show False using assms by (metis less_irrefl sum_list_0)
  qed
  then show thesis using that by (auto simp: in_set_conv_nth at_phase_def active_def split: if_splits)
qed

lemma worker_progress:
  assumes "draining s" "at_phase s i p" "p \<in> {Receiving, Got, Working, Pushing}"
  shows "\<exists>t. sys_step n s t \<and> stop_weight n t < stop_weight n s"
proof -
  note d = drainingD[OF assms(1)]
  from assms(3) consider "p = Receiving" | "p = Got" | "p = Working" | "p = Pushing" by blast
  then show ?thesis
  proof cases
    case 1
    with assms d show ?thesis by (intro exI[of _ "to_phase i Got s"]) (simp add: runner_step.next_closed weight_to_phase sys_step_def)
  next
    case 2
    with assms d show ?thesis using runner_step.stopped_check[of s i n] by (intro exI[of _ "worker_exit i s"]) (simp add: weight_exit sys_step_def)
  next
    case 3
    with assms show ?thesis by (intro exI[of _ "to_phase i Receiving s"]) (simp add: runner_step.work_failed weight_to_phase sys_step_def)
  next
    case 4
    with assms d show ?thesis by (intro exI[of _ "to_phase i Receiving s"]) (simp add: runner_step.push_closed weight_to_phase sys_step_def)
  qed
qed

lemma runner_progress:
  assumes "draining s" "rn_main s \<notin> {RDone, RCancelled}"
  shows "\<exists>t. sys_step n s t \<and> stop_weight n t < stop_weight n s"
proof (cases "rn_main s")
  case RAdding
  then show ?thesis
    using runner_step.add_worker[of s n] runner_step.workers_added[of s n]
    by (cases "length (rn_workers s) < n") (force simp: stop_weight_def sys_step_def)+
next
  case RWaiting
  then have "sk_main s = SRunner" using assms(1) by (auto simp: draining_def seek_inv_def)
  then show ?thesis using RWaiting seeker_step.cleanup_signal[of s] by (force simp: stop_weight_def sys_step_def)
next
  case RTaken
  then show ?thesis using runner_step.runner_close[of s n] by (force simp: stop_weight_def sys_step_def)
next
  case RClosed
  then show ?thesis using runner_step.runner_done[of s n] by (force simp: stop_weight_def sys_step_def)
qed (use assms drainingD in auto)

lemma drain_progress:
  assumes "draining s"
  shows "\<exists>t. sys_step n s t \<and> stop_weight n t < stop_weight n s"
proof (cases "rn_main s \<in> {RDone, RCancelled}")
  case True
  then have m: "sk_main s = SWait" "rn_wg s = sum_list (map active (rn_workers s))"
    using assms by (auto simp: draining_def seek_inv_def)
  show ?thesis
  proof (cases "rn_wg s = 0")
    case True
    then show ?thesis using m seeker_step.cleanup_waited[of s] by (force simp: stop_weight_def sys_step_def)
  next
    case False
    then have "0 < sum_list (map active (rn_workers s))" using m active_nonneg(2)[of "rn_workers s"] by simp
    then show ?thesis using active_worker worker_progress[OF assms] by metis
  qed
qed (rule runner_progress[OF assms])

text \<open>A run of a seeker with one thread that is started and stopped, given by its states.\<close>

definition ex_life :: "nat \<Rightarrow> seeker" where
  "ex_life k = fold (\<lambda>f. f) (take k [
     seeker_Start,
     \<lambda>s. s\<lparr>rn_workers := rn_workers s @ [Pending]\<rparr>,
     \<lambda>s. s\<lparr>rn_main := RWaiting\<rparr>,
     \<lambda>s. s\<lparr>sk_stops := sk_stops s @ [StopSelect]\<rparr>,
     \<lambda>s. s\<lparr>sk_stops := [] @ StopWait # [], sk_main := STaken\<rparr>,
     \<lambda>s. s\<lparr>sk_main := SCancel, sk_done := sk_done s + 1\<rparr>,
     \<lambda>s. s\<lparr>sk_main := SDst, sk_cancelled := True\<rparr>,
     \<lambda>s. s\<lparr>sk_main := SRecv, sk_dst := it_Stop (sk_dst s)\<rparr>,
     \<lambda>s. s\<lparr>sk_main := SRunner, sk_recv := it_Stop (sk_recv s)\<rparr>,
     \<lambda>s. s\<lparr>sk_main := SWait, rn_main := RTaken\<rparr>,
     \<lambda>s. s\<lparr>rn_main := RClosed, rn_done := rn_done s + 1\<rparr>,
     \<lambda>s. s\<lparr>rn_main := RDone, rn_wg := rn_wg s - 1\<rparr>,
     \<lambda>s. s\<lparr>sk_main := SEnd, sk_wg := sk_wg s - 1\<rparr>,
     \<lambda>s. s\<lparr>sk_stops := [] @ StopReturned True # []\<rparr>])
     (NewSeeker None)"

lemmas ex_life_simps = ex_life_def NewSeeker_def newIterator_def seeker_Start_def runner_Start_def it_Stop_def

lemma ex_life_step:
  "env_step (ex_life 0) (ex_life 1)"
  "sys_step 1 (ex_life 1) (ex_life 2)"
  "sys_step 1 (ex_life 2) (ex_life 3)"
  "env_step (ex_life 3) (ex_life 4)"
  "sys_step 1 (ex_life 4) (ex_life 5)"
  "sys_step 1 (ex_life 5) (ex_life 6)"
  "sys_step 1 (ex_life 6) (ex_life 7)"
  "sys_step 1 (ex_life 7) (ex_life 8)"
  "sys_step 1 (ex_life 8) (ex_life 9)"
  "sys_step 1 (ex_life 9) (ex_life 10)"
  "sys_step 1 (ex_life 10) (ex_life 11)"
  "sys_step 1 (ex_life 11) (ex_life 12)"
  "sys_step 1 (ex_life 12) (ex_life 13)"
  "sys_step 1 (ex_life 13) (ex_life 14)"
proof -
  show "env_step (ex_life 0) (ex_life 1)" using env_step.start_call[of "ex_life 0"] by (simp add: ex_life_simps)
  show "sys_step 1 (ex_life 1) (ex_life 2)" using runner_step.add_worker[of "ex_life 1" 1] by (simp add: ex_life_simps sys_step_def)
  show "sys_step 1 (ex_life 2) (ex_life 3)" using runner_step.workers_added[of "ex_life 2" 1] by (simp add: ex_life_simps sys_step_def)
  show "env_step (ex_life 3) (ex_life 4)" using env_step.stop_call[of "ex_life 3"] by (simp add: ex_life_simps)
  show "sys_step 1 (ex_life 4) (ex_life 5)" using seeker_step.stop_signal[of "ex_life 4" "[]" "[]"] by (simp add: ex_life_simps sys_step_def)
  show "sys_step 1 (ex_life 5) (ex_life 6)" using seeker_step.seeker_close[of "ex_life 5"] by (simp add: ex_life_simps sys_step_def)
  show "sys_step 1 (ex_life 6) (ex_life 7)" using seeker_step.seeker_cancel[of "ex_life 6"] by (simp add: ex_life_simps sys_step_def)
  show "sys_step 1 (ex_life 7) (ex_life 8)" using seeker_step.cleanup_dst[of "ex_life 7"] by (simp add: ex_life_simps sys_step_def)
  show "sys_step 1 (ex_life 8) (ex_life 9)" using seeker_step.cleanup_recv[of "ex_life 8"] by (simp add: ex_life_simps sys_step_def)
  show "sys_step 1 (ex_life 9) (ex_life 10)" using seeker_step.cleanup_signal[of "ex_life 9"] by (simp add: ex_life_simps sys_step_def)
  show "sys_step 1 (ex_life 10) (ex_life 11)" using runner_step.runner_close[of "ex_life 10" 1] by (simp add: ex_life_simps sys_step_def)
  show "sys_step 1 (ex_life 11) (ex_life 12)" using runner_step.runner_done[of "ex_life 11" 1] by (simp add: ex_life_simps sys_step_def)
  show "sys_step 1 (ex_life 12) (ex_life 13)" using seeker_step.cleanup_waited[of "ex_life 12"] by (simp add: ex_life_simps sys_step_def)
  show "sys_step 1 (ex_life 13) (ex_life 14)" using seeker_step.stop_waited[of "ex_life 13" "[]" "[]"] by (simp add: ex_life_simps sys_step_def)
qed

lemma reach_env: "reach I (seek_step n) s \<Longrightarrow> env_step s t \<Longrightarrow> reach I (seek_step n) t"
  by (erule reach_step) (simp add: seek_step_def)

lemma reach_sys: "reach I (seek_step n) s \<Longrightarrow> sys_step n s t \<Longrightarrow> reach I (seek_step n) t"
  by (erule reach_step) (simp add: seek_step_def)

lemma ex_life_reach: "reach (\<lambda>s. \<exists>f. s = NewSeeker f) (seek_step 1) (ex_life 9)" "reach (\<lambda>s. \<exists>f. s = NewSeeker f) (seek_step 1) (ex_life 14)"
proof -
  have "reach (\<lambda>s. \<exists>f. s = NewSeeker f) (seek_step 1) (ex_life 0)" by (rule reach_init) (auto simp: ex_life_def)
  then show r: "reach (\<lambda>s. \<exists>f. s = NewSeeker f) (seek_step 1) (ex_life 9)"
    by (intro reach_env[OF _ ex_life_step(1)] reach_sys[OF _ ex_life_step(2)] reach_sys[OF _ ex_life_step(3)] reach_env[OF _ ex_life_step(4)] reach_sys[OF _ ex_life_step(5)]
      reach_sys[OF _ ex_life_step(6)] reach_sys[OF _ ex_life_step(7)] reach_sys[OF _ ex_life_step(8)] reach_sys[OF _ ex_life_step(9)])
  show "reach (\<lambda>s. \<exists>f. s = NewSeeker f) (seek_step 1) (ex_life 14)"
    by (intro reach_sys[OF _ ex_life_step(10)] reach_sys[OF _ ex_life_step(11)] reach_sys[OF _ ex_life_step(12)] reach_sys[OF _ ex_life_step(13)] reach_sys[OF _ ex_life_step(14)] r)
qed

section \<open>Properties\<close>

text \<open>C37: Whatever the order of calls, events and goroutines, no channel of seeker and runner is closed twice and no wait
  group falls below zero, a running seeker has a filter; and when a \<open>Stop\<close> that waited has returned, both iterators are stopped, the runner has ended and no
  worker is processing or delivering an item, then or later.\<close>

theorem stop_clean:
  assumes "reach (\<lambda>s. \<exists>f. s = NewSeeker f) (seek_step n) s"
  shows "sk_done s \<le> 1 \<and> rn_done s \<le> 1 \<and> it_closes (sk_dst s) \<le> 1 \<and> it_closes (sk_recv s) \<le> 1 \<and> 0 \<le> sk_wg s \<and> 0 \<le> rn_wg s
    \<and> (sk_running s \<longrightarrow> sk_filter s \<noteq> None)
    \<and> (StopReturned True \<in> set (sk_stops s) \<longrightarrow> it_stopped (sk_dst s) \<and> it_stopped (sk_recv s) \<and> rn_done s = 1
         \<and> set (rn_workers s) \<inter> {Working, Pushing} = {})"
  using seeking_life.reach_inv[OF assms] active_nonneg(2)[of "rn_workers s"]
  by (auto simp: seek_inv_def iter_ok_def)

theorem stop_clean_witness: "it_stopped (sk_recv (ex_life 14)) \<and> set (rn_workers (ex_life 14)) \<inter> {Working, Pushing} = {}"
proof -
  have "StopReturned True \<in> set (sk_stops (ex_life 14))" by (simp add: ex_life_simps)
  with stop_clean[OF ex_life_reach(2)] show ?thesis by blast
qed

text \<open>C38: \<open>Stop\<close> ends: once its signal is taken, \<open>cleanup\<close> reaches the stop of the runner by steps that never block; from
  there on some goroutine can always take a step that lowers \<open>stop_weight\<close>, which no step of any goroutine or caller
  raises, and which cannot fall below zero, until the wait group of the seeker is released.\<close>

theorem stop_returns:
  assumes "reach (\<lambda>s. \<exists>f. s = NewSeeker f) (seek_step n) s"
  shows "(sk_main s = STaken \<longrightarrow> (\<exists>t. sys_step n s t \<and> sk_main t = SCancel))
    \<and> (sk_main s = SCancel \<longrightarrow> (\<exists>t. sys_step n s t \<and> sk_main t = SDst))
    \<and> (sk_main s = SDst \<longrightarrow> (\<exists>t. sys_step n s t \<and> sk_main t = SRecv))
    \<and> (sk_main s = SRecv \<longrightarrow> (\<exists>t. sys_step n s t \<and> sk_main t = SRunner))
    \<and> (sk_main s \<in> {SRunner, SWait} \<longrightarrow>
         0 \<le> stop_weight n s \<and> (\<exists>t. sys_step n s t \<and> stop_weight n t < stop_weight n s)
         \<and> (\<forall>t. seek_step n s t \<longrightarrow> stop_weight n t \<le> stop_weight n s))
    \<and> (sk_main s = SEnd \<longrightarrow> sk_wg s = 0)"
proof -
  have i: "seek_inv s" by (rule seeking_life.reach_inv[OF assms])
  then have "draining s" if "sk_main s \<in> {SRunner, SWait}" using that by (simp add: draining_def)
  then have w: "sk_main s \<in> {SRunner, SWait} \<longrightarrow>
         0 \<le> stop_weight n s \<and> (\<exists>t. sys_step n s t \<and> stop_weight n t < stop_weight n s)
         \<and> (\<forall>t. seek_step n s t \<longrightarrow> stop_weight n t \<le> stop_weight n s)"
    using drain_progress env_weight runner_step_weight seeker_step_weight stop_weight_nonneg
    unfolding seek_step_def sys_step_def by blast
  have "sk_main s = STaken \<longrightarrow> (\<exists>t. sys_step n s t \<and> sk_main t = SCancel)" using seeker_step.seeker_close[of s] by (force simp: sys_step_def)
  moreover have "sk_main s = SCancel \<longrightarrow> (\<exists>t. sys_step n s t \<and> sk_main t = SDst)" using seeker_step.seeker_cancel[of s] by (force simp: sys_step_def)
  moreover have "sk_main s = SDst \<longrightarrow> (\<exists>t. sys_step n s t \<and> sk_main t = SRecv)" using seeker_step.cleanup_dst[of s] by (force simp: sys_step_def)
  moreover have "sk_main s = SRecv \<longrightarrow> (\<exists>t. sys_step n s t \<and> sk_main t = SRunner)" using seeker_step.cleanup_recv[of s] by (force simp: sys_step_def)
  ultimately show ?thesis using w i by (simp add: seek_inv_def)
qed

theorem stop_returns_witness:
  "0 \<le> stop_weight 1 (ex_life 9) \<and> (\<exists>t. sys_step 1 (ex_life 9) t \<and> stop_weight 1 t < stop_weight 1 (ex_life 9))"
proof -
  have "sk_main (ex_life 9) = SRunner" by (simp add: ex_life_simps)
  with stop_returns[OF ex_life_reach(1)] show ?thesis by blast
qed

end
