(* ===== verification/Crawl_Run.thy ===== *)
theory Crawl_Run
  imports Lifecycle
begin

text \<open>
  The goroutines of \<open>Crawl\<close> (\<open>crawler/crawler/crawler.go\<close>): the consumer that owns the seeker, the watcher of the context, the
  loop over the known peers, and \<open>Wait\<close>. The seeker is the one of \<open>Lifecycle\<close>; its output iterator is stopped by the watcher
  and once more by its own cleanup. Shown: the composition only does what \<open>Lifecycle\<close> allows, and what holds when \<open>Wait\<close> and
  the consumer have returned.
\<close>

section \<open>Goroutines\<close>

text \<open>The watcher: not started, at \<open><-ctx.Done()\<close>, before \<open>wg.Done\<close>, ended. The consumer: before \<open>NewSeeker\<close>, in \<open>Next\<close>, between \<open>Next\<close>
  and \<open>Stopped\<close>, in the deferred \<open>Stop\<close>, ended. The loop: in \<open>select\<close>, in \<open>Push\<close>, then its deferred calls in order.\<close>

datatype watch_phase = WNone | WWait | WStop | WDone

datatype consumer_phase = CStart | CNext | CGot | CStop | CEnd

datatype loop_phase = LSelect | LPush | LRunner | LIter | LEnd

record crawl_run =
  cw_ctx :: bool
  cw_seek :: seeker
  cw_watch :: watch_phase
  cw_consumer :: consumer_phase
  cw_loop :: loop_phase
  cw_it :: iterator
  cw_wg :: int
  cw_taken :: nat
  cw_waited :: bool

definition Crawl :: "(enode \<Rightarrow> bool) \<Rightarrow> crawl_run" where
  "Crawl f = \<lparr>cw_ctx = False, cw_seek = NewSeeker (Some f), cw_watch = WNone, cw_consumer = CStart, cw_loop = LSelect,
     cw_it = newIterator, cw_wg = 1, cw_taken = 0, cw_waited = False\<rparr>"

inductive crawl_step :: "nat \<Rightarrow> crawl_run \<Rightarrow> crawl_run \<Rightarrow> bool" for n :: nat where
  cancel: "crawl_step n s (s\<lparr>cw_ctx := True\<rparr>)"
| consumer_start: "cw_consumer s = CStart \<Longrightarrow>
    crawl_step n s (s\<lparr>cw_seek := seeker_Start (cw_seek s), cw_watch := WWait, cw_consumer := CNext\<rparr>)"
| seeker_sys: "sys_step n (cw_seek s) k \<Longrightarrow> crawl_step n s (s\<lparr>cw_seek := k\<rparr>)"
| node_event: "sk_events (cw_seek s) = ELoop \<Longrightarrow> crawl_step n s (s\<lparr>cw_seek := (cw_seek s)\<lparr>sk_events := EPush\<rparr>\<rparr>)"
| consumer_recv: "cw_consumer s = CNext \<Longrightarrow> at_phase (cw_seek s) i Pushing \<Longrightarrow>
    crawl_step n s (s\<lparr>cw_seek := to_phase i Receiving (cw_seek s), cw_consumer := CGot\<rparr>)"
| consumer_closed: "cw_consumer s = CNext \<Longrightarrow> it_stopped (sk_dst (cw_seek s)) \<Longrightarrow> crawl_step n s (s\<lparr>cw_consumer := CGot\<rparr>)"
| consumer_break: "cw_consumer s = CGot \<Longrightarrow> it_stopped (sk_dst (cw_seek s)) \<Longrightarrow>
    crawl_step n s (s\<lparr>cw_consumer := CStop, cw_seek := (cw_seek s)\<lparr>sk_stops := sk_stops (cw_seek s) @ [StopSelect]\<rparr>\<rparr>)"
| consumer_node: "cw_consumer s = CGot \<Longrightarrow> \<not> it_stopped (sk_dst (cw_seek s)) \<Longrightarrow>
    crawl_step n s (s\<lparr>cw_consumer := CNext, cw_taken := Suc (cw_taken s)\<rparr>)"
| consumer_end: "cw_consumer s = CStop \<Longrightarrow> StopReturned b \<in> set (sk_stops (cw_seek s)) \<Longrightarrow> crawl_step n s (s\<lparr>cw_consumer := CEnd\<rparr>)"
| watch_stop: "cw_watch s = WWait \<Longrightarrow> cw_ctx s \<Longrightarrow>
    crawl_step n s (s\<lparr>cw_watch := WStop, cw_seek := (cw_seek s)\<lparr>sk_dst := it_Stop (sk_dst (cw_seek s))\<rparr>\<rparr>)"
| watch_done: "cw_watch s = WStop \<Longrightarrow> crawl_step n s (s\<lparr>cw_watch := WDone, cw_wg := cw_wg s - 1\<rparr>)"
| loop_tick: "cw_loop s = LSelect \<Longrightarrow> crawl_step n s (s\<lparr>cw_loop := LPush\<rparr>)"
| loop_pushed: "cw_loop s = LPush \<Longrightarrow> crawl_step n s (s\<lparr>cw_loop := LSelect\<rparr>)"
| loop_done: "cw_loop s = LSelect \<Longrightarrow> cw_ctx s \<Longrightarrow> crawl_step n s (s\<lparr>cw_loop := LRunner\<rparr>)"
| loop_runner: "cw_loop s = LRunner \<Longrightarrow> crawl_step n s (s\<lparr>cw_loop := LIter\<rparr>)"
| loop_iter: "cw_loop s = LIter \<Longrightarrow> crawl_step n s (s\<lparr>cw_loop := LEnd, cw_it := it_Stop (cw_it s)\<rparr>)"
| Wait: "cw_wg s = 0 \<Longrightarrow> crawl_step n s (s\<lparr>cw_waited := True\<rparr>)"

section \<open>The invariant\<close>

text \<open>The consumer is the only caller of \<open>Stop\<close>: how far its call has come.\<close>

definition one_stop :: "seeker \<Rightarrow> bool" where
  "one_stop k \<longleftrightarrow> sk_stops k \<in> {[], [StopSelect]} \<and> sk_done k = 0 \<and> sk_main k \<in> {SNone, SWaiting}
     \<or> sk_stops k \<in> {[StopWait], [StopReturned True]}"

definition seeking :: "nat \<Rightarrow> seeker \<Rightarrow> bool" where
  "seeking n k \<longleftrightarrow> reach (\<lambda>k. \<exists>f. k = NewSeeker f) (seek_step n) k"

definition crawl_inv :: "nat \<Rightarrow> crawl_run \<Rightarrow> bool" where
  "crawl_inv n s \<longleftrightarrow> seeking n (cw_seek s) \<and> one_stop (cw_seek s)
     \<and> (cw_consumer s \<in> {CStart, CNext, CGot} \<longrightarrow> sk_stops (cw_seek s) = [])
     \<and> (cw_consumer s = CEnd \<longrightarrow> sk_stops (cw_seek s) = [StopReturned True])
     \<and> (cw_watch s \<in> {WStop, WDone} \<longrightarrow> cw_ctx s \<and> it_stopped (sk_dst (cw_seek s)))
     \<and> (it_stopped (sk_dst (cw_seek s)) \<longrightarrow> cw_ctx s) \<and> (sk_stops (cw_seek s) \<noteq> [] \<longrightarrow> it_stopped (sk_dst (cw_seek s)))
     \<and> cw_wg s = (if cw_watch s = WDone then 0 else 1) \<and> (cw_waited s \<longrightarrow> cw_watch s = WDone)
     \<and> (cw_consumer s = CStart \<longrightarrow> cw_watch s = WNone)
     \<and> iter_ok (cw_it s) \<and> (it_stopped (cw_it s) \<longleftrightarrow> cw_loop s = LEnd) \<and> (cw_loop s \<in> {LRunner, LIter, LEnd} \<longrightarrow> cw_ctx s)"

lemma runner_frame: "runner_step n k k' \<Longrightarrow> sk_stops k' = sk_stops k \<and> sk_done k' = sk_done k \<and> sk_main k' = sk_main k \<and> sk_dst k' = sk_dst k"
  by (induction rule: runner_step.induct) (auto simp: to_phase_def worker_exit_def)

lemma one_stop_split:
  "one_stop k \<Longrightarrow> sk_stops k = xs @ a # ys \<Longrightarrow> xs = [] \<and> ys = [] \<and> (a = StopSelect \<longrightarrow> sk_done k = 0)"
  unfolding one_stop_def by (cases xs; cases ys) auto

lemma seeker_stops:
  assumes "seeker_step k k'" "one_stop k"
  shows "one_stop k' \<and> (sk_stops k' = [] \<longleftrightarrow> sk_stops k = []) \<and> (sk_stops k = [StopReturned True] \<longrightarrow> sk_stops k' = [StopReturned True])
     \<and> (sk_dst k' = sk_dst k \<or> sk_stops k \<noteq> [] \<and> it_stopped (sk_dst k'))"
  using assms(1)
proof cases
  case (stop_signal xs ys)
  then show ?thesis using one_stop_split[OF assms(2) stop_signal(2)] by (simp add: one_stop_def)
next
  case (stop_seen xs ys)
  then show ?thesis using one_stop_split[OF assms(2) stop_seen(2)] by simp
next
  case (stop_waited xs ys)
  then show ?thesis using one_stop_split[OF assms(2) stop_waited(2)] by (simp add: one_stop_def)
qed (use assms(2) in \<open>auto simp: one_stop_def\<close>)

lemma sys_frame:
  assumes "sys_step n k k'" "one_stop k"
  shows "one_stop k'" and "sk_stops k' = [] \<longleftrightarrow> sk_stops k = []" and "sk_stops k = [StopReturned True] \<Longrightarrow> sk_stops k' = [StopReturned True]"
    and "sk_dst k' = sk_dst k \<or> sk_stops k \<noteq> [] \<and> it_stopped (sk_dst k')"
proof -
  have "one_stop k' \<and> (sk_stops k' = [] \<longleftrightarrow> sk_stops k = []) \<and> (sk_stops k = [StopReturned True] \<longrightarrow> sk_stops k' = [StopReturned True])
     \<and> (sk_dst k' = sk_dst k \<or> sk_stops k \<noteq> [] \<and> it_stopped (sk_dst k'))"
    using assms(1) unfolding sys_step_def
  proof
    assume "runner_step n k k'"
    then show ?thesis using runner_frame[of n k k'] assms(2) by (simp add: one_stop_def)
  qed (use seeker_stops assms(2) in blast)
  then show "one_stop k'" and "sk_stops k' = [] \<longleftrightarrow> sk_stops k = []" and "sk_stops k = [StopReturned True] \<Longrightarrow> sk_stops k' = [StopReturned True]"
    and "sk_dst k' = sk_dst k \<or> sk_stops k \<noteq> [] \<and> it_stopped (sk_dst k')" by simp_all
qed

lemma seeking_step:
  "seeking n k \<Longrightarrow> sys_step n k k' \<Longrightarrow> seeking n k'" "seeking n k \<Longrightarrow> env_step k k' \<Longrightarrow> seeking n k'"
  unfolding seeking_def by (fact reach_sys, fact reach_env)

lemma crawl_invD:
  "crawl_inv n s \<Longrightarrow> seeking n (cw_seek s)" "crawl_inv n s \<Longrightarrow> one_stop (cw_seek s)"
  "crawl_inv n s \<Longrightarrow> sk_stops (cw_seek s) \<noteq> [] \<Longrightarrow> it_stopped (sk_dst (cw_seek s))"
  by (simp_all add: crawl_inv_def)

lemma crawl_inv_seeker:
  assumes "crawl_inv n s" "sys_step n (cw_seek s) k"
  shows "crawl_inv n (s\<lparr>cw_seek := k\<rparr>)"
proof -
  note f = sys_frame[OF assms(2) crawl_invD(2)[OF assms(1)]]
  have "seeking n k" by (rule seeking_step(1)[OF crawl_invD(1)[OF assms(1)] assms(2)])
  moreover have "it_stopped (sk_dst k) \<longleftrightarrow> it_stopped (sk_dst (cw_seek s))"
    using f(4) crawl_invD(3)[OF assms(1)] by auto
  ultimately show ?thesis using assms(1) f(1-3) unfolding crawl_inv_def by simp
qed

lemma crawl_inv_env: "crawl_inv n s \<Longrightarrow> env_step (cw_seek s) k \<Longrightarrow> seeking n k"
  by (rule seeking_step(2)[OF crawl_invD(1)])

lemma start_frame:
  "sk_stops (seeker_Start k) = sk_stops k" "sk_dst (seeker_Start k) = sk_dst k" "sk_done (seeker_Start k) = sk_done k"
  "sk_main (seeker_Start k) \<in> {sk_main k, SWaiting}"
  by (simp_all add: seeker_Start_def runner_Start_def)

lemma one_stop_frame [simp]:
  "one_stop (k\<lparr>sk_events := e\<rparr>) = one_stop k" "one_stop (k\<lparr>sk_dst := d\<rparr>) = one_stop k" "one_stop (to_phase i p k) = one_stop k"
  "sk_stops (to_phase i p k) = sk_stops k" "sk_dst (to_phase i p k) = sk_dst k"
  by (simp_all add: one_stop_def to_phase_def)

lemma crawl_inv_step:
  assumes i: "crawl_inv n s" and "crawl_step n s t"
  shows "crawl_inv n t"
  using assms(2)
proof cases
  case (seeker_sys k)
  then show ?thesis using crawl_inv_seeker[OF i] by simp
next
  case consumer_start
  have "seeking n (seeker_Start (cw_seek s))" by (rule crawl_inv_env[OF i env_step.start_call])
  moreover have "one_stop (cw_seek s)" "sk_stops (cw_seek s) = []" "\<not> cw_waited s" using i consumer_start(2) by (auto simp: crawl_inv_def)
  moreover from this(1,2) have "one_stop (seeker_Start (cw_seek s))" using start_frame[of "cw_seek s"] by (auto simp: one_stop_def)
  ultimately show ?thesis using i consumer_start by (simp add: crawl_inv_def start_frame)
next
  case node_event
  have "seeking n ((cw_seek s)\<lparr>sk_events := EPush\<rparr>)"
    by (rule crawl_inv_env[OF i env_step.event_seen]) (rule node_event)
  with i node_event show ?thesis by (simp add: crawl_inv_def)
next
  case (consumer_recv j)
  have "seeking n (to_phase j Receiving (cw_seek s))"
    by (rule crawl_inv_env[OF i env_step.result_read]) (rule consumer_recv)
  with i consumer_recv show ?thesis by (simp add: crawl_inv_def)
next
  case consumer_break
  have "seeking n ((cw_seek s)\<lparr>sk_stops := sk_stops (cw_seek s) @ [StopSelect]\<rparr>)"
    by (rule crawl_inv_env[OF i env_step.stop_call])
  moreover have "one_stop ((cw_seek s)\<lparr>sk_stops := sk_stops (cw_seek s) @ [StopSelect]\<rparr>)" "cw_ctx s"
    using i consumer_break by (auto simp: crawl_inv_def one_stop_def)
  ultimately show ?thesis using i consumer_break by (simp add: crawl_inv_def)
next
  case watch_stop
  have "seeking n ((cw_seek s)\<lparr>sk_dst := it_Stop (sk_dst (cw_seek s))\<rparr>)"
    by (rule crawl_inv_env[OF i env_step.output_stopped])
  with i watch_stop show ?thesis by (simp add: crawl_inv_def)
next
  case (consumer_end b)
  then have "sk_stops (cw_seek s) = [StopReturned True]" using crawl_invD(2)[OF i] by (auto simp: one_stop_def)
  with i consumer_end show ?thesis by (simp add: crawl_inv_def)
next
  case Wait
  then have "cw_watch s = WDone" using i by (simp add: crawl_inv_def split: if_splits)
  with i Wait show ?thesis by (simp add: crawl_inv_def)
qed (use i in \<open>simp_all add: crawl_inv_def\<close>)

interpretation crawl_life: inv_system "\<lambda>s. \<exists>f. s = Crawl f" "crawl_step n" "crawl_inv n"
proof
  fix s assume "\<exists>f. s = Crawl f"
  then show "crawl_inv n s"
    by (auto simp: crawl_inv_def Crawl_def one_stop_def NewSeeker_def newIterator_def iter_ok_def seeking_def intro!: reach_init)
qed (rule crawl_inv_step)

section \<open>Properties\<close>

text \<open>C39: The crawl as a whole refines the seeker's life: in every interleaving the seeker goes through states of its own system,
  so its output iterator, stopped by the watcher and by the seeker's cleanup, is closed once. The wait group never falls
  below zero and \<open>Wait\<close> returns only after the context was cancelled and the output stopped; when the consumer has returned, the
  seeker's \<open>Stop\<close> has waited, its runner has ended and no worker processes a node.\<close>

theorem crawl_refines_seeker:
  assumes "reach (\<lambda>s. \<exists>f. s = Crawl f) (crawl_step n) s"
  shows "reach (\<lambda>k. \<exists>f. k = NewSeeker f) (seek_step n) (cw_seek s)
    \<and> it_closes (sk_dst (cw_seek s)) \<le> 1 \<and> it_closes (cw_it s) \<le> 1 \<and> 0 \<le> cw_wg s
    \<and> (cw_waited s \<longrightarrow> cw_ctx s \<and> it_stopped (sk_dst (cw_seek s)))
    \<and> (cw_consumer s = CEnd \<longrightarrow> cw_ctx s \<and> it_stopped (sk_recv (cw_seek s)) \<and> rn_done (cw_seek s) = 1
         \<and> set (rn_workers (cw_seek s)) \<inter> {Working, Pushing} = {})"
proof -
  have i: "crawl_inv n s" by (rule crawl_life.reach_inv[OF assms])
  then have r: "reach (\<lambda>k. \<exists>f. k = NewSeeker f) (seek_step n) (cw_seek s)" by (simp add: crawl_inv_def seeking_def)
  have k: "seek_inv (cw_seek s)" by (rule seeking_life.reach_inv[OF r])
  have "it_closes (sk_dst (cw_seek s)) \<le> 1" "it_closes (cw_it s) \<le> 1"
    using i k by (simp_all add: crawl_inv_def seek_inv_def iter_ok_def)
  moreover have "cw_consumer s = CEnd \<longrightarrow> cw_ctx s \<and> it_stopped (sk_recv (cw_seek s)) \<and> rn_done (cw_seek s) = 1
         \<and> set (rn_workers (cw_seek s)) \<inter> {Working, Pushing} = {}"
  proof
    assume "cw_consumer s = CEnd"
    then have "sk_stops (cw_seek s) = [StopReturned True]" "cw_ctx s" using i by (simp_all add: crawl_inv_def)
    moreover from this(1) have m: "sk_main (cw_seek s) = SEnd" using k by (simp add: seek_inv_def)
    from m have "it_stopped (sk_recv (cw_seek s))" "rn_main (cw_seek s) \<in> {RDone, RCancelled}"
      "set (rn_workers (cw_seek s)) \<inter> {Working, Pushing} = {}" using k unfolding seek_inv_def by simp_all
    moreover from this(2) have "rn_done (cw_seek s) = 1" using k by (auto simp: seek_inv_def)
    ultimately show "cw_ctx s \<and> it_stopped (sk_recv (cw_seek s)) \<and> rn_done (cw_seek s) = 1
         \<and> set (rn_workers (cw_seek s)) \<inter> {Working, Pushing} = {}" by simp
  qed
  ultimately show ?thesis using i r by (simp add: crawl_inv_def)
qed

lemma crawl_reach_step: "reach I (crawl_step n) s \<Longrightarrow> crawl_step n s t \<Longrightarrow> reach I (crawl_step n) t"
  by (rule reach_step)

text \<open>\<open>Wait\<close> does not wait for the work: it can return while the consumer, the seeker and the loop still run.\<close>

definition ex_started :: crawl_run where
  "ex_started = (Crawl (\<lambda>_. True))\<lparr>cw_seek := seeker_Start (NewSeeker (Some (\<lambda>_. True))), cw_watch := WWait, cw_consumer := CNext\<rparr>"

definition ex_waited :: crawl_run where
  "ex_waited = ex_started\<lparr>cw_ctx := True, cw_seek := (cw_seek ex_started)\<lparr>sk_dst := it_Stop newIterator\<rparr>,
     cw_watch := WDone, cw_wg := 0, cw_waited := True\<rparr>"

lemma ex_waited_reach: "reach (\<lambda>s. \<exists>f. s = Crawl f) (crawl_step n) ex_waited"
proof -
  let ?I = "\<lambda>s. \<exists>f. s = Crawl f"
  have "reach ?I (crawl_step n) (Crawl (\<lambda>_. True))" by (rule reach_init) blast
  moreover have "crawl_step n (Crawl (\<lambda>_. True)) ex_started"
    using crawl_step.consumer_start[of "Crawl (\<lambda>_. True)" n] by (simp add: Crawl_def ex_started_def)
  ultimately have r: "reach ?I (crawl_step n) ex_started" by (rule crawl_reach_step)
  have "crawl_step n ex_started (ex_started\<lparr>cw_ctx := True\<rparr>)" by (rule crawl_step.cancel)
  from crawl_reach_step[OF r this]
  have r: "reach ?I (crawl_step n) (ex_started\<lparr>cw_ctx := True\<rparr>)" .
  let ?s = "ex_started\<lparr>cw_ctx := True, cw_watch := WStop, cw_seek := (cw_seek ex_started)\<lparr>sk_dst := it_Stop newIterator\<rparr>\<rparr>"
  have "crawl_step n (ex_started\<lparr>cw_ctx := True\<rparr>) ?s"
    using crawl_step.watch_stop[of "ex_started\<lparr>cw_ctx := True\<rparr>" n] by (simp add: ex_started_def NewSeeker_def start_frame)
  from crawl_reach_step[OF r this] have r: "reach ?I (crawl_step n) ?s" .
  let ?t = "?s\<lparr>cw_watch := WDone, cw_wg := 0\<rparr>"
  have "crawl_step n ?s ?t" using crawl_step.watch_done[of ?s n] by (simp add: ex_started_def Crawl_def)
  from crawl_reach_step[OF r this] have r: "reach ?I (crawl_step n) ?t" .
  have "crawl_step n ?t ex_waited" using crawl_step.Wait[of ?t n] by (simp add: ex_waited_def)
  from crawl_reach_step[OF r this] show ?thesis .
qed

lemma wait_returns_early:
  "\<exists>s. reach (\<lambda>s. \<exists>f. s = Crawl f) (crawl_step n) s \<and> cw_waited s \<and> cw_consumer s = CNext \<and> cw_loop s = LSelect
     \<and> sk_main (cw_seek s) = SWaiting"
  by (rule exI[of _ ex_waited], rule conjI[OF ex_waited_reach])
     (simp add: ex_waited_def ex_started_def Crawl_def seeker_Start_def runner_Start_def NewSeeker_def)

theorem crawl_refines_seeker_witness: "cw_ctx ex_waited \<and> it_closes (sk_dst (cw_seek ex_waited)) \<le> 1"
  using crawl_refines_seeker[OF ex_waited_reach[of 8]] by (simp add: ex_waited_def)

end
