(* ===== verification/Node_Scanner.thy ===== *)
theory Node_Scanner
  imports Scanner
begin

text \<open>
  The loop of \<open>nodeScanner.Start\<close> (\<open>scanner/scanner/nodeScanner.go\<close>) with the redis cache of
  \<open>cache.go\<close>: which announced nodes are scanned, what a finished or crashed scan does, and what reaches the
  store. Redis, \<open>enode.ParseV4\<close> and the textual form of an address are arguments; a mark in the cache expires after twelve hours.
\<close>

section \<open>net.IP.IsGlobalUnicast\<close>

text \<open>Go's standard library, on the byte slices of \<^typ>\<open>ip\<close>.\<close>

definition IsUnspecified :: "ip \<Rightarrow> bool" where
  "IsUnspecified a \<longleftrightarrow> ip_Equal a [0, 0, 0, 0] \<or> ip_Equal a (replicate 16 0)"

definition IsLoopback :: "ip \<Rightarrow> bool" where
  "IsLoopback a \<longleftrightarrow> (case To4 a of Some b \<Rightarrow> b ! 0 = 127 | None \<Rightarrow> ip_Equal a (replicate 15 0 @ [1]))"

definition IsMulticast :: "ip \<Rightarrow> bool" where
  "IsMulticast a \<longleftrightarrow>
     (case To4 a of Some b \<Rightarrow> and (b ! 0) 0xf0 = 0xe0 | None \<Rightarrow> length a = 16 \<and> a ! 0 = 0xff)"

definition IsLinkLocalUnicast :: "ip \<Rightarrow> bool" where
  "IsLinkLocalUnicast a \<longleftrightarrow>
     (case To4 a of
        Some b \<Rightarrow> b ! 0 = 169 \<and> b ! 1 = 254
      | None \<Rightarrow> length a = 16 \<and> a ! 0 = 0xfe \<and> and (a ! 1) 0xc0 = 0x80)"

definition IsGlobalUnicast :: "ip \<Rightarrow> bool" where
  "IsGlobalUnicast a \<longleftrightarrow>
     (length a = 4 \<or> length a = 16) \<and> \<not> ip_Equal a [255, 255, 255, 255] \<and> \<not> IsUnspecified a
     \<and> \<not> IsLoopback a \<and> \<not> IsMulticast a \<and> \<not> IsLinkLocalUnicast a"

section \<open>State and operations\<close>

text \<open>The code outside the repository. Commands of redis are given the time they run at; \<open>x_SetNX\<close> also the lifetime of the key (the
  value stored with it is never read). \<open>x_live u r\<close> is the set of keys that redis holds at time \<open>u\<close> when no command follows.\<close>

record 'r ns_ext =
  x_ParseV4 :: "string \<Rightarrow> string + enode"
  x_str :: "ip \<Rightarrow> string"
  x_SetNX :: "int \<Rightarrow> string \<Rightarrow> int \<Rightarrow> 'r \<Rightarrow> bool \<times> 'r"
  x_Del :: "int \<Rightarrow> string \<Rightarrow> 'r \<Rightarrow> 'r"
  x_live :: "int \<Rightarrow> 'r \<Rightarrow> string set"

record CreateScanRecordParams =
  r_Node :: string
  r_Ip :: string
  r_Ports :: "32 word list"

text \<open>\<open>n_waiting\<close>: the node whose scan the loop is handing to the controller, blocked in \<open>ScanNoWait\<close>.\<close>

record 'r nodeScanner =
  n_cache :: 'r
  n_waiting :: "(string \<times> ip) option"
  n_inflight :: "(string \<times> ip) list"
  n_store :: "CreateScanRecordParams list"

definition scan_key :: "string \<Rightarrow> string" where
  "scan_key a = ''scan.ip'' @ ''.'' @ a"

definition cacheScan :: "'r ns_ext \<Rightarrow> int \<Rightarrow> ip \<Rightarrow> 'r \<Rightarrow> bool \<times> 'r" where
  "cacheScan x now a r = x_SetNX x now (scan_key (x_str x a)) (12 * Hour) r"

definition deleteScan :: "'r ns_ext \<Rightarrow> int \<Rightarrow> ip \<Rightarrow> 'r \<Rightarrow> 'r" where
  "deleteScan x now a r = x_Del x now (scan_key (x_str x a)) r"

definition convertArray :: "u16 list \<Rightarrow> 32 word list" where
  "convertArray uints = map (\<lambda>v. ucast v) uints"

text \<open>The callback of a scan (\<open>None\<close>: the channel was closed), and one iteration of the loop on a received node: up to the call of
  \<open>ScanNoWait\<close>, and from its return on; \<open>snt\<close> is the case of its select that fires.\<close>

definition scan_callback :: "'r ns_ext \<Rightarrow> int \<Rightarrow> scannedItem option \<Rightarrow> string \<Rightarrow> ip \<Rightarrow> 'r nodeScanner \<Rightarrow> 'r nodeScanner" where
  "scan_callback x now item node a s =
     (case item of
        None \<Rightarrow> s\<lparr>n_cache := deleteScan x now a (n_cache s)\<rparr>
      | Some it \<Rightarrow> s\<lparr>n_store := n_store s @
          [\<lparr>r_Node = node, r_Ip = x_str x (si_Ip (Src it)), r_Ports = convertArray (Open it)\<rparr>]\<rparr>)"

definition on_node :: "'r ns_ext \<Rightarrow> int \<Rightarrow> string \<Rightarrow> 'r nodeScanner \<Rightarrow> 'r nodeScanner" where
  "on_node x now ENR s =
     (case x_ParseV4 x ENR of
        Inl _ \<Rightarrow> s
      | Inr n \<Rightarrow>
          let a = e_IP n in
          if \<not> IsGlobalUnicast a then s
          else let (fresh, r) = cacheScan x now a (n_cache s) in
               if \<not> fresh then s\<lparr>n_cache := r\<rparr>
               else s\<lparr>n_cache := r, n_waiting := Some (ENR, a)\<rparr>)"

definition on_sent :: "'r ns_ext \<Rightarrow> int \<Rightarrow> sent \<Rightarrow> 'r nodeScanner \<Rightarrow> 'r nodeScanner" where
  "on_sent x now snt s =
     (case n_waiting s of
        None \<Rightarrow> s
      | Some (ENR, a) \<Rightarrow>
          (case ScanNoWait snt of
             Some _ \<Rightarrow> s\<lparr>n_waiting := None, n_cache := deleteScan x now a (n_cache s)\<rparr>
           | None \<Rightarrow> s\<lparr>n_waiting := None, n_inflight := n_inflight s @ [(ENR, a)]\<rparr>))"

definition node_item :: "ip \<Rightarrow> scanItem" where
  "node_item a = \<lparr>si_Ip = a, PortStart = 22, PortEnd = of_nat MaxTcpPort\<rparr>"

definition answer_item :: "answer \<Rightarrow> scannedItem option" where
  "answer_item a = (case a of Delivered r \<Rightarrow> Some r | Cancelled \<Rightarrow> None)"

section \<open>Runs\<close>

text \<open>A run has a clock and a history of the addresses, as text: \<open>Accepted\<close> when an address gets its mark for a scan, \<open>Freed\<close> when a mark is
  deleted because the scan was refused or has crashed, \<open>Dropped\<close> when a cancelled context drops the callback of a scan.
  \<open>dial u\<close> are the outcomes of the dials of a scan that ends at time \<open>u\<close>.\<close>

datatype ns_event = Accepted string int | Freed string int | Dropped string

record 'r ns_run =
  nr_now :: int
  nr_sc :: "'r nodeScanner"
  nr_log :: "ns_event list"

definition marked :: "'r ns_ext \<Rightarrow> int \<Rightarrow> 'r nodeScanner \<Rightarrow> ns_event list" where
  "marked x now s = (case n_waiting s of None \<Rightarrow> [] | Some (_, a) \<Rightarrow> [Accepted (x_str x a) now])"

inductive ns_step :: "'r ns_ext \<Rightarrow> (int \<Rightarrow> ip \<Rightarrow> nat \<Rightarrow> err) \<Rightarrow> 'r ns_run \<Rightarrow> 'r ns_run \<Rightarrow> bool" for x dial where
  time: "nr_now R \<le> t \<Longrightarrow> ns_step x dial R (R\<lparr>nr_now := t\<rparr>)"
| recv: "n_waiting (nr_sc R) = None \<Longrightarrow> s = on_node x (nr_now R) ENR (nr_sc R) \<Longrightarrow>
    ns_step x dial R (R\<lparr>nr_sc := s, nr_log := nr_log R @ marked x (nr_now R) s\<rparr>)"
| sent: "n_waiting (nr_sc R) = Some (ENR, a) \<Longrightarrow>
    ns_step x dial R (R\<lparr>nr_sc := on_sent x (nr_now R) snt (nr_sc R),
      nr_log := nr_log R @ (if ScanNoWait snt = None then [] else [Freed (x_str x a) (nr_now R)])\<rparr>)"
| scanned: "(node, a) \<in> set (n_inflight (nr_sc R)) \<Longrightarrow> item = answer_item (run_item started lim (dial (nr_now R)) (node_item a)) \<Longrightarrow>
    ns_step x dial R (R\<lparr>nr_sc := scan_callback x (nr_now R) item node a
        ((nr_sc R)\<lparr>n_inflight := remove1 (node, a) (n_inflight (nr_sc R))\<rparr>),
      nr_log := nr_log R @ (if item = None then [Freed (x_str x a) (nr_now R)] else [])\<rparr>)"
| dropped: "(node, a) \<in> set (n_inflight (nr_sc R)) \<Longrightarrow>
    ns_step x dial R (R\<lparr>nr_sc := (nr_sc R)\<lparr>n_inflight := remove1 (node, a) (n_inflight (nr_sc R))\<rparr>, nr_log := nr_log R @ [Dropped (x_str x a)]\<rparr>)"

inductive_cases ns_stepE: "ns_step x dial R R'"

definition ns_start :: "'r ns_run \<Rightarrow> bool" where
  "ns_start R \<longleftrightarrow> n_waiting (nr_sc R) = None \<and> n_inflight (nr_sc R) = [] \<and> n_store (nr_sc R) = [] \<and> nr_log R = []"

section \<open>No address is scanned twice within twelve hours\<close>

text \<open>
  What the code relies on of redis: \<open>SET NX\<close> with a lifetime answers true only when it has set a key that was not there, and the key
  then lives for that time (false also covers a failed command); \<open>DEL\<close> removes at most its key.
\<close>

definition redis_ok :: "'r ns_ext \<Rightarrow> bool" where
  "redis_ok x \<longleftrightarrow>
     (\<forall>now k d r. (fst (x_SetNX x now k d r) \<longrightarrow> k \<notin> x_live x now r)
        \<and> (\<forall>u \<ge> now. x_live x u (snd (x_SetNX x now k d r)) = x_live x u r \<union> (if fst (x_SetNX x now k d r) \<and> u < now + d then {k} else {})))
     \<and> (\<forall>now k r. \<forall>u \<ge> now. x_live x u r - {k} \<subseteq> x_live x u (x_Del x now k r) \<and> x_live x u (x_Del x now k r) \<subseteq> x_live x u r)"

text \<open>The times of the marks of an address that were not deleted since.\<close>

definition mark_event :: "string \<Rightarrow> ns_event \<Rightarrow> int set \<Rightarrow> int set" where
  "mark_event a e T = (case e of Accepted b t \<Rightarrow> if b = a then insert t T else T | Freed b t \<Rightarrow> if b = a then {} else T | Dropped b \<Rightarrow> T)"

definition open_marks :: "string \<Rightarrow> ns_event list \<Rightarrow> int set" where
  "open_marks a L = fold (mark_event a) L {}"

definition spaced :: "ns_event list \<Rightarrow> bool" where
  "spaced L \<longleftrightarrow> (\<forall>us a t vs. L = us @ Accepted a t # vs \<longrightarrow> (\<forall>t' \<in> open_marks a us. t' + 12 * Hour \<le> t))"

fun accepted_of :: "ns_event list \<Rightarrow> string multiset" where
  "accepted_of [] = {#}"
| "accepted_of (Accepted a t # L) = add_mset a (accepted_of L)"
| "accepted_of (_ # L) = accepted_of L"

fun ended_of :: "ns_event list \<Rightarrow> string multiset" where
  "ended_of [] = {#}"
| "ended_of (Accepted a t # L) = ended_of L"
| "ended_of (Freed a t # L) = add_mset a (ended_of L)"
| "ended_of (Dropped a # L) = add_mset a (ended_of L)"

text \<open>The addresses, as text, of the scans that wait, run or are stored.\<close>

definition pending_scans :: "'r nodeScanner \<Rightarrow> (string \<times> ip) list" where
  "pending_scans s = (case n_waiting s of None \<Rightarrow> [] | Some j \<Rightarrow> [j]) @ n_inflight s"

definition record_ok :: "'r ns_ext \<Rightarrow> (int \<Rightarrow> ip \<Rightarrow> nat \<Rightarrow> err) \<Rightarrow> CreateScanRecordParams \<Rightarrow> bool" where
  "record_ok x dial rec \<longleftrightarrow>
     (\<exists>u a. r_Ip rec = x_str x a \<and> IsGlobalUnicast a \<and>
        (\<forall>p. 22 \<le> p \<and> p < MaxTcpPort \<longrightarrow> (int p \<in> set (map sint (r_Ports rec)) \<longleftrightarrow> dial u a p = None)))"

text \<open>A mark that was not deleted is in the cache for its lifetime.\<close>

definition marks_live :: "'r ns_ext \<Rightarrow> int \<Rightarrow> ns_event list \<Rightarrow> 'r \<Rightarrow> bool" where
  "marks_live x now L r \<longleftrightarrow> (\<forall>a t u. t \<in> open_marks a L \<and> now \<le> u \<and> u < t + 12 * Hour \<longrightarrow> scan_key a \<in> x_live x u r)"

definition ns_inv :: "'r ns_ext \<Rightarrow> (int \<Rightarrow> ip \<Rightarrow> nat \<Rightarrow> err) \<Rightarrow> 'r ns_run \<Rightarrow> bool" where
  "ns_inv x dial R \<longleftrightarrow> spaced (nr_log R)
     \<and> marks_live x (nr_now R) (nr_log R) (n_cache (nr_sc R))
     \<and> accepted_of (nr_log R) = image_mset (\<lambda>j. x_str x (snd j)) (mset (pending_scans (nr_sc R))) + image_mset r_Ip (mset (n_store (nr_sc R)))
         + ended_of (nr_log R)
     \<and> list_all (\<lambda>j. IsGlobalUnicast (snd j)) (pending_scans (nr_sc R)) \<and> list_all (record_ok x dial) (n_store (nr_sc R))"

lemma scan_key_inj [simp]: "scan_key a = scan_key b \<longleftrightarrow> a = b"
  by (simp add: scan_key_def)

lemma sint_port: "sint (ucast (v :: u16) :: 32 word) = int (unat v)"
proof -
  have "uint v < 2 ^ LENGTH(16)" by (rule unsigned_less)
  then have b: "uint v < 65536" by simp
  have "uint (ucast v :: 32 word) = uint v"
    unfolding unsigned_ucast_eq by (rule take_bit_int_eq_self) (use b in simp_all)
  moreover have "signed_take_bit 31 (uint v) = uint v"
    by (rule signed_take_bit_int_eq_self) (use b in \<open>simp_all add: order_trans[OF _ uint_ge_0]\<close>)
  ultimately show ?thesis by (simp add: sint_uint)
qed

lemma convertArray_sint: "map sint (convertArray us) = map (\<lambda>v. int (unat v)) us"
  by (simp add: convertArray_def sint_port)

lemma unat_MaxTcpPort [simp]: "unat (of_nat MaxTcpPort :: u16) = MaxTcpPort"
  by (simp add: MaxTcpPort_def)

lemma record_ok_delivered:
  assumes "run_item now lim (dial u) (node_item a) = Delivered r" and "IsGlobalUnicast a"
  shows "record_ok x dial \<lparr>r_Node = node, r_Ip = x_str x (si_Ip (Src r)), r_Ports = convertArray (Open r)\<rparr>"
proof -
  have src: "si_Ip (Src r) = a" using Delivered_open(1)[OF assms(1)] by (simp add: node_item_def)
  have "int p \<in> set (map sint (convertArray (Open r))) \<longleftrightarrow> dial u a p = None" if p: "22 \<le> p" "p < MaxTcpPort" for p
  proof -
    have u: "unat (of_nat p :: u16) = p" using p by (simp add: unat_of_nat MaxTcpPort_def)
    have "int p \<in> set (map sint (convertArray (Open r))) \<longleftrightarrow> (\<exists>v \<in> set (Open r). p = unat v)"
      unfolding convertArray_sint by (auto simp: of_nat_eq_iff simp del: of_nat_unat)
    also have "\<dots> \<longleftrightarrow> of_nat p \<in> set (Open r)" using u by (metis of_nat_unat_id)
    also have "\<dots> \<longleftrightarrow> dial u a p = None"
      unfolding Delivered_open(2)[OF assms(1)] using p u by (auto simp: node_item_def scanned_to_def)
    finally show ?thesis .
  qed
  then show ?thesis unfolding record_ok_def using assms(2) src by auto
qed

text \<open>The history grows at its end.\<close>

lemma open_marks_snoc [simp]: "open_marks a (L @ [e]) = mark_event a e (open_marks a L)"
  by (simp add: open_marks_def)

lemma open_marks_Nil [simp]: "open_marks a [] = {}"
  by (simp add: open_marks_def)

lemma spaced_snoc: "spaced (L @ [e]) \<longleftrightarrow> spaced L \<and> (\<forall>a t. e = Accepted a t \<longrightarrow> (\<forall>t' \<in> open_marks a L. t' + 12 * Hour \<le> t))"
proof -
  have "L @ [e] = us @ x # vs \<longleftrightarrow> vs = [] \<and> us = L \<and> e = x \<or> (\<exists>ws. vs = ws @ [e] \<and> L = us @ x # ws)" for us x vs
    by (cases vs rule: rev_cases) auto
  then show ?thesis unfolding spaced_def by metis
qed

lemma accepted_of_append [simp]: "accepted_of (K @ L) = accepted_of K + accepted_of L"
  by (induction K rule: accepted_of.induct) auto

lemma ended_of_append [simp]: "ended_of (K @ L) = ended_of K + ended_of L"
  by (induction K rule: ended_of.induct) auto

lemma open_marks_kept: "\<forall>t. Freed a t \<notin> set vs \<Longrightarrow> open_marks a us \<subseteq> open_marks a (us @ vs)"
proof (induction vs rule: rev_induct)
  case (snoc e vs)
  then have "open_marks a us \<subseteq> open_marks a (us @ vs)" "\<forall>t. e \<noteq> Freed a t" by auto
  then show ?case by (auto simp: mark_event_def simp flip: append_assoc split: ns_event.splits)
qed simp

lemma spaced_twice:
  assumes "spaced L" and "L = us @ Accepted a t # vs @ Accepted a t' # ws" and "\<forall>u. Freed a u \<notin> set vs"
  shows "t + 12 * Hour \<le> t'"
proof -
  have "t \<in> open_marks a ((us @ [Accepted a t]) @ vs)" using open_marks_kept[OF assms(3), of "us @ [Accepted a t]"] by (auto simp: mark_event_def)
  moreover have "L = ((us @ [Accepted a t]) @ vs) @ Accepted a t' # ws" using assms(2) by simp
  ultimately show ?thesis using assms(1) unfolding spaced_def by blast
qed

section \<open>The steps of a run\<close>

lemma redis_SetNX:
  assumes "redis_ok x" and "cacheScan x now a r = (fresh, r')"
  shows "fresh \<Longrightarrow> scan_key (x_str x a) \<notin> x_live x now r"
    and "now \<le> u \<Longrightarrow> x_live x u r' = x_live x u r \<union> (if fresh \<and> u < now + 12 * Hour then {scan_key (x_str x a)} else {})"
  using assms unfolding redis_ok_def cacheScan_def by (metis fst_conv snd_conv)+

lemma redis_Del:
  assumes "redis_ok x" and "now \<le> u"
  shows "x_live x u r - {scan_key (x_str x a)} \<subseteq> x_live x u (deleteScan x now a r)"
  using assms unfolding redis_ok_def deleteScan_def by blast

lemma ns_inv_time: "ns_inv x dial R \<Longrightarrow> nr_now R \<le> t \<Longrightarrow> ns_inv x dial (R\<lparr>nr_now := t\<rparr>)"
  by (auto simp: ns_inv_def marks_live_def)

lemma ns_inv_recv:
  assumes inv: "ns_inv x dial R" and redis: "redis_ok x" and w: "n_waiting (nr_sc R) = None" and s: "s = on_node x (nr_now R) ENR (nr_sc R)"
  shows "ns_inv x dial (R\<lparr>nr_sc := s, nr_log := nr_log R @ marked x (nr_now R) s\<rparr>)"
proof (cases "x_ParseV4 x ENR")
  case (Inr n)
  define a where "a = e_IP n"
  obtain fresh r where c: "cacheScan x (nr_now R) a (n_cache (nr_sc R)) = (fresh, r)" by fastforce
  note live = redis_SetNX[OF redis c]
  have step: "s = (if \<not> IsGlobalUnicast a then nr_sc R else if \<not> fresh then (nr_sc R)\<lparr>n_cache := r\<rparr>
      else (nr_sc R)\<lparr>n_cache := r, n_waiting := Some (ENR, a)\<rparr>)"
    using Inr c s by (simp add: on_node_def a_def Let_def)
  show ?thesis
  proof (cases "IsGlobalUnicast a \<and> fresh")
    case True
    then have s': "s = (nr_sc R)\<lparr>n_cache := r, n_waiting := Some (ENR, a)\<rparr>" using step by simp
    have old: "t + 12 * Hour \<le> nr_now R" if "t \<in> open_marks (x_str x a) (nr_log R)" for t
      using that inv live(1) True unfolding ns_inv_def marks_live_def by force
    have "marks_live x (nr_now R) (nr_log R @ [Accepted (x_str x a) (nr_now R)]) r"
      using inv True live(2) by (auto simp: ns_inv_def marks_live_def mark_event_def split: if_splits)
    then show ?thesis using inv w True old unfolding s'
      by (auto simp: ns_inv_def marked_def spaced_snoc pending_scans_def)
  next
    case False
    then have "s = nr_sc R \<or> s = (nr_sc R)\<lparr>n_cache := r\<rparr> \<and> \<not> fresh" using step by auto
    moreover have "marks_live x (nr_now R) (nr_log R) r" if "\<not> fresh" using inv live(2) that by (auto simp: ns_inv_def marks_live_def)
    ultimately show ?thesis using inv w by (auto simp: ns_inv_def marked_def pending_scans_def)
  qed
qed (use inv w s in \<open>simp add: on_node_def marked_def\<close>)

text \<open>A mark is deleted: of the marks of other addresses nothing changes.\<close>

lemma freed_marks:
  assumes "marks_live x now L r" and "redis_ok x"
  shows "marks_live x now (L @ [Freed (x_str x a) now]) (deleteScan x now a r)"
  using assms(1) redis_Del[OF assms(2), of now _ r a] by (fastforce simp: marks_live_def mark_event_def split: if_splits)

lemma ns_inv_sent:
  assumes inv: "ns_inv x dial R" and redis: "redis_ok x" and w: "n_waiting (nr_sc R) = Some (ENR, a)"
  shows "ns_inv x dial (R\<lparr>nr_sc := on_sent x (nr_now R) snt (nr_sc R),
      nr_log := nr_log R @ (if ScanNoWait snt = None then [] else [Freed (x_str x a) (nr_now R)])\<rparr>)"
proof (cases "ScanNoWait snt")
  case None
  then show ?thesis using inv w by (auto simp: ns_inv_def on_sent_def pending_scans_def)
next
  case (Some e)
  have "marks_live x (nr_now R) (nr_log R) (n_cache (nr_sc R))" using inv by (simp add: ns_inv_def)
  from freed_marks[OF this redis, of a] show ?thesis using inv w Some
    by (simp add: ns_inv_def on_sent_def pending_scans_def spaced_snoc)
qed

lemma remove_pending:
  assumes "(node, a) \<in> set (n_inflight s)"
  defines "t \<equiv> s\<lparr>n_inflight := remove1 (node, a) (n_inflight s)\<rparr>"
  shows "mset (pending_scans s) = add_mset (node, a) (mset (pending_scans t))"
    and "set (pending_scans t) \<subseteq> set (pending_scans s)" and "n_cache t = n_cache s" and "n_store t = n_store s"
  using assms(1) set_remove1_subset[of "(node, a)" "n_inflight s"] by (auto simp: t_def pending_scans_def split: option.splits)

lemma ns_inv_dropped:
  assumes "ns_inv x dial R" and "(node, a) \<in> set (n_inflight (nr_sc R))"
  shows "ns_inv x dial (R\<lparr>nr_sc := (nr_sc R)\<lparr>n_inflight := remove1 (node, a) (n_inflight (nr_sc R))\<rparr>, nr_log := nr_log R @ [Dropped (x_str x a)]\<rparr>)"
  using assms(1) remove_pending[OF assms(2)]
  by (auto simp: ns_inv_def marks_live_def spaced_snoc mark_event_def list_all_iff subset_iff)

lemma ns_inv_scanned:
  assumes inv: "ns_inv x dial R" and redis: "redis_ok x" and m: "(node, a) \<in> set (n_inflight (nr_sc R))"
    and item: "item = answer_item (run_item started lim (dial (nr_now R)) (node_item a))"
  shows "ns_inv x dial (R\<lparr>nr_sc := scan_callback x (nr_now R) item node a
        ((nr_sc R)\<lparr>n_inflight := remove1 (node, a) (n_inflight (nr_sc R))\<rparr>),
      nr_log := nr_log R @ (if item = None then [Freed (x_str x a) (nr_now R)] else [])\<rparr>)"
proof -
  let ?t = "(nr_sc R)\<lparr>n_inflight := remove1 (node, a) (n_inflight (nr_sc R))\<rparr>"
  note r = remove_pending[OF m]
  have all: "list_all (\<lambda>j. IsGlobalUnicast (snd j)) (pending_scans ?t)" using inv r(2) by (auto simp: ns_inv_def list_all_iff)
  have "(node, a) \<in> set (pending_scans (nr_sc R))" using m by (simp add: pending_scans_def)
  then have g: "IsGlobalUnicast a" using inv by (auto simp: ns_inv_def list_all_iff)
  show ?thesis
  proof (cases "run_item started lim (dial (nr_now R)) (node_item a)")
    case (Delivered it)
    have src: "si_Ip (Src it) = a" using Delivered_open(1)[OF Delivered] by (simp add: node_item_def)
    let ?rec = "\<lparr>r_Node = node, r_Ip = x_str x a, r_Ports = convertArray (Open it)\<rparr>"
    have "scan_callback x (nr_now R) item node a ?t = ?t\<lparr>n_store := n_store ?t @ [?rec]\<rparr>"
      by (simp add: item Delivered answer_item_def scan_callback_def src)
    moreover have "pending_scans (?t\<lparr>n_store := n_store ?t @ [?rec]\<rparr>) = pending_scans ?t" by (simp add: pending_scans_def)
    moreover have "record_ok x dial ?rec" using record_ok_delivered[where dial = dial and u = "nr_now R", OF Delivered g, of x node] src by simp
    moreover have "item \<noteq> None" by (simp add: item Delivered answer_item_def)
    ultimately show ?thesis using inv r(1) all by (simp add: ns_inv_def)
  next
    case Cancelled
    then have i: "item = None" by (simp add: item answer_item_def)
    have "pending_scans (?t\<lparr>n_cache := c\<rparr>) = pending_scans ?t" for c by (simp add: pending_scans_def)
    moreover have "marks_live x (nr_now R) (nr_log R) (n_cache (nr_sc R))" using inv by (simp add: ns_inv_def)
    note freed_marks[OF this redis, of a]
    ultimately show ?thesis using inv r(1) all by (simp add: ns_inv_def i scan_callback_def spaced_snoc)
  qed
qed

lemma ns_inv_step: "redis_ok x \<Longrightarrow> ns_inv x dial R \<Longrightarrow> ns_step x dial R R' \<Longrightarrow> ns_inv x dial R'"
  by (erule ns_stepE) (simp_all add: ns_inv_time ns_inv_recv ns_inv_sent ns_inv_scanned ns_inv_dropped)

lemma ns_reach_inv: "redis_ok x \<Longrightarrow> reach ns_start (ns_step x dial) R \<Longrightarrow> ns_inv x dial R"
proof (erule inv_system.reach_inv[rotated])
  assume "redis_ok x"
  then show "inv_system ns_start (ns_step x dial) (ns_inv x dial)"
    by unfold_locales (simp_all add: ns_inv_step, simp add: ns_start_def ns_inv_def marks_live_def pending_scans_def spaced_def)
qed

text \<open>A redis that is reachable: a key that is not there is set, a deleted key is gone.\<close>

definition redis_up :: "'r ns_ext \<Rightarrow> bool" where
  "redis_up x \<longleftrightarrow> (\<forall>now k d r. k \<notin> x_live x now r \<longrightarrow> fst (x_SetNX x now k d r)) \<and> (\<forall>now k r. k \<notin> x_live x now (x_Del x now k r))"

text \<open>The mark is deleted without looking whose it is: when a scan has outlived its mark and crashes, the mark of a newer scan of the same
  address goes with it, and the next announcement is accepted while the newer scan is still running.\<close>

lemma crash_frees_newer_mark:
  assumes "redis_up x" "x_ParseV4 x ENR = Inr n" "IsGlobalUnicast (e_IP n)" "t = on_node x now ENR (scan_callback x now None node (e_IP n) s)"
  shows "n_waiting t = Some (ENR, e_IP n) \<and> n_inflight t = n_inflight s"
proof -
  let ?r = "deleteScan x now (e_IP n) (n_cache s)"
  have "fst (cacheScan x now (e_IP n) ?r)" using assms(1) by (simp add: redis_up_def cacheScan_def deleteScan_def)
  then obtain r' where "cacheScan x now (e_IP n) ?r = (True, r')" by (metis prod.collapse)
  then show ?thesis using assms(2-4) by (simp add: on_node_def scan_callback_def)
qed

text \<open>C26: Within twelve hours no address is accepted for a second scan, unless the mark of the first was deleted in between because its
  scan was refused or a scan of this address has crashed, however announcements, waiting, finished, crashed and dropped scans
  interleave. Every accepted scan waits, runs, is stored, or has ended otherwise, so nothing is scanned or stored without
  having been accepted; every stored record is of a global unicast address and tells each port from 22 to 65534 correctly.\<close>

theorem node_scanned_once:
  assumes "redis_ok x" and "reach ns_start (ns_step x dial) R"
  shows "(\<forall>us a t vs t' ws. nr_log R = us @ Accepted a t # vs @ Accepted a t' # ws \<and> (\<forall>u. Freed a u \<notin> set vs) \<longrightarrow> t + 12 * Hour \<le> t')
    \<and> accepted_of (nr_log R) = image_mset (\<lambda>j. x_str x (snd j)) (mset (pending_scans (nr_sc R))) + image_mset r_Ip (mset (n_store (nr_sc R)))
        + ended_of (nr_log R)
    \<and> (\<forall>rec \<in> set (n_store (nr_sc R)). \<exists>u a. r_Ip rec = x_str x a \<and> IsGlobalUnicast a \<and>
         (\<forall>p. 22 \<le> p \<and> p < MaxTcpPort \<longrightarrow> (int p \<in> set (map sint (r_Ports rec)) \<longleftrightarrow> dial u a p = None)))"
proof -
  have inv: "ns_inv x dial R" using ns_reach_inv[OF assms] .
  then have "spaced (nr_log R)" by (simp add: ns_inv_def)
  then have "\<forall>us a t vs t' ws. nr_log R = us @ Accepted a t # vs @ Accepted a t' # ws \<and> (\<forall>u. Freed a u \<notin> set vs) \<longrightarrow> t + 12 * Hour \<le> t'"
    using spaced_twice by blast
  with inv show ?thesis by (simp add: ns_inv_def record_ok_def list_all_iff)
qed

text \<open>A redis that is a map from keys to their expiry, and one node announced three times: the second announcement is ignored, the third,
  twelve hours after the first, is accepted again.\<close>

definition ex_ns :: "(string \<rightharpoonup> int) ns_ext" where
  "ex_ns = \<lparr>x_ParseV4 = (\<lambda>_. Inr \<lparr>e_ID = 1, e_IP = [8, 8, 8, 8], e_UDP = 30303, e_TCP = 30303, e_Seq = 1, e_Keys = []\<rparr>),
     x_str = (\<lambda>a. map (\<lambda>b. char_of (unat b)) a),
     x_SetNX = (\<lambda>now k d r. case r k of Some e \<Rightarrow> if now < e then (False, r) else (True, r(k \<mapsto> now + d)) | None \<Rightarrow> (True, r(k \<mapsto> now + d))),
     x_Del = (\<lambda>now k r. r(k := None)), x_live = (\<lambda>u r. {k. case r k of Some e \<Rightarrow> u < e | None \<Rightarrow> False})\<rparr>"

lemma ex_redis: "redis_ok ex_ns"
  by (auto simp: redis_ok_def ex_ns_def split: option.splits if_splits)

lemma ex_global: "IsGlobalUnicast [8, 8, 8, 8]"
proof -
  have zeros: "replicate 4 (0 :: u8) = [0, 0, 0, 0]" by (simp add: numeral_eq_Suc)
  show ?thesis
    by (simp add: IsGlobalUnicast_def IsUnspecified_def IsLoopback_def IsMulticast_def IsLinkLocalUnicast_def To4_def ip_Equal_def zeros)
qed

text \<open>One announcement at a given time, its scan taken by a worker at once.\<close>

definition ex_announce :: "int \<Rightarrow> (string \<rightharpoonup> int) ns_run \<Rightarrow> (string \<rightharpoonup> int) ns_run" where
  "ex_announce t R = (let s = on_node ex_ns t ''enr'' (nr_sc R) in
     R\<lparr>nr_now := t, nr_sc := on_sent ex_ns t Sent s, nr_log := nr_log R @ marked ex_ns t s\<rparr>)"

definition ex_scanner :: "(string \<rightharpoonup> int) ns_run" where
  "ex_scanner = \<lparr>nr_now = 0, nr_sc = \<lparr>n_cache = Map.empty, n_waiting = None, n_inflight = [], n_store = []\<rparr>, nr_log = []\<rparr>"

lemma ex_announce_reach:
  assumes "reach ns_start (ns_step ex_ns dial) R" and "nr_now R \<le> t" and "n_waiting (nr_sc R) = None"
  shows "reach ns_start (ns_step ex_ns dial) (ex_announce t R)"
proof -
  let ?R1 = "R\<lparr>nr_now := t\<rparr>" and ?s = "on_node ex_ns t ''enr'' (nr_sc R)"
  let ?R2 = "?R1\<lparr>nr_sc := ?s, nr_log := nr_log R @ marked ex_ns t ?s\<rparr>"
  have "reach ns_start (ns_step ex_ns dial) ?R1" by (rule reach_step[OF assms(1)]) (rule ns_step.time[OF assms(2)])
  moreover have "ns_step ex_ns dial ?R1 ?R2" using ns_step.recv[of ?R1 ?s ex_ns "''enr''" dial] assms(3) by simp
  ultimately have r: "reach ns_start (ns_step ex_ns dial) ?R2" by (rule reach_step)
  show ?thesis
  proof (cases "n_waiting ?s")
    case None
    then have "ex_announce t R = ?R2" by (simp add: ex_announce_def on_sent_def Let_def)
    with r show ?thesis by simp
  next
    case (Some j)
    have "ns_step ex_ns dial ?R2 (ex_announce t R)"
      using ns_step.sent[of ?R2 "fst j" "snd j" ex_ns dial Sent] Some by (simp add: ex_announce_def ScanNoWait_def Let_def)
    with r show ?thesis by (rule reach_step)
  qed
qed

theorem node_scanned_once_witness:
  "nr_log (ex_announce (12 * Hour) (ex_announce (11 * Hour) (ex_announce 0 ex_scanner)))
     = [Accepted (x_str ex_ns [8,8,8,8]) 0, Accepted (x_str ex_ns [8,8,8,8]) (12 * Hour)]
   \<and> (0 :: int) + 12 * Hour \<le> 12 * Hour
   \<and> length (n_inflight (nr_sc (ex_announce (12 * Hour) (ex_announce (11 * Hour) (ex_announce 0 ex_scanner))))) = 2"
proof -
  let ?a = "x_str ex_ns [8,8,8,8]" and ?d = "\<lambda>_ _ _. None :: err"
  let ?R1 = "ex_announce 0 ex_scanner" let ?R2 = "ex_announce (11 * Hour) ?R1" let ?R3 = "ex_announce (12 * Hour) ?R2"
  have "reach ns_start (ns_step ex_ns ?d) ex_scanner" by (rule reach_init) (simp add: ns_start_def ex_scanner_def)
  then have r1: "reach ns_start (ns_step ex_ns ?d) ?R1" by (rule ex_announce_reach) (simp_all add: ex_scanner_def)
  have w: "n_waiting (nr_sc (ex_announce t R)) = None" for t R by (simp add: ex_announce_def on_sent_def Let_def split: option.splits prod.splits)
  have n: "nr_now (ex_announce t R) = t" for t R by (simp add: ex_announce_def Let_def)
  have r2: "reach ns_start (ns_step ex_ns ?d) ?R2" by (rule ex_announce_reach[OF r1]) (simp_all add: time_defs w n)
  have reach: "reach ns_start (ns_step ex_ns ?d) ?R3" by (rule ex_announce_reach[OF r2]) (simp_all add: time_defs w n)
  have log: "nr_log ?R3 = [Accepted ?a 0, Accepted ?a (12 * Hour)]" and inflight: "length (n_inflight (nr_sc ?R3)) = 2" using ex_global
    by (simp_all add: ex_announce_def ex_scanner_def on_node_def on_sent_def marked_def cacheScan_def ex_ns_def ScanNoWait_def time_defs Let_def)
  have "nr_log ?R3 = [] @ Accepted ?a 0 # [] @ Accepted ?a (12 * Hour) # []" "\<forall>u. Freed ?a u \<notin> set []" using log by simp_all
  with node_scanned_once[OF ex_redis reach] have "(0 :: int) + 12 * Hour \<le> 12 * Hour" by blast
  with log inflight show ?thesis by blast
qed

end
