(* ===== verification/Store.thy ===== *)
theory Store
  imports Prelude
begin

text \<open>
  The database of the service (\<open>service/db/store.go\<close>, the queries of \<open>service/db/sqlc\<close>): four tables with the
  constraints of \<open>service/db/migration/00001_init_schema.up.sql\<close>, one operation per query, and the transaction
  wrapper \<open>execTx\<close>. A statement that violates a constraint fails and changes nothing, as SQL prescribes; rows keep
  their order of insertion, and \<open>ORDER BY\<close> sorts stably. Times and \<open>now()\<close> are arguments.
\<close>

section \<open>Tables\<close>

record Node_row =
  nd_ID :: string
  nd_AddedAt :: int
  nd_SeenAt :: int
  nd_Queries :: int
  nd_Ips :: "string list"

record EnrRecord =
  en_ID :: string
  en_Fields :: "string list"
  en_AddedAt :: int
  en_EditedAt :: int

record RlpRecord =
  rl_ID :: string
  rl_RawName :: string
  rl_ProtocolVersion :: int
  rl_Caps :: "string list"
  rl_AddedAt :: int
  rl_EditedAt :: int

record ScanRecord =
  sr_ID :: int
  sr_Node :: string
  sr_Ip :: string
  sr_Ports :: "int list"
  sr_ScannedAt :: int
  sr_EditedAt :: int

record database =
  nodes :: "Node_row list"
  enr_records :: "EnrRecord list"
  rlp_records :: "RlpRecord list"
  scan_records :: "ScanRecord list"

definition empty_db :: database where
  "empty_db = \<lparr>nodes = [], enr_records = [], rlp_records = [], scan_records = []\<rparr>"

text \<open>The errors: \<open>sql.ErrNoRows\<close> of a query for one row, and the constraint violations.\<close>

definition ErrNoRows :: string where "ErrNoRows = ''sql: no rows in result set''"
definition errDuplicate :: string where "errDuplicate = ''duplicate key value violates unique constraint''"
definition errForeignKey :: string where "errForeignKey = ''violates foreign key constraint''"
definition errNotNull :: string where "errNotNull = ''null value in column violates not-null constraint''"
definition errLimit :: string where "errLimit = ''LIMIT or OFFSET must not be negative''"


text \<open>Selection, update and deletion by a key column.\<close>

definition row_find :: "('r \<Rightarrow> 'k) \<Rightarrow> 'k \<Rightarrow> 'r list \<Rightarrow> string + 'r" where
  "row_find key k t = (case find (\<lambda>r. key r = k) t of Some r \<Rightarrow> Inr r | None \<Rightarrow> Inl ErrNoRows)"


definition row_delete :: "('r \<Rightarrow> 'k) \<Rightarrow> 'k \<Rightarrow> 'r list \<Rightarrow> 'r list" where
  "row_delete key k t = filter (\<lambda>r. key r \<noteq> k) t"

section \<open>Nodes\<close>






definition db_page :: "int \<Rightarrow> int \<Rightarrow> 'r list \<Rightarrow> string + 'r list" where
  "db_page limit offset rows =
     (if limit < 0 \<or> offset < 0 then Inl errLimit else Inr (take (nat limit) (drop (nat offset) rows)))"

definition db_ListNodesByActivity :: "int \<Rightarrow> int \<Rightarrow> database \<Rightarrow> string + Node_row list" where
  "db_ListNodesByActivity limit offset db = db_page limit offset (sort_key nd_SeenAt (nodes db))"

definition db_ListNodesByCreation :: "int \<Rightarrow> int \<Rightarrow> database \<Rightarrow> string + Node_row list" where
  "db_ListNodesByCreation limit offset db = db_page limit offset (sort_key nd_AddedAt (nodes db))"

section \<open>ENR records\<close>

definition db_CreateEnrRecord :: "int \<Rightarrow> string \<Rightarrow> string list \<Rightarrow> database \<Rightarrow> (string + EnrRecord) \<times> database" where
  "db_CreateEnrRecord now i flds db =
     (if i \<in> en_ID ` set (enr_records db) then (Inl errDuplicate, db)
      else if i \<notin> nd_ID ` set (nodes db) then (Inl errForeignKey, db)
      else let r = \<lparr>en_ID = i, en_Fields = flds, en_AddedAt = now, en_EditedAt = now\<rparr>
           in (Inr r, db\<lparr>enr_records := enr_records db @ [r]\<rparr>))"

definition db_DeleteEnrRecord :: "string \<Rightarrow> database \<Rightarrow> err \<times> database" where
  "db_DeleteEnrRecord i db = (None, db\<lparr>enr_records := row_delete en_ID i (enr_records db)\<rparr>)"

definition db_GetEnrRecord :: "string \<Rightarrow> database \<Rightarrow> string + EnrRecord" where
  "db_GetEnrRecord i db = row_find en_ID i (enr_records db)"



section \<open>RLP records\<close>

definition db_CreateRlpRecord ::
  "int \<Rightarrow> string \<Rightarrow> string \<Rightarrow> int \<Rightarrow> string list \<Rightarrow> database \<Rightarrow> (string + RlpRecord) \<times> database" where
  "db_CreateRlpRecord now i name version caps db =
     (if i \<in> rl_ID ` set (rlp_records db) then (Inl errDuplicate, db)
      else if i \<notin> nd_ID ` set (nodes db) then (Inl errForeignKey, db)
      else let r = \<lparr>rl_ID = i, rl_RawName = name, rl_ProtocolVersion = version, rl_Caps = caps, rl_AddedAt = now, rl_EditedAt = now\<rparr>
           in (Inr r, db\<lparr>rlp_records := rlp_records db @ [r]\<rparr>))"

definition db_DeleteRlpRecord :: "string \<Rightarrow> database \<Rightarrow> err \<times> database" where
  "db_DeleteRlpRecord i db = (None, db\<lparr>rlp_records := row_delete rl_ID i (rlp_records db)\<rparr>)"

definition db_GetRlpRecord :: "string \<Rightarrow> database \<Rightarrow> string + RlpRecord" where
  "db_GetRlpRecord i db = row_find rl_ID i (rlp_records db)"



section \<open>Scan records\<close>

text \<open>
  An insertion into \<open>scan_records\<close>: the column \<open>id\<close> is a primary key of type \<open>bigint\<close> without a default, so it
  is null unless the statement gives it; \<open>(node, ip)\<close> has a unique index.
\<close>

definition insert_scan ::
  "int \<Rightarrow> int option \<Rightarrow> string \<Rightarrow> string \<Rightarrow> int list \<Rightarrow> database \<Rightarrow> (string + ScanRecord) \<times> database" where
  "insert_scan now i node ip ports db =
     (case i of
        None \<Rightarrow> (Inl errNotNull, db)
      | Some k \<Rightarrow>
          if k \<in> sr_ID ` set (scan_records db) \<or> (node, ip) \<in> (\<lambda>r. (sr_Node r, sr_Ip r)) ` set (scan_records db)
          then (Inl errDuplicate, db)
          else let r = \<lparr>sr_ID = k, sr_Node = node, sr_Ip = ip, sr_Ports = ports, sr_ScannedAt = now, sr_EditedAt = now\<rparr>
               in (Inr r, db\<lparr>scan_records := scan_records db @ [r]\<rparr>))"

text \<open>\<open>INSERT INTO scan_records (node, ip, ports)\<close>.\<close>

definition db_CreateScanRecord ::
  "int \<Rightarrow> string \<Rightarrow> string \<Rightarrow> int list \<Rightarrow> database \<Rightarrow> (string + ScanRecord) \<times> database" where
  "db_CreateScanRecord now node ip ports db = insert_scan now None node ip ports db"



definition db_GetNodeScanRecords :: "string \<Rightarrow> database \<Rightarrow> string + ScanRecord" where
  "db_GetNodeScanRecords node db = row_find sr_Node node (scan_records db)"

section \<open>Transactions\<close>

text \<open>
  \<open>execTx\<close> over a database state \<open>'d\<close>: \<open>begin\<close>, \<open>rollback\<close> and \<open>commit\<close> are the errors of the driver, \<open>fn\<close> the
  statements of the transaction, \<open>after\<close> the action on its result. The second component is the committed state, the third
  what became of the transaction.
\<close>

datatype tx_end = NoTx | Committed | RolledBack | LeftOpen | Undecided

definition execTx ::
  "err \<Rightarrow> err \<Rightarrow> err \<Rightarrow> ('d \<Rightarrow> (string + 'o) \<times> 'd) \<Rightarrow> ('o \<Rightarrow> err) option \<Rightarrow> 'd \<Rightarrow> err \<times> 'd \<times> tx_end" where
  "execTx begin_err rollback_err commit_err fn after db =
     (case begin_err of
        Some e \<Rightarrow> (Some e, db, NoTx)
      | None \<Rightarrow>
          (case fn db of
             (Inl e, _) \<Rightarrow>
               (case rollback_err of
                  Some rb \<Rightarrow> (Some (''tx err: '' @ e @ '', rb err: '' @ rb), db, Undecided)
                | None \<Rightarrow> (Some e, db, RolledBack))
           | (Inr obj, db') \<Rightarrow>
               (case (case after of None \<Rightarrow> None | Some act \<Rightarrow> act obj) of
                  Some e \<Rightarrow> (Some (''after action failure. error: '' @ e), db, LeftOpen)
                | None \<Rightarrow>
                    (case commit_err of
                       Some e \<Rightarrow> (Some e, db, Undecided)
                     | None \<Rightarrow> (None, db', Committed)))))"

text \<open>\<open>runMigration\<close> and \<open>NewStore\<close>: a migration that has nothing to do is not an error.\<close>

definition ErrNoChange :: string where "ErrNoChange = ''no change''"

definition runMigration :: "err \<Rightarrow> err \<Rightarrow> err" where
  "runMigration new_err up_err =
     (case new_err of
        Some e \<Rightarrow> Some (''migrration init failure. err: '' @ e)
      | None \<Rightarrow>
          (case up_err of
             Some e \<Rightarrow> if e \<noteq> ErrNoChange then Some (''migrration up failure. err: '' @ e) else None
           | None \<Rightarrow> None))"

definition NewStore :: "err \<Rightarrow> err \<Rightarrow> string + 'c \<Rightarrow> string + 'c" where
  "NewStore new_err up_err sql_open =
     (case runMigration new_err up_err of Some e \<Rightarrow> Inl e | None \<Rightarrow> sql_open)"

section \<open>The contract of a table\<close>

text \<open>What a client of one table relies on: creation, lookup and deletion by key.\<close>

locale crud =
  fixes create :: "'k \<Rightarrow> 'p \<Rightarrow> 's \<Rightarrow> (string + 'r) \<times> 's" and get :: "'k \<Rightarrow> 's \<Rightarrow> string + 'r" and del :: "'k \<Rightarrow> 's \<Rightarrow> err \<times> 's"
  assumes create_get: "create k p s = (Inr r, s') \<Longrightarrow> get k s' = Inr r"
    and create_known: "get k s = Inr r \<Longrightarrow> isl (fst (create k p s))"
    and create_fail: "create k p s = (Inl e, s') \<Longrightarrow> s' = s"
    and create_other: "create k p s = (Inr r, s') \<Longrightarrow> k' \<noteq> k \<Longrightarrow> get k' s' = get k' s"
    and del_gone: "del k s = (None, s') \<Longrightarrow> isl (get k s')"
    and del_other: "del k s = (None, s') \<Longrightarrow> k' \<noteq> k \<Longrightarrow> get k' s' = get k' s"
begin

lemma create_twice: "create k p s = (Inr r, s') \<Longrightarrow> \<exists>e. create k q s' = (Inl e, s')"
  using create_get[of k p s r s'] create_known[of k s' r q] create_fail[of k q s']
  by (cases "create k q s'") (auto simp: isl_def)

lemma create_delete:
  assumes "create k p s = (Inr r, s1)" and "del k s1 = (None, s2)"
  shows "isl (get k s2)" and "k' \<noteq> k \<Longrightarrow> get k' s2 = get k' s"
  using assms create_other del_gone del_other by metis+

end

lemma row_find_snoc:
  "row_find key k (t @ [r]) = (case row_find key k t of Inr x \<Rightarrow> Inr x | Inl e \<Rightarrow> if key r = k then Inr r else Inl e)"
proof -
  have "find P (t @ [r]) = (case find P t of Some x \<Rightarrow> Some x | None \<Rightarrow> if P r then Some r else None)" for P
    by (induction t) auto
  then show ?thesis by (auto simp: row_find_def split: option.splits)
qed

lemma row_find_known: "row_find key k t = Inr r \<Longrightarrow> k \<in> key ` set t"
  by (auto simp: row_find_def find_Some_iff split: option.splits)

lemma row_find_unknown: "k \<notin> key ` set t \<Longrightarrow> row_find key k t = Inl ErrNoRows"
  by (auto simp: row_find_def find_None_iff split: option.splits dest: sym)

lemma row_find_delete: "row_find key k' (row_delete key k t) = (if k' = k then Inl ErrNoRows else row_find key k' t)"
proof (cases "k' = k")
  case True then show ?thesis by (auto simp: row_delete_def intro!: row_find_unknown)
next
  case False
  then have "find (\<lambda>r. key r = k') (filter (\<lambda>r. key r \<noteq> k) t) = find (\<lambda>r. key r = k') t" by (induction t) auto
  then show ?thesis using False by (simp add: row_find_def row_delete_def)
qed

lemmas row_simps = row_find_snoc row_find_unknown row_find_delete


interpretation enr_table: crud "\<lambda>k flds. db_CreateEnrRecord now k flds" db_GetEnrRecord db_DeleteEnrRecord for now
  by unfold_locales
    (auto simp: db_CreateEnrRecord_def db_GetEnrRecord_def db_DeleteEnrRecord_def Let_def row_simps split: if_splits sum.splits dest: row_find_known)

interpretation rlp_table: crud "\<lambda>k (name, version, caps). db_CreateRlpRecord now k name version caps" db_GetRlpRecord db_DeleteRlpRecord for now
  by unfold_locales
    (auto simp: db_CreateRlpRecord_def db_GetRlpRecord_def db_DeleteRlpRecord_def Let_def row_simps split: if_splits sum.splits prod.splits dest: row_find_known)

section \<open>Integrity\<close>




lemma set_row_delete: "f ` set (row_delete key k t) \<subseteq> f ` set t"
  by (auto simp: row_delete_def)

















section \<open>What the programs write\<close>

text \<open>
  The calls of the crawler (\<open>CreateEnrRecord\<close> for a new peer, \<open>CreateRlpRecord\<close> once its information is known) and of the
  scanner (\<open>CreateScanRecord\<close>): the only statements the two programs execute. Their results are ignored there.
\<close>

inductive prog_call :: "database \<Rightarrow> database \<Rightarrow> bool" where
  new_peer: "prog_call db (snd (db_CreateEnrRecord now i flds db))"
| peer_info: "prog_call db (snd (db_CreateRlpRecord now i name version caps db))"
| scan_done: "prog_call db (snd (db_CreateScanRecord now node a ports db))"

lemma prog_call_no_nodes: "nodes db = [] \<Longrightarrow> prog_call db db' \<Longrightarrow> db' = db"
  by (auto elim!: prog_call.cases simp: db_CreateEnrRecord_def db_CreateRlpRecord_def db_CreateScanRecord_def insert_scan_def)

interpretation programs: inv_system "\<lambda>db. db = db0 \<and> nodes db = []" prog_call "\<lambda>db. db = db0 \<and> nodes db0 = []" for db0
  by unfold_locales (auto dest: prog_call_no_nodes)

text \<open>C28: The programs persist nothing: on a migrated database whose table of nodes is empty, which neither program ever
  fills, every write of crawler and scanner is rejected and the database never changes; a scan record is rejected on every
  database, since its key has no default and the statement gives none.\<close>

theorem programs_persist_nothing:
  assumes "reach (\<lambda>db. db = db0 \<and> nodes db = []) prog_call db"
  shows "db = db0 \<and> isl (fst (db_CreateEnrRecord now i flds db)) \<and> isl (fst (db_CreateRlpRecord now i name version caps db))
    \<and> (\<forall>any. db_CreateScanRecord now node a ports any = (Inl errNotNull, any))"
  using programs.reach_inv[OF assms]
  by (simp add: db_CreateEnrRecord_def db_CreateRlpRecord_def db_CreateScanRecord_def insert_scan_def)

theorem programs_persist_nothing_witness:
  "snd (db_CreateEnrRecord 1 ''enode://a'' [''ip''] empty_db) = empty_db"
proof -
  have "reach (\<lambda>db. db = empty_db \<and> nodes db = []) prog_call empty_db" by (rule reach_init) (simp add: empty_db_def)
  then have "reach (\<lambda>db. db = empty_db \<and> nodes db = []) prog_call (snd (db_CreateEnrRecord 1 ''enode://a'' [''ip''] empty_db))"
    by (rule reach_step) (rule prog_call.new_peer)
  from programs_persist_nothing[OF this] show ?thesis by blast
qed

text \<open>Atomicity of \<open>execTx\<close>: it reports success exactly when the transaction has been committed with its statements' effect;
  when it was not begun, rolled back or left open the committed state is as it was (the driver's own failure to commit or roll
  back decides nothing here); and the transaction is left open, holding its connection, exactly when the action after the
  statements fails.\<close>

lemma execTx_atomic:
  assumes "execTx b rb c fn after db = (e, db', fate)"
  shows "(e = None \<longleftrightarrow> fate = Committed) \<and> (fate \<in> {NoTx, RolledBack, LeftOpen} \<longrightarrow> e \<noteq> None \<and> db' = db)
    \<and> (fate = Committed \<longrightarrow> db' = snd (fn db) \<and> \<not> isl (fst (fn db)))
    \<and> (fate = LeftOpen \<longleftrightarrow> b = None \<and> (\<exists>obj act. fst (fn db) = Inr obj \<and> after = Some act \<and> act obj \<noteq> None))"
  using assms by (auto simp: execTx_def split: option.splits sum.splits prod.splits)

end
