(* ===== verification/Spec2Isabelle.thy ===== *)
theory Spec2Isabelle
  imports Exchange Requests Logging Flags Procs Launch Rlpx Table_Close Throttle Flow Recorders Pubkey Crawl_Run Table_Props V4_Props Handler
    Node_Handler Identity Udp Lookup Awaiter Events Workers Crawl Lifecycle Node_Scanner Config Store Broker Transport Peek Metrics
    App Commands
begin

text \<open>
  A verification of the node utilities: an Ethereum discovery crawler and a port scanner, written in Go, with their shared
  services. The sources are under \<open>src/crawler\<close>, \<open>src/scanner\<close> and \<open>src/service\<close>.

  \<^bold>\<open>The program.\<close> The crawler speaks the discovery protocol v4. UDP datagrams pass the listener and the rate-limiting
  acceptor into the v4 handler, which keeps the Kademlia node table and answers pings, findnode and ENR requests; its own
  requests go through the packet handler to the throttled writer and wait in the response awaiter. Nodes seen are published
  on an event feed to the seeker, whose pool of workers fetches their records; accepted nodes become peers of the crawler,
  which asks them for more nodes in turn, queries them over RLPx, writes to the database and announces them on the message
  broker. The scanner receives the announcements, suppresses addresses in its redis cache and scans their ports.

  \<^bold>\<open>Theories and sources.\<close>
  \<^item> \<open>Prelude\<close>: Go integers, slices, \<open>sort.Search\<close>, channels and times; the interfaces \<open>inv_system\<close> and \<open>marker\<close>.
  \<^item> \<open>Nodes\<close>: \<open>discovery/common/node.go\<close> (wrapped nodes, \<open>NodesByDistance.Push\<close> against a stable sort).
  \<^item> \<open>Table\<close>, \<open>Table_Inv\<close>, \<open>Table_Run\<close>, \<open>Table_Props\<close>: \<open>discovery/table/table.go\<close>. One function per method on the record
    \<open>Table\<close>; \<open>run_step\<close> is the main loop with its goroutines. Shown: the table invariant in every reachable state, subnet limits,
    uniqueness, correctness of lookups, random reads and revalidation. \<open>Table_Close\<close> takes the refresh goroutine step by step; shown:
    the loop ends after \<open>close\<close>, and a caller of \<open>refresh\<close> is answered.
  \<^item> \<open>Lookup\<close>: \<open>discovery/query.go\<close>. A query round with its goroutines and slot channel is the relation \<open>q_step\<close>. Shown: no node
    is asked twice, no send on a closed channel is reached wrongly, every interleaving ends (by a weight), the result is the
    closest part of what was returned.
  \<^item> \<open>Awaiter\<close>: \<open>discovery/responseAwaiter.go\<close>. Shown: every request is settled once, replies go to the first match, a tick
    settles all requests once all are overdue.
  \<^item> \<open>Udp\<close>: \<open>acceptor.go\<close>, \<open>listener.go\<close>, \<open>writer.go\<close>; bounds of the limiter, and a pool of workers that loses no packet. \<open>Throttle\<close>: the
    throttled writer in time, over any rate limiter with the documented bound. \<open>Flow\<close>: the workers of the acceptor with the
    awaiter; shown: workers that wait for answers to their own pings stop all packet handling until a request is due.
  \<^item> \<open>Identity\<close>: \<open>identity.go\<close>; the cached record is current.
  \<^item> \<open>V4\<close>, \<open>V4_Props\<close>: \<open>discovery/v4\<close>. \<open>HandlePacket\<close> and the requests over the handler's state, with the actions they take.
    Shown: the table invariant is kept, the endpoint proof guards answers and table entries, packets are bounded, results are
    checked, faults bound the requests. \<open>Requests\<close>: \<open>v4/packet.go\<close> and the requests with their verifiers in the queue of the awaiter;
    shown: a response reaches a verifier of its type only, what two pings to one node get from reordered pongs, and that a
    ping which could not be written takes the answer to the next one. \<open>Exchange\<close>: two
    nodes, the packets of each decoded by the other; shown: a ping bonds both sides, and what an unsolicited pong is worth.
  \<^item> \<open>Handler\<close>: \<open>discovery/handler.go\<close>; the random lookup over table and lookup, for any query.
  \<^item> \<open>Node_Handler\<close>: the entry points of \<open>discovery/handler.go\<close> over the v4 handler, with \<open>recorder.go\<close>. \<open>ph_step\<close> runs them beside
    the main loop of the table. Shown: this run refines the loop's own, random lookups return checked nodes only, and records
    are requested over a bond. \<open>Commands\<close>: the commands of \<open>crawler/cmd/disc/v4/disc.go\<close> that ask each node once.
    \<open>Scan_Dump\<close>: the command that enumerates what nodes know, with the file it writes.
  \<^item> \<open>Pubkey\<close>: \<open>discovery/common/encPubkey.go\<close>; encoding and decoding are inverse to each other.
  \<^item> \<open>Events\<close>: \<open>crawler/events\<close>; \<open>Workers\<close>: \<open>crawler/workers\<close>; \<open>Crawl\<close>: \<open>crawler/crawler\<close>.
  \<^item> \<open>Jobs\<close>: jobs, runners and the monitor of a runner, over the pool and the feed; shown: each ended worker has one report, and what
    becomes of it. \<open>Procs\<close>: the processors of the crawler as sources of jobs.
  \<^item> \<open>Lifecycle\<close>: start and stop of the seeker and its runner, as steps of the goroutines. Shown: channels are closed once, a
    stopped seeker does no work, and \<open>Stop\<close> returns (progress, and a weight that no step raises). \<open>Crawl_Run\<close>: the goroutines of
    \<open>Crawl\<close> with their wait group, which drive the seeker through states of its own system only.
  \<^item> \<open>Transport\<close>, \<open>Rlpx\<close>: \<open>crawler/net/transport\<close>, \<open>crawler/net/querier.go\<close>; the hello exchange, also between two sides. \<open>Peek\<close>: the enumeration of \<open>crawler/cmd/disc/v4/disc.go\<close>.
  \<^item> \<open>Scanner\<close>, \<open>Node_Scanner\<close>: \<open>scanner/scanner\<close>. Shown: what a scan reports, that the pool loses nothing, that no address is
    accepted twice within twelve hours.
  \<^item> \<open>Config\<close>: \<open>scanner/app\<close>, \<open>crawler/app/parse.go\<close>; \<open>App\<close>: the two \<open>application.go\<close>.
    \<open>Flags\<close>: the flags and what a command sees of a command line. \<open>Program\<close>: construction of the crawler, the actions of the
    commands, interrupts; shown: when the crawler starts and with what, and that its table only grows. \<open>Launch\<close>: command
    tables and process exit. \<open>Logging\<close>: \<open>crawler/log\<close>, \<open>scanner/log\<close>.
  \<^item> \<open>Store\<close>: \<open>service/db\<close>, the statements against the constraints of the migration; \<open>Broker\<close>: \<open>service/broker\<close> with the typed
    brokers of both programs; \<open>Metrics\<close>: \<open>service/metrics/factory.go\<close>; \<open>Recorders\<close>: the other files of
    \<open>service/metrics\<close> and the recorders of all components.
  This theory composes the crawler's broker, the queues of the message server and the scanner's loop.

  \<^bold>\<open>Conventions.\<close> A struct is a record, an error is \<^typ>\<open>err\<close> (\<open>None\<close> for nil) or the left of a sum, a panic is \<open>None\<close> or a flag.
  Goroutines that share state are transition relations whose steps are the operations between synchronisations; reachable
  states are \<^const>\<open>reach\<close>, and the invariants are proved by instances of \<open>inv_system\<close>. Unsigned and atomic counters are words of
  their width; \<open>int64\<close> arithmetic that can overflow is written with \<^const>\<open>wrap64\<close>. Loops are structurally recursive on their
  input or have a measure; no fuel is used. Loops over channels recurse on the list of the events that arrive.

  \<^bold>\<open>Parameters.\<close> Code outside the repository is an argument: the subnet sets and LAN test of \<open>netutil\<close>, distances, keys and
  records of \<open>enode\<close> and \<open>v4wire\<close>, the node database, the rate limiter, redis, AMQP, JSON, RLPx and the SQL driver. What is relied
  on is a named hypothesis (\<open>table_env\<close>, \<open>dist_order\<close>, \<open>redis_ok\<close>, \<open>redis_up\<close>, \<open>json_ok\<close>, \<open>limiter_ok\<close>, \<open>read_bits_ok\<close>, and for two
  nodes \<open>wire_ok\<close>, \<open>key_ok\<close>, \<open>node_db_ok\<close>), and each theorem with hypotheses has a closed instance
  next to it. The network is an argument too: the outcome of a dial or of a request.

  \<^bold>\<open>Not modelled.\<close> Generated mocks and test simulations; what the components log (the loggers themselves are in \<open>Logging\<close>); the
  HTTP route of the metrics and the collectors of the Go runtime; random identifiers, the reflection on ENR records, the iterator
  that pushes from a goroutine (nothing uses it) and interface declarations. Sockets, files and the process are met through
  the results of their calls. A queue of the message server that goes with its last consumer is not followed further. The stopped seeker's event loop ends when its
  context is cancelled; that its \<open>Unsubscribe\<close> may block is shown in \<open>Events\<close>.
\<close>

section \<open>From the crawler's announcement to the scanner's work\<close>

text \<open>The scanner receives announced nodes, each at its time, and every scan is taken by a worker at once; the list collects the addresses
  accepted for a scan, as text, with the time.\<close>

definition accepted_at :: "'r ns_ext \<Rightarrow> int \<Rightarrow> 'r nodeScanner \<Rightarrow> (string \<times> int) list" where
  "accepted_at x t s = (case n_waiting s of None \<Rightarrow> [] | Some (_, a) \<Rightarrow> [(x_str x a, t)])"

fun receive_nodes :: "'r ns_ext \<Rightarrow> (int \<times> NewNode) list \<Rightarrow> (string \<times> int) list \<times> 'r nodeScanner \<Rightarrow> (string \<times> int) list \<times> 'r nodeScanner" where
  "receive_nodes x [] (l, s) = (l, s)"
| "receive_nodes x ((t, n) # arr) (l, s) =
     (let s1 = on_node x t (nn_ENR n) s in receive_nodes x arr (l @ accepted_at x t s1, on_sent x t Scanner.Sent s1))"

text \<open>The address an announced node is to be scanned at, as text.\<close>

definition scan_target :: "'r ns_ext \<Rightarrow> NewNode \<Rightarrow> string set" where
  "scan_target x m =
     (case x_ParseV4 x (nn_ENR m) of
        Inl _ \<Rightarrow> {}
      | Inr n \<Rightarrow> if IsGlobalUnicast (e_IP n) then {x_str x (e_IP n)} else {})"

text \<open>The rule the scanner implements: an address is accepted exactly when it was not accepted within the twelve hours before.\<close>

definition recent :: "string \<Rightarrow> int \<Rightarrow> (string \<times> int) list \<Rightarrow> bool" where
  "recent a u l \<longleftrightarrow> (\<exists>t. (a, t) \<in> set l \<and> u < t + 12 * Hour)"

fun accept_rule :: "(int \<times> string set) list \<Rightarrow> (string \<times> int) list \<Rightarrow> (string \<times> int) list" where
  "accept_rule [] l = l"
| "accept_rule ((t, A) # arr) l = accept_rule arr (l @ (if \<exists>a. A = {a} \<and> \<not> recent a t l then [(the_elem A, t)] else []))"

text \<open>The cache holds the addresses accepted within twelve hours; the scans in flight are those accepted.\<close>

definition work_inv :: "'r ns_ext \<Rightarrow> int \<Rightarrow> (string \<times> int) list \<Rightarrow> 'r nodeScanner \<Rightarrow> bool" where
  "work_inv x now l s \<longleftrightarrow> n_waiting s = None \<and> map (\<lambda>j. x_str x (snd j)) (n_inflight s) = map fst l
     \<and> (\<forall>a. \<forall>u \<ge> now. scan_key a \<in> x_live x u (n_cache s) \<longleftrightarrow> recent a u l)"

lemma work_inv_node:
  assumes redis: "redis_ok x" "redis_up x" and inv: "work_inv x now l s" and "now \<le> t"
    and s1: "s1 = on_node x t (nn_ENR m) s"
  shows "work_inv x t (l @ accepted_at x t s1) (on_sent x t Scanner.Sent s1)
    \<and> accepted_at x t s1 = (if \<exists>a. scan_target x m = {a} \<and> \<not> recent a t l then [(the_elem (scan_target x m), t)] else [])"
proof (cases "x_ParseV4 x (nn_ENR m)")
  case (Inr n)
  let ?a = "e_IP n" let ?k = "x_str x ?a"
  have inv': "work_inv x t l s" and w: "n_waiting s = None" using inv assms(4) by (auto simp: work_inv_def)
  obtain fresh r where c: "cacheScan x t ?a (n_cache s) = (fresh, r)" by fastforce
  note live = redis_SetNX[OF redis(1) c]
  have "scan_key ?k \<in> x_live x t (n_cache s) \<longleftrightarrow> recent ?k t l" using inv' by (auto simp: work_inv_def)
  moreover have "fresh" if "scan_key ?k \<notin> x_live x t (n_cache s)" using that c redis(2) unfolding redis_up_def cacheScan_def by (metis fst_conv)
  ultimately have f: "fresh \<longleftrightarrow> \<not> recent ?k t l" using live(1) by blast
  have step: "s1 = (if \<not> IsGlobalUnicast ?a then s else if \<not> fresh then s\<lparr>n_cache := r\<rparr> else s\<lparr>n_cache := r, n_waiting := Some (nn_ENR m, ?a)\<rparr>)"
    using Inr c s1 by (simp add: on_node_def)
  show ?thesis
  proof (cases "IsGlobalUnicast ?a \<and> fresh")
    case True
    then have s': "s1 = s\<lparr>n_cache := r, n_waiting := Some (nn_ENR m, ?a)\<rparr>" and tgt: "scan_target x m = {?k}" using step Inr by (simp_all add: scan_target_def)
    have "recent a u (l @ [(?k, t)]) \<longleftrightarrow> recent a u l \<or> a = ?k \<and> u < t + 12 * Hour" for a u by (auto simp: recent_def)
    then show ?thesis using inv' live(2) True f tgt unfolding s'
      by (auto simp: work_inv_def accepted_at_def on_sent_def ScanNoWait_def)
  next
    case False
    then have s': "s1 = s \<or> s1 = s\<lparr>n_cache := r\<rparr> \<and> \<not> fresh" using step by auto
    have "scan_target x m \<noteq> {b} \<or> recent b t l" for b using False f Inr by (auto simp: scan_target_def)
    moreover have "work_inv x t l s1" using s' inv' live(2) by (auto simp: work_inv_def)
    moreover have "accepted_at x t s1 = []" "on_sent x t Scanner.Sent s1 = s1" using s' w by (auto simp: accepted_at_def on_sent_def)
    ultimately show ?thesis by simp
  qed
qed (use inv s1 assms(4) in \<open>auto simp: on_node_def scan_target_def work_inv_def accepted_at_def on_sent_def\<close>)

lemma receive_rule:
  assumes "redis_ok x" "redis_up x" "work_inv x now l s" "sorted (now # map fst arr)"
    and "receive_nodes x arr (l, s) = (l', s')"
  shows "l' = accept_rule (map (\<lambda>(t, n). (t, scan_target x n)) arr) l \<and> map (\<lambda>j. x_str x (snd j)) (n_inflight s') = map fst l'"
  using assms(3-5)
proof (induction arr arbitrary: now l s)
  case (Cons p arr)
  obtain t n where p: "p = (t, n)" by fastforce
  let ?s1 = "on_node x t (nn_ENR n) s"
  have t: "now \<le> t" "sorted (t # map fst arr)" using Cons.prems(2) p by auto
  note w = work_inv_node[OF assms(1,2) Cons.prems(1) t(1) refl, of n]
  have "receive_nodes x arr (l @ accepted_at x t ?s1, on_sent x t Scanner.Sent ?s1) = (l', s')" using Cons.prems(3) p by (simp add: Let_def)
  from Cons.IH[OF conjunct1[OF w] t(2) this] show ?case using conjunct2[OF w] by (simp add: p)
qed (simp add: work_inv_def)

text \<open>What the rule gives: nothing is accepted that was not announced, an announced address has been accepted within the twelve hours up to its
  announcement, and not twice within twelve hours.\<close>

lemma accept_rule_grows: "set l \<subseteq> set (accept_rule arr l)"
  by (induction arr l rule: accept_rule.induct) auto

lemma accept_rule_source: "(a, t) \<in> set (accept_rule arr l) \<Longrightarrow> (a, t) \<in> set l \<or> (\<exists>A. (t, A) \<in> set arr \<and> a \<in> A)"
  by (induction arr l rule: accept_rule.induct) (auto split: if_splits)

lemma accept_rule_covers:
  assumes "sorted (map fst arr)" "\<forall>(b, v) \<in> set l. \<forall>(u, A) \<in> set arr. v \<le> u" "(t, {a}) \<in> set arr"
  shows "\<exists>t'. (a, t') \<in> set (accept_rule arr l) \<and> t' \<le> t \<and> t < t' + 12 * Hour"
  using assms
proof (induction arr arbitrary: l)
  case (Cons p arr)
  obtain u A where p: "p = (u, A)" by fastforce
  let ?l = "l @ (if \<exists>a. A = {a} \<and> \<not> recent a u l then [(the_elem A, u)] else [])"
  show ?case
  proof (cases "p = (t, {a})")
    case True
    then have p': "u = t" "A = {a}" using p by simp_all
    have "\<exists>t'. (a, t') \<in> set ?l \<and> t' \<le> t \<and> t < t' + 12 * Hour"
    proof (cases "recent a t l")
      case True
      then obtain t' where "(a, t') \<in> set l" "t < t' + 12 * Hour" by (auto simp: recent_def)
      moreover from this have "t' \<le> t" using Cons.prems(2) p p' by fastforce
      ultimately show ?thesis by auto
    next
      case False
      then show ?thesis using p' by (intro exI[of _ t]) (simp add: time_defs)
    qed
    then obtain t' where "(a, t') \<in> set ?l" "t' \<le> t" "t < t' + 12 * Hour" by blast
    moreover from this(1) have "(a, t') \<in> set (accept_rule arr ?l)" using accept_rule_grows by blast
    ultimately show ?thesis unfolding p accept_rule.simps by blast
  next
    case False
    have "v \<le> w" if "(b, v) \<in> set ?l" "(w, B) \<in> set arr" for b v w B
    proof (cases "(b, v) \<in> set l")
      case False
      then have "v = u" using that(1) by (auto split: if_splits)
      then show ?thesis using Cons.prems(1) p that(2) by force
    qed (use Cons.prems(2) that(2) in fastforce)
    then have "\<forall>(b, v) \<in> set ?l. \<forall>(w, B) \<in> set arr. v \<le> w" by blast
    moreover have "sorted (map fst arr)" "(t, {a}) \<in> set arr" using Cons.prems(1,3) False by simp_all
    ultimately show ?thesis unfolding p accept_rule.simps by (intro Cons.IH)
  qed
qed simp

definition apart :: "string \<times> int \<Rightarrow> string \<times> int \<Rightarrow> bool" where
  "apart p q \<longleftrightarrow> (fst p = fst q \<longrightarrow> snd p + 12 * Hour \<le> snd q)"

lemma accept_rule_apart: "sorted_wrt apart l \<Longrightarrow> sorted_wrt apart (accept_rule arr l)"
proof (induction arr l rule: accept_rule.induct)
  case (2 t A arr l)
  have "sorted_wrt apart (l @ (if \<exists>a. A = {a} \<and> \<not> recent a t l then [(the_elem A, t)] else []))"
  proof (cases "\<exists>a. A = {a} \<and> \<not> recent a t l")
    case True
    then obtain a where "A = {a}" "\<not> recent a t l" by blast
    then have "\<forall>p \<in> set l. apart p (the_elem A, t)" by (auto simp: apart_def recent_def not_less)
    with "2.prems" True show ?thesis by (simp add: sorted_wrt_append)
  next
    case False
    show ?thesis unfolding if_not_P[OF False] using "2.prems" by simp
  qed
  from "2.IH"[OF this] show ?case by simp
qed simp

text \<open>C27: From announcement to scan: the crawler publishes while the scanner is away and after it has subscribed. What it published before is
  lost; the nodes announced without an error since then reach the scanner in order. With an empty cache that answers as redis
  does, no scan crashing and every scan taken at once, the scanner puts to work the global unicast addresses of these nodes: no
  other address, every announced one within the twelve hours up to its announcement, and none twice within twelve hours,
  however often its node is announced and whatever else is published in between.\<close>

theorem announced_nodes_scanned:
  assumes "json_ok mn un (announced after)" and "q newNodesQueue = None" and "\<not> rb_stopped b"
    and "redis_ok x" and "redis_up x" and "\<forall>u. x_live x u r0 = {}"
    and "map snd arr = delivered_nodes mn ms un b q before after" and "sorted (map fst arr)"
    and "receive_nodes x arr ([], \<lparr>n_cache = r0, n_waiting = None, n_inflight = [], n_store = []\<rparr>) = (l, s)"
  shows "map snd arr = announced after \<and> map (\<lambda>j. x_str x (snd j)) (n_inflight s) = map fst l
    \<and> (\<forall>a t. (a, t) \<in> set l \<longrightarrow> (\<exists>n. (t, n) \<in> set arr \<and> a \<in> scan_target x n))
    \<and> (\<forall>t n a. (t, n) \<in> set arr \<and> a \<in> scan_target x n \<longrightarrow> (\<exists>t'. (a, t') \<in> set l \<and> t' \<le> t \<and> t < t' + 12 * Hour))
    \<and> sorted_wrt (\<lambda>p p'. fst p = fst p' \<longrightarrow> snd p + 12 * Hour \<le> snd p') l"
proof -
  let ?arr = "map (\<lambda>(t, n). (t, scan_target x n)) arr"
  let ?s = "\<lparr>n_cache = r0, n_waiting = None, n_inflight = [], n_store = []\<rparr>"
  obtain now where now: "sorted (now # map fst arr)" using assms(8) by (cases arr) auto
  have "work_inv x now [] ?s" using assms(6) by (simp add: work_inv_def recent_def)
  note l = receive_rule[OF assms(4,5) this now assms(9)]
  have src: "\<exists>n. (t, n) \<in> set arr \<and> a \<in> scan_target x n" if "(a, t) \<in> set l" for a t
    using accept_rule_source[of a t ?arr "[]"] that l by auto
  have cov: "\<exists>t'. (a, t') \<in> set l \<and> t' \<le> t \<and> t < t' + 12 * Hour" if "(t, n) \<in> set arr" "a \<in> scan_target x n" for t n a
  proof -
    have "scan_target x n = {a}" using that(2) by (auto simp: scan_target_def split: sum.splits if_splits)
    then have "(t, {a}) \<in> set ?arr" using imageI[OF that(1), of "\<lambda>(t, n). (t, scan_target x n)"] by simp
    moreover have "map fst ?arr = map fst arr" by auto
    then have "sorted (map fst ?arr)" using assms(8) by (simp only:)
    ultimately have "\<exists>t'. (a, t') \<in> set (accept_rule ?arr []) \<and> t' \<le> t \<and> t < t' + 12 * Hour" by (intro accept_rule_covers) simp_all
    then show ?thesis unfolding conjunct1[OF l] .
  qed
  have "sorted_wrt apart l" using accept_rule_apart[of "[]" ?arr] l by simp
  then have "sorted_wrt (\<lambda>p p'. fst p = fst p' \<longrightarrow> snd p + 12 * Hour \<le> snd p') l" unfolding apart_def[abs_def] .
  moreover have "map snd arr = announced after" using announcements_arrive[where q = q, OF assms(1-3), of ms before] assms(7) by simp
  ultimately show ?thesis
  proof (intro conjI allI impI)
    show "map (\<lambda>j. x_str x (snd j)) (n_inflight s) = map fst l" by (rule conjunct2[OF l])
  next
    fix a t assume "(a, t) \<in> set l"
    then show "\<exists>n. (t, n) \<in> set arr \<and> a \<in> scan_target x n" by (rule src)
  next
    fix t n a assume "(t, n) \<in> set arr \<and> a \<in> scan_target x n"
    then show "\<exists>t'. (a, t') \<in> set l \<and> t' \<le> t \<and> t < t' + 12 * Hour" using cov by (elim conjE)
  qed
qed

theorem announced_nodes_scanned_witness:
  "fst (receive_nodes ex_ns [(0, ex_nn ''a''), (1, ex_nn ''a'')] ([], \<lparr>n_cache = Map.empty, n_waiting = None, n_inflight = [], n_store = []\<rparr>))
     = [(x_str ex_ns [8, 8, 8, 8], 0)]"
proof -
  let ?ps = "[AnnounceNode (ex_nn ''a'') None, AnnounceNode (ex_nn ''a'') None]" and ?arr = "[(0 :: int, ex_nn ''a''), (1, ex_nn ''a'')]"
  let ?b = "\<lparr>rb_id = [], rb_stopped = False, rb_err = None, rb_done = Nil_chan, rb_feeds = (\<lambda>_. None)\<rparr>"
  let ?s = "\<lparr>n_cache = Map.empty, n_waiting = None, n_inflight = [], n_store = []\<rparr>"
  obtain l s where r: "receive_nodes ex_ns ?arr ([], ?s) = (l, s)" by fastforce
  have j: "json_ok (\<lambda>_. Inr [1]) (\<lambda>_. Inr (ex_nn ''a'')) (announced ?ps)" by (simp add: json_ok_def)
  have up: "redis_up ex_ns" by (auto simp: redis_up_def ex_ns_def split: option.splits)
  have e: "\<forall>u. x_live ex_ns u Map.empty = {}" by (simp add: ex_ns_def)
  have d: "map snd ?arr = delivered_nodes (\<lambda>_. Inr [1]) (\<lambda>_. Inl ''x'') (\<lambda>_. Inr (ex_nn ''a'')) ?b (\<lambda>_. None) [AnnounceNode (ex_nn ''lost'') None] ?ps"
    using announcements_arrive[where q = "\<lambda>_. None" and b = ?b, OF j] by simp
  have t: "scan_target ex_ns (ex_nn ''a'') = {x_str ex_ns [8, 8, 8, 8]}" using ex_global by (simp add: scan_target_def ex_ns_def)
  note p = announced_nodes_scanned[where q = "\<lambda>_. None" and b = ?b, OF j refl _ ex_redis up e d _ r]
  have p1: "\<forall>a t. (a, t) \<in> set l \<longrightarrow> (\<exists>n. (t, n) \<in> set ?arr \<and> a \<in> scan_target ex_ns n)"
    and p2: "\<forall>t n a. (t, n) \<in> set ?arr \<and> a \<in> scan_target ex_ns n \<longrightarrow> (\<exists>t'. (a, t') \<in> set l \<and> t' \<le> t \<and> t < t' + 12 * Hour)"
    and w: "sorted_wrt (\<lambda>p p'. fst p = fst p' \<longrightarrow> snd p + 12 * Hour \<le> snd p') l"
    using p by simp_all
  have src: "v = x_str ex_ns [8, 8, 8, 8] \<and> (u = 0 \<or> u = 1)" if "(v, u) \<in> set l" for v u
    using p1[rule_format, OF that] t by auto
  have c: "\<exists>t'. (x_str ex_ns [8, 8, 8, 8], t') \<in> set l \<and> t' \<le> 0" using p2[rule_format, of 0 "ex_nn ''a''" "x_str ex_ns [8, 8, 8, 8]"] t by auto
  obtain v us where l: "l = v # us" using c by (cases l) auto
  have "us = []"
  proof (cases us)
    case (Cons v' vs)
    have "fst v = fst v'" "snd v' \<le> 1" "0 \<le> snd v" using src[of "fst v" "snd v"] src[of "fst v'" "snd v'"] l Cons by auto
    then show ?thesis using w l Cons by (simp add: time_defs)
  qed simp
  with c l obtain u where "v = (x_str ex_ns [8, 8, 8, 8], u)" "u \<le> 0" by auto
  moreover from this have "u = 0" using src[of "fst v" u] l by auto
  ultimately show ?thesis unfolding r fst_conv l using \<open>us = []\<close> by simp
qed

end
